(* ===== verification/Prelude.thy ===== *)
theory Prelude
  imports Main "HOL-Library.Word"
begin

unbundle bit_operations_syntax

text \<open>
  Shared material of the UzOS development: the machine-integer types of the C sources, the
  named collections the component theories put their rules in, and the generic lemmas on lists,
  folds, words and function updates that several components use.

  A fixed-size C array is a function from its index (a \<^typ>\<open>nat\<close>) to the element, and every loop
  over it carries the array's bound; a pointer into a table is the index of the entry, and a NULL
  pointer is \<^const>\<open>None\<close>. An address is a 32-bit word, as the kernel runs on 32-bit x86.
\<close>

type_synonym u8 = "8 word"
type_synonym u16 = "16 word"
type_synonym u32 = "32 word"
type_synonym u64 = "64 word"

named_theorems kdefs \<open>definitions unfolded when a component's operations are evaluated\<close>
named_theorems kinv \<open>every operation keeps its component's invariant\<close>
named_theorems kframe \<open>fields an operation does not touch\<close>

section \<open>Lists and folds\<close>

text \<open>A loop that folds a state over a list keeps every property each step keeps.\<close>

lemma fold_invariant:
  assumes "P s" and "\<And>x s. x \<in> set xs \<Longrightarrow> P s \<Longrightarrow> P (f x s)"
  shows "P (fold f xs s)"
  using assms by (induction xs arbitrary: s) auto

lemma fold_field:
  assumes "\<And>x s. x \<in> set xs \<Longrightarrow> g (f x s) = g s"
  shows "g (fold f xs s) = g s"
  using assms by (induction xs arbitrary: s) auto

lemma find_Some_nth_least:
  assumes "find P [0..<n] = Some k"
  shows "k < n" and "P k" and "\<And>j. j < k \<Longrightarrow> \<not> P j"
proof -
  obtain i where i: "i < length [0..<n]" "P ([0..<n] ! i)" "k = [0..<n] ! i"
      "\<forall>j<i. \<not> P ([0..<n] ! j)"
    using assms by (auto simp: find_Some_iff)
  then show "k < n" and "P k" by auto
  fix j assume "j < k"
  with i show "\<not> P j" by auto
qed

lemma find_upt_None: "find P [0..<n] = None \<longleftrightarrow> (\<forall>k<n. \<not> P k)"
  by (auto simp: find_None_iff)

lemma card_Collect_less_insert:
  assumes "(k::nat) < n" and "\<not> P k"
  shows "card {i. i < n \<and> (i = k \<or> P i)} = Suc (card {i. i < n \<and> P i})"
proof -
  have "{i. i < n \<and> (i = k \<or> P i)} = insert k {i. i < n \<and> P i}"
    using assms by auto
  moreover have "k \<notin> {i. i < n \<and> P i}"
    using assms by auto
  moreover have "finite {i. i < n \<and> P i}"
    by (rule finite_subset [of _ "{..<n}"]) auto
  ultimately show ?thesis by simp
qed

lemma card_Collect_less_remove:
  assumes "(k::nat) < n" and "P k"
  shows "Suc (card {i. i < n \<and> i \<noteq> k \<and> P i}) = card {i. i < n \<and> P i}"
proof -
  have "{i. i < n \<and> P i} = insert k {i. i < n \<and> i \<noteq> k \<and> P i}"
    using assms by auto
  moreover have "k \<notin> {i. i < n \<and> i \<noteq> k \<and> P i}" by simp
  moreover have "finite {i. i < n \<and> i \<noteq> k \<and> P i}"
    by (rule finite_subset [of _ "{..<n}"]) auto
  ultimately show ?thesis by simp
qed

section \<open>Words\<close>

text \<open>On words a remainder of zero is kept as it is written, not as divisibility.\<close>

declare mod_0_imp_dvd [rule del]

lemma unat_less_p32 [simp]: "unat (x :: u32) < 4294967296"
  using unsigned_less [of x] by simp

lemma unat_add_u32:
  "unat (a :: u32) + unat b < 4294967296 \<Longrightarrow> unat (a + b) = unat a + unat b"
  by (simp add: unat_word_ariths)

lemma unat_mult_u32:
  "unat (a :: u32) * unat b < 4294967296 \<Longrightarrow> unat (a * b) = unat a * unat b"
  by (simp add: unat_word_ariths)

lemma unat_sub_u32: "b \<le> a \<Longrightarrow> unat (a - b) = unat a - unat (b :: u32)"
  by (rule unat_sub)

lemma unat_of_nat_u32: "n < 4294967296 \<Longrightarrow> unat (of_nat n :: u32) = n"
  by (simp add: unat_of_nat)

lemma of_nat_u32_inject:
  "m < 4294967296 \<Longrightarrow> n < 4294967296 \<Longrightarrow> (of_nat m :: u32) = of_nat n \<longleftrightarrow> m = n"
  using unat_of_nat_u32 by metis

lemma unat_eq_iff_of_nat: "n < 4294967296 \<Longrightarrow> unat (x :: u32) = n \<longleftrightarrow> x = of_nat n"
  by (auto simp: word_unat_eq_iff unat_of_nat_u32)

lemma unat_ucast_u64 [simp]: "unat (ucast (a :: u32) :: u64) = unat a"
  by (simp add: unsigned_ucast_eq take_bit_nat_eq_self less_trans [OF unat_less_p32])

lemma unat_ucast_u32: "unat (ucast (a :: u64) :: u32) = unat a mod 4294967296"
  by (simp add: unsigned_ucast_eq take_bit_eq_mod)

end
