(* ===== verification/Queues.thy ===== *)
theory Queues
  imports Prelude
begin

text \<open>
  Interfaces of the kernel's small tables: pools that give out the oldest entry that is wanted, and
  stores of first-in first-out queues by key. The clients of these interfaces are proved here once; the
  queue of signals with a value and the log of exit records interpret them.
\<close>

section \<open>Pools that give out the oldest entry\<close>

text \<open>Several tables of the kernel are arrays of stamped entries from which the oldest one that is wanted
  is taken, by one pass that keeps the best index so far.\<close>

locale oldest_pool =
  fixes want :: "'e \<Rightarrow> bool" and stamp :: "'e \<Rightarrow> u32" and pass :: "(nat \<Rightarrow> 'e) \<Rightarrow> nat \<Rightarrow> nat option \<Rightarrow> nat option"
  assumes pass: "pass e i best =
    (if \<not> want (e i) then best
     else case best of None \<Rightarrow> Some i | Some b \<Rightarrow> if stamp (e i) < stamp (e b) then Some i else best)"
begin

definition oldest :: "(nat \<Rightarrow> 'e) \<Rightarrow> nat list \<Rightarrow> nat option \<Rightarrow> bool" where
  "oldest e xs best \<longleftrightarrow>
     (case best of
        None \<Rightarrow> \<forall>i \<in> set xs. \<not> want (e i)
      | Some b \<Rightarrow> b \<in> set xs \<and> want (e b) \<and> (\<forall>i \<in> set xs. want (e i) \<longrightarrow> stamp (e b) \<le> stamp (e i)))"

lemma oldest_pass: "oldest e xs best \<Longrightarrow> oldest e (xs @ [i]) (pass e i best)"
  by (cases best) (auto simp: oldest_def pass)

lemma oldest_fold: "oldest e xs (fold (pass e) xs None)"
proof (induction xs rule: rev_induct)
  case Nil
  show ?case by (simp add: oldest_def)
next
  case (snoc i xs)
  then show ?case using oldest_pass by simp
qed

lemma fold_None: "fold (pass e) xs None = None \<Longrightarrow> i \<in> set xs \<Longrightarrow> \<not> want (e i)"
  using oldest_fold [of e xs] by (simp add: oldest_def)

lemma fold_Some:
  assumes "fold (pass e) xs None = Some b"
  shows "b \<in> set xs" and "want (e b)" and "i \<in> set xs \<Longrightarrow> want (e i) \<Longrightarrow> stamp (e b) \<le> stamp (e i)"
  using oldest_fold [of e xs] assms by (auto simp: oldest_def)

lemma fold_exists:
  assumes "i \<in> set xs" and "want (e i)"
  obtains b where "fold (pass e) xs None = Some b"
  using fold_None assms by fastforce

end

section \<open>Queues by key\<close>

text \<open>A store of first-in first-out queues, one per key, with a bound on the number of entries that can
  still be put before its counter wraps. Whatever is put and taken, and in whichever order the keys are
  used, each key sees its own values in the order they were put.\<close>

datatype ('k, 'v) qop = Put 'k 'v | Get 'k

locale keyed_fifo =
  fixes put :: "'k \<Rightarrow> 'v \<Rightarrow> 's \<Rightarrow> bool \<times> 's" and get :: "'k \<Rightarrow> 's \<Rightarrow> 'v option \<times> 's"
    and view :: "'k \<Rightarrow> 's \<Rightarrow> 'v list" and inv :: "nat \<Rightarrow> 's \<Rightarrow> bool" and ok :: "'k \<Rightarrow> 'v \<Rightarrow> bool"
  assumes put_law: "inv (Suc n) s \<Longrightarrow> ok k v \<Longrightarrow> put k v s = (b, s') \<Longrightarrow>
      inv n s' \<and> (\<forall>j. view j s' = (if b \<and> j = k then view j s @ [v] else view j s))"
    and get_law: "inv (Suc n) s \<Longrightarrow> get k s = (r, s') \<Longrightarrow>
      inv n s' \<and> (case r of None \<Rightarrow> view k s = [] | Some v \<Rightarrow> view k s = v # view k s') \<and>
      (\<forall>j. (r = None \<or> j \<noteq> k) \<longrightarrow> view j s' = view j s)"
begin

text \<open>A run: the final state, the values that went in and the values that came out, by key.\<close>

fun qrun :: "('k, 'v) qop list \<Rightarrow> 's \<Rightarrow> ('k \<times> 'v) list \<times> ('k \<times> 'v) list \<times> 's" where
  "qrun [] s = ([], [], s)"
| "qrun (Put k v # ops) s =
     (case put k v s of (b, s') \<Rightarrow> case qrun ops s' of (ins, outs, t) \<Rightarrow> (if b then (k, v) # ins else ins, outs, t))"
| "qrun (Get k # ops) s =
     (case get k s of (r, s') \<Rightarrow> case qrun ops s' of (ins, outs, t) \<Rightarrow>
        (ins, case r of None \<Rightarrow> outs | Some v \<Rightarrow> (k, v) # outs, t))"

definition of_key :: "'k \<Rightarrow> ('k \<times> 'v) list \<Rightarrow> 'v list" where
  "of_key k xs = map snd (filter (\<lambda>x. fst x = k) xs)"

fun op_ok :: "('k, 'v) qop \<Rightarrow> bool" where
  "op_ok (Put k v) = ok k v"
| "op_ok (Get k) = True"

lemma qrun_fifo:
  assumes "inv (length ops + m) s" and "list_all op_ok ops" and "qrun ops s = (ins, outs, t)"
  shows "inv m t \<and> of_key k outs @ view k t = view k s @ of_key k ins"
  using assms
proof (induction ops s arbitrary: ins outs t rule: qrun.induct)
  case (1 s)
  then show ?case by (simp add: of_key_def)
next
  case (2 q v ops s)
  obtain b s' where p: "put q v s = (b, s')" by fastforce
  obtain i o' u where q: "qrun ops s' = (i, o', u)" by (metis prod_cases3)
  have l: "inv (length ops + m) s'" "view k s' = (if b \<and> k = q then view k s @ [v] else view k s)"
    using put_law [OF _ _ p, of "length ops + m"] "2.prems" by auto
  have "inv m u \<and> of_key k o' @ view k u = view k s' @ of_key k i"
    using "2.IH" [OF p [symmetric] l(1) _ q] "2.prems" by simp
  then show ?case using "2.prems" p q l(2) by (auto simp: of_key_def)
next
  case (3 q ops s)
  obtain x s' where p: "get q s = (x, s')" by fastforce
  obtain i o' u where r: "qrun ops s' = (i, o', u)" by (metis prod_cases3)
  have l: "inv (length ops + m) s'" "case x of None \<Rightarrow> view q s = [] | Some v \<Rightarrow> view q s = v # view q s'"
      "x = None \<or> k \<noteq> q \<Longrightarrow> view k s' = view k s"
    using get_law [OF _ p, of "length ops + m"] "3.prems" by auto
  have "inv m u \<and> of_key k o' @ view k u = view k s' @ of_key k i"
    using "3.IH" [OF p [symmetric] l(1) _ r] "3.prems" by simp
  then show ?case using "3.prems" p r l(2,3) by (cases x) (auto simp: of_key_def)
qed

end

text \<open>The order of stamped entries when a newest one is added or the oldest one is taken.\<close>

lemma sort_key_unique:
  assumes "distinct xs" and "inj_on f (set xs)" and "set ys = set xs" and "distinct ys" and "sorted (map f ys)"
  shows "sort_key f xs = ys"
proof (rule map_sorted_distinct_set_unique [of f])
  show "inj_on f (set (sort_key f xs) \<union> set ys)" using assms by simp
  show "distinct (map f (sort_key f xs))" "distinct (map f ys)" using assms by (simp_all add: distinct_map)
qed (use assms in simp_all)

lemma insort_key_cong: "\<forall>y \<in> insert x (set ys). f y = g y \<Longrightarrow> insort_key f x ys = insort_key g x ys"
  by (induction ys) auto

lemma sort_key_cong: "\<forall>x \<in> set xs. f x = g x \<Longrightarrow> sort_key f xs = sort_key g xs"
  by (induction xs) (auto intro: insort_key_cong)

lemma sort_key_snoc:
  assumes "distinct xs" and "distinct xs'" and "set xs' = insert i (set xs)" and "i \<notin> set xs" and "inj_on f (set xs)"
    and "\<And>j. j \<in> set xs \<Longrightarrow> f j < g i" and "\<And>j. j \<in> set xs \<Longrightarrow> g j = f j"
  shows "sort_key g xs' = sort_key f xs @ [i]"
proof (rule sort_key_unique)
  have "inj_on g (set xs) = inj_on f (set xs)" by (rule inj_on_cong) (rule assms(7))
  moreover have "g i \<notin> g ` set xs" using assms(6,7) by force
  ultimately show "inj_on g (set xs')" using assms(3-5) by simp
  have m: "map g (sort_key f xs) = map f (sort_key f xs)" by (rule map_cong) (use assms(7) in simp_all)
  show "sorted (map g (sort_key f xs @ [i]))"
    unfolding map_append m sorted_append using assms(6) by (auto intro: less_imp_le)
qed (use assms in auto)

lemma sort_key_Cons:
  assumes "distinct xs" and "distinct xs'" and "set xs = insert i (set xs')" and "i \<notin> set xs'" and "inj_on f (set xs)"
    and "\<And>j. j \<in> set xs' \<Longrightarrow> f i \<le> f j" and "\<And>j. j \<in> set xs' \<Longrightarrow> g j = f j"
  shows "sort_key f xs = i # sort_key g xs'"
proof (rule sort_key_unique)
  have m: "map f (sort_key g xs') = map g (sort_key g xs')" by (rule map_cong) (use assms(7) in simp_all)
  show "sorted (map f (i # sort_key g xs'))"
    unfolding list.map m sorted_simps using assms(6,7) by simp
qed (use assms in auto)

end
