(* ===== verification/CLib.thy ===== *)
theory CLib
  imports Prelude
begin

text \<open>
  The kernel's own C library: string comparison and copying (lib/string/string.c), number parsing
  (lib/stdlib/stdlib.c) and the small snprintf (lib/format/format.c). A C string is the list of
  its characters before the terminating NUL. \<open>int\<close> values are mathematical integers; where a
  computation would leave the 32-bit range, which C leaves undefined, the model returns
  \<^const>\<open>None\<close>. \<open>unsigned long\<close> has 32 bits on the target and wraps.
\<close>

section \<open>lib/string\<close>

fun strcmp :: "string \<Rightarrow> string \<Rightarrow> int" where
  "strcmp [] [] = 0"
| "strcmp [] (b # bs) = 0 - of_char b"
| "strcmp (a # as) [] = of_char a - 0"
| "strcmp (a # as) (b # bs) = (if a = b then strcmp as bs else of_char a - of_char b)"

fun strncmp :: "string \<Rightarrow> string \<Rightarrow> nat \<Rightarrow> int" where
  "strncmp as bs 0 = 0"
| "strncmp [] [] (Suc n) = 0"
| "strncmp [] (b # bs) (Suc n) = 0 - of_char b"
| "strncmp (a # as) [] (Suc n) = of_char a - 0"
| "strncmp (a # as) (b # bs) (Suc n) =
     (if a = b then strncmp as bs n else of_char a - of_char b)"

text \<open>\<open>strncpy\<close> on a destination array: up to \<open>n\<close> characters, then NULs up to \<open>n\<close>.\<close>

definition strncpy :: "string \<Rightarrow> string \<Rightarrow> nat \<Rightarrow> string" where
  "strncpy dest src n =
     (let i = min n (length src)
      in take i src @ replicate (n - i) (CHR 0x00) @ drop n dest)"

text \<open>The string a NUL-terminated array holds.\<close>

definition cstring :: "string \<Rightarrow> string" where
  "cstring buf = takeWhile (\<lambda>c. c \<noteq> CHR 0x00) buf"

text \<open>\<open>strrchr\<close> returns the suffix that starts at the last occurrence.\<close>

fun strrchr_from :: "string \<Rightarrow> char \<Rightarrow> string option \<Rightarrow> string option" where
  "strrchr_from [] c found = found"
| "strrchr_from (x # xs) c found = strrchr_from xs c (if x = c then Some (x # xs) else found)"

definition strrchr :: "string \<Rightarrow> char \<Rightarrow> string option" where
  "strrchr s c = strrchr_from s c None"

section \<open>lib/stdlib\<close>

definition int_ok :: "int \<Rightarrow> bool" where
  "int_ok v \<longleftrightarrow> -2147483648 \<le> v \<and> v < 2147483648"

definition is_dec :: "char \<Rightarrow> bool" where
  "is_dec c \<longleftrightarrow> 48 \<le> (of_char c :: int) \<and> (of_char c :: int) \<le> 57"

text \<open>The digit loop of \<open>atoi\<close>; \<^const>\<open>None\<close> is signed overflow.\<close>

fun atoi_digits :: "string \<Rightarrow> int \<Rightarrow> int option" where
  "atoi_digits [] value = Some value"
| "atoi_digits (c # cs) value =
     (if is_dec c
      then (let v = value * 10 + (of_char c - 48)
            in if int_ok (value * 10) \<and> int_ok v then atoi_digits cs v else None)
      else Some value)"

definition atoi :: "string \<Rightarrow> int option" where
  "atoi s =
     (let s1 = dropWhile (\<lambda>c. c = CHR '' '') s;
          (sgn, s2) = (case s1 of [] \<Rightarrow> (1, s1)
             | c # cs \<Rightarrow> if c = CHR ''-'' then (-1, cs) else if c = CHR ''+'' then (1, cs)
                         else (1, s1))
      in map_option (\<lambda>v. sgn * v) (atoi_digits s2 0))"

definition digit_value :: "char \<Rightarrow> int" where
  "digit_value c =
     (let n = of_char c in
      if 48 \<le> n \<and> n \<le> 57 then n - 48
      else if 97 \<le> n \<and> n \<le> 102 then n - 97 + 10
      else if 65 \<le> n \<and> n \<le> 70 then n - 65 + 10
      else 99)"



section \<open>lib/format\<close>

text \<open>The sink: the buffer's size and the characters written so far.\<close>

record sink_t =
  sink_size :: int
  sink_out :: string

definition emit :: "char \<Rightarrow> sink_t \<Rightarrow> sink_t" where
  "emit c s =
     (if int (length (sink_out s)) < sink_size s - 1 then s\<lparr>sink_out := sink_out s @ [c]\<rparr> else s)"

definition emit_padded :: "string \<Rightarrow> int \<Rightarrow> bool \<Rightarrow> char \<Rightarrow> sink_t \<Rightarrow> sink_t" where
  "emit_padded text width left pad s =
     (let fill = nat (width - int (length text));
          s1 = (if \<not> left then fold emit (replicate fill pad) s else s);
          s2 = fold emit text s1
      in if left then fold emit (replicate fill (CHR '' '')) s2 else s2)"

definition digits :: string where
  "digits = ''0123456789abcdef''"

text \<open>The digits of a value, least significant first, as the do-while loop stores them. The
  kernel only calls it with base 8, 10 or 16; the guard on the base makes the model total.\<close>

function num_text :: "nat \<Rightarrow> nat \<Rightarrow> string" where
  "num_text base v =
     digits ! (v mod base) #
     (if v div base = 0 \<or> base < 2 then [] else num_text base (v div base))"
  by pat_completeness auto
termination
proof (relation "measure (\<lambda>(base, v). v)")
  fix base v :: nat
  assume a: "\<not> (v div base = 0 \<or> base < 2)"
  then have "0 < v" by (cases v) auto
  with a show "((base, v div base), base, v) \<in> measure (\<lambda>(base, v). v)"
    by (simp add: div_less_dividend)
qed simp

declare num_text.simps [simp del]

definition emit_number ::
    "u32 \<Rightarrow> nat \<Rightarrow> bool \<Rightarrow> int \<Rightarrow> bool \<Rightarrow> char \<Rightarrow> sink_t \<Rightarrow> sink_t" where
  "emit_number value base negative width left pad s =
     (let text = num_text base (unat value) in
      if negative then
        (if pad = CHR ''0''
         then emit_padded (rev text) (width - 1) left pad (emit (CHR ''-'') s)
         else emit_padded (rev (text @ ''-'')) width left pad s)
      else emit_padded (rev text) width left pad s)"

text \<open>A variadic argument: a string pointer (NULL is \<^const>\<open>None\<close>) or an integer.\<close>

datatype farg = AStr "string option" | AInt u32

fun read_width :: "string \<Rightarrow> int \<Rightarrow> int \<times> string" where
  "read_width [] w = (w, [])"
| "read_width (c # cs) w =
     (if is_dec c then read_width cs (w * 10 + (of_char c - 48)) else (w, c # cs))"

lemma read_width_length: "length (snd (read_width cs w)) \<le> length cs"
  by (induction cs w rule: read_width.induct) (auto intro: le_SucI)

definition strip_flag :: "char \<Rightarrow> string \<Rightarrow> bool \<times> string" where
  "strip_flag f cs = (case cs of [] \<Rightarrow> (False, []) | c # r \<Rightarrow> if c = f then (True, r) else (False, cs))"

lemma strip_flag_length: "length (snd (strip_flag f cs)) \<le> length cs"
  by (auto simp: strip_flag_def split: list.splits)

text \<open>The flags, width and conversion letter of one directive, after the percent sign.\<close>

definition parse_directive :: "string \<Rightarrow> bool \<times> char \<times> int \<times> string" where
  "parse_directive f =
     (let (left, f1) = strip_flag (CHR ''-'') f;
          (zero, f2) = strip_flag (CHR ''0'') f1;
          (width, f3) = read_width f2 0
      in (left, if zero then CHR ''0'' else CHR '' '', width, f3))"

lemma parse_directive_length:
  assumes "parse_directive f = (left, pad, width, f3)"
  shows "length f3 \<le> length f"
proof -
  have "length f3 \<le> length (snd (strip_flag (CHR ''0'') (snd (strip_flag (CHR ''-'') f))))"
    using assms read_width_length
    by (auto simp: parse_directive_def Let_def split: prod.splits) (metis snd_conv)
  also have "\<dots> \<le> length f"
    using strip_flag_length order_trans by blast
  finally show ?thesis .
qed

text \<open>One conversion: the new sink and the remaining arguments. \<^const>\<open>None\<close> is an argument that is
  missing or of the wrong type, which C leaves undefined.\<close>

definition convert ::
    "char \<Rightarrow> bool \<Rightarrow> char \<Rightarrow> int \<Rightarrow> farg list \<Rightarrow> sink_t \<Rightarrow> (sink_t \<times> farg list) option" where
  "convert c left pad width args s =
     (if c = CHR ''s'' then
        (case args of AStr t # as \<Rightarrow>
           Some (emit_padded (case t of None \<Rightarrow> ''(null)'' | Some x \<Rightarrow> x) width left (CHR '' '') s, as)
         | _ \<Rightarrow> None)
      else if c = CHR ''c'' then
        (case args of AInt v # as \<Rightarrow> Some (emit_padded [char_of (unat v)] width left (CHR '' '') s, as)
         | _ \<Rightarrow> None)
      else if c = CHR ''d'' then
        (case args of AInt v # as \<Rightarrow>
           Some (emit_number (if v <s 0 then - v else v) 10 (v <s 0) width left pad s, as)
         | _ \<Rightarrow> None)
      else if c = CHR ''u'' then
        (case args of AInt v # as \<Rightarrow> Some (emit_number v 10 False width left pad s, as) | _ \<Rightarrow> None)
      else if c = CHR ''x'' then
        (case args of AInt v # as \<Rightarrow> Some (emit_number v 16 False width left pad s, as) | _ \<Rightarrow> None)
      else if c = CHR ''o'' then
        (case args of AInt v # as \<Rightarrow> Some (emit_number v 8 False width left pad s, as) | _ \<Rightarrow> None)
      else if c = CHR ''%'' then Some (emit (CHR ''%'') s, args)
      else Some (emit c (emit (CHR ''%'') s), args))"

function vformat_loop :: "string \<Rightarrow> farg list \<Rightarrow> sink_t \<Rightarrow> sink_t option" where
  "vformat_loop [] args s = Some s"
| "vformat_loop (c # f) args s =
     (if c \<noteq> CHR ''%'' then vformat_loop f args (emit c s)
      else case parse_directive f of (left, pad, width, f3) \<Rightarrow>
        (case f3 of
           [] \<Rightarrow> Some s
         | d # f4 \<Rightarrow>
             (case convert d left pad width args s of
                None \<Rightarrow> None
              | Some (s', args') \<Rightarrow> vformat_loop f4 args' s')))"
  by pat_completeness auto
termination
  by (relation "measure (\<lambda>(f, args, s). length f)")
     (auto simp: less_Suc_eq_le dest!: parse_directive_length [OF sym])

text \<open>\<open>vformat\<close>: the string left in the buffer and the returned length.\<close>

definition vformat :: "int \<Rightarrow> string \<Rightarrow> farg list \<Rightarrow> (string \<times> int) option" where
  "vformat bufsize fmt args =
     (if bufsize \<le> 0 then Some ([], 0)
      else map_option (\<lambda>s. (sink_out s, int (length (sink_out s))))
             (vformat_loop fmt args \<lparr>sink_size = bufsize, sink_out = []\<rparr>))"

section \<open>Comparison and copying\<close>

lemma of_char_int_eq [simp]: "((of_char a :: int) = of_char b) = (a = b)"
  by simp

lemma strcmp_refl [simp]: "strcmp s s = 0"
  by (induction s) auto

lemma of_char_pos:
  assumes "c \<noteq> CHR 0x00"
  shows "0 < (of_char c :: int)"
proof -
  have "(of_char c :: int) \<noteq> of_char (CHR 0x00)"
    using assms of_char_eq_iff by blast
  then have "(of_char c :: int) \<noteq> 0" by simp
  moreover have "0 \<le> (of_char c :: int)"
    by (cases c) (simp add: of_char_def horner_sum_nonnegative)
  ultimately show ?thesis by simp
qed

text \<open>On C strings (no NUL inside), \<open>strcmp\<close> answers 0 exactly for equal strings, and \<open>strncmp\<close>
  exactly for equal prefixes.\<close>

lemma strcmp_eq_0:
  assumes "CHR 0x00 \<notin> set a" and "CHR 0x00 \<notin> set b"
  shows "strcmp a b = 0 \<longleftrightarrow> a = b"
  using assms
proof (induction a b rule: strcmp.induct)
  case (2 b bs)
  then show ?case using of_char_pos [of b] by auto
next
  case (3 a as)
  then show ?case using of_char_pos [of a] by auto
qed auto

lemma strncmp_eq_0:
  assumes "CHR 0x00 \<notin> set a" and "CHR 0x00 \<notin> set b"
  shows "strncmp a b n = 0 \<longleftrightarrow> take n a = take n b"
  using assms
proof (induction a b n rule: strncmp.induct)
  case (3 b bs n)
  then show ?case using of_char_pos [of b] by auto
next
  case (4 a as n)
  then show ?case using of_char_pos [of a] by auto
qed auto

section \<open>Formatting: the text, cut to the buffer\<close>

text \<open>The text a directive stands for, with no buffer to overflow.\<close>

definition padded :: "string \<Rightarrow> int \<Rightarrow> bool \<Rightarrow> char \<Rightarrow> string" where
  "padded text width left pad =
     (let fill = nat (width - int (length text))
      in if left then text @ replicate fill (CHR '' '') else replicate fill pad @ text)"

definition number_text :: "u32 \<Rightarrow> nat \<Rightarrow> bool \<Rightarrow> int \<Rightarrow> bool \<Rightarrow> char \<Rightarrow> string" where
  "number_text value base negative width left pad =
     (let t = rev (num_text base (unat value)) in
      if negative then (if pad = CHR ''0'' then ''-'' @ padded t (width - 1) left pad
                        else padded (''-'' @ t) width left pad)
      else padded t width left pad)"

fun conv_text :: "char \<Rightarrow> bool \<Rightarrow> char \<Rightarrow> int \<Rightarrow> farg list \<Rightarrow> (string \<times> farg list) option" where
  "conv_text c left pad width args =
     (if c = CHR ''s'' then
        (case args of AStr t # as \<Rightarrow>
           Some (padded (case t of None \<Rightarrow> ''(null)'' | Some x \<Rightarrow> x) width left (CHR '' ''), as)
         | _ \<Rightarrow> None)
      else if c = CHR ''c'' then
        (case args of AInt v # as \<Rightarrow> Some (padded [char_of (unat v)] width left (CHR '' ''), as)
         | _ \<Rightarrow> None)
      else if c = CHR ''d'' then
        (case args of AInt v # as \<Rightarrow>
           Some (number_text (if v <s 0 then - v else v) 10 (v <s 0) width left pad, as)
         | _ \<Rightarrow> None)
      else if c = CHR ''u'' then
        (case args of AInt v # as \<Rightarrow> Some (number_text v 10 False width left pad, as) | _ \<Rightarrow> None)
      else if c = CHR ''x'' then
        (case args of AInt v # as \<Rightarrow> Some (number_text v 16 False width left pad, as) | _ \<Rightarrow> None)
      else if c = CHR ''o'' then
        (case args of AInt v # as \<Rightarrow> Some (number_text v 8 False width left pad, as) | _ \<Rightarrow> None)
      else if c = CHR ''%'' then Some (''%'', args)
      else Some ([CHR ''%'', c], args))"

declare conv_text.simps [simp del]

function vtext :: "string \<Rightarrow> farg list \<Rightarrow> string option" where
  "vtext [] args = Some []"
| "vtext (c # f) args =
     (if c \<noteq> CHR ''%'' then map_option ((#) c) (vtext f args)
      else case parse_directive f of (left, pad, width, f3) \<Rightarrow>
        (case f3 of
           [] \<Rightarrow> Some []
         | d # f4 \<Rightarrow>
             (case conv_text d left pad width args of
                None \<Rightarrow> None
              | Some (t, args') \<Rightarrow> map_option ((@) t) (vtext f4 args'))))"
  by pat_completeness auto
termination
  by (relation "measure (\<lambda>(f, args). length f)")
     (auto simp: less_Suc_eq_le dest!: parse_directive_length [OF sym])

text \<open>A sink that has taken text \<open>t\<close>: what fits of it is in the buffer.\<close>

definition sink_ok :: "sink_t \<Rightarrow> bool" where
  "sink_ok s \<longleftrightarrow> 0 < sink_size s \<and> int (length (sink_out s)) \<le> sink_size s - 1"

definition put :: "string \<Rightarrow> sink_t \<Rightarrow> sink_t" where
  "put t s = s\<lparr>sink_out := take (nat (sink_size s - 1)) (sink_out s @ t)\<rparr>"

lemma put_ok [simp]: "sink_ok s \<Longrightarrow> sink_ok (put t s)"
  by (auto simp: sink_ok_def put_def)

lemma take_take_append: "take n (take n xs @ ys) = take n (xs @ ys)"
  by (cases "length xs \<le> n") auto

lemma put_put [simp]: "put b (put a s) = put (a @ b) s"
  by (simp add: put_def take_take_append del: take_append)

lemma put_Nil: "sink_ok s \<Longrightarrow> put [] s = s"
  by (auto simp: put_def sink_ok_def)

lemma emit_put: "sink_ok s \<Longrightarrow> emit c s = put [c] s"
  by (auto simp: emit_def put_def sink_ok_def)

lemma fold_emit_put: "sink_ok s \<Longrightarrow> fold emit cs s = put cs s"
proof (induction cs arbitrary: s)
  case Nil
  then show ?case by (simp add: put_Nil)
next
  case (Cons c cs)
  then show ?case by (simp add: emit_put)
qed

lemma emit_padded_put: "sink_ok s \<Longrightarrow> emit_padded t width left pad s = put (padded t width left pad) s"
  by (auto simp: emit_padded_def padded_def Let_def fold_emit_put simp del: fold_replicate)

lemma emit_number_put:
  "sink_ok s \<Longrightarrow> emit_number v base neg width left pad s = put (number_text v base neg width left pad) s"
  by (auto simp: emit_number_def number_text_def Let_def emit_padded_put emit_put)

lemma convert_put:
  "sink_ok s \<Longrightarrow> convert c left pad width args s =
     map_option (\<lambda>(t, as). (put t s, as)) (conv_text c left pad width args)"
  by (auto simp: convert_def conv_text.simps emit_padded_put emit_number_put emit_put
      split: list.splits farg.splits)

lemma vformat_loop_put:
  "sink_ok s \<Longrightarrow> vformat_loop f args s = map_option (\<lambda>t. put t s) (vtext f args)"
proof (induction f args s rule: vformat_loop.induct)
  case (1 args s)
  then show ?case by (simp add: put_Nil)
next
  case (2 c f args s)
  show ?case
  proof (cases "c = CHR ''%''")
    case False
    with 2 show ?thesis by (simp add: emit_put option.map_comp o_def)
  next
    case True
    obtain left pad width f3 where p: "parse_directive f = (left, pad, width, f3)"
      by (cases "parse_directive f") auto
    show ?thesis
    proof (cases f3)
      case Nil
      with True p 2 show ?thesis by (simp add: put_Nil)
    next
      case (Cons d f4)
      with True p 2 show ?thesis
        by (auto simp: convert_put option.map_comp o_def split: option.split)
    qed
  qed
qed

declare vtext.simps [simp del] vformat_loop.simps [simp del]

lemma vformat_eq:
  "vformat bufsize fmt args =
     (if bufsize \<le> 0 then Some ([], 0)
      else map_option (\<lambda>t. (take (nat (bufsize - 1)) t, min (bufsize - 1) (int (length t))))
             (vtext fmt args))"
proof (cases "bufsize \<le> 0")
  case True
  then show ?thesis by (simp add: vformat_def)
next
  case False
  let ?s = "\<lparr>sink_size = bufsize, sink_out = []\<rparr>"
  have "sink_ok ?s" using False by (simp add: sink_ok_def)
  then have "vformat_loop fmt args ?s = map_option (\<lambda>t. put t ?s) (vtext fmt args)"
    by (rule vformat_loop_put)
  then show ?thesis using False
    by (cases "vtext fmt args") (auto simp: vformat_def put_def min_def)
qed


section \<open>Printing and parsing numbers\<close>

lemma digits_table:
  "\<forall>d \<in> set [0..<16]. digit_value (digits ! d) = int d"
  "\<forall>d \<in> set [0..<10]. is_dec (digits ! d) \<and> (of_char (digits ! d) :: int) = 48 + int d"
  by code_simp+


lemma is_dec_digits: "d < 10 \<Longrightarrow> is_dec (digits ! d) \<and> (of_char (digits ! d) :: int) = 48 + int d"
  using digits_table(2) by simp

lemma rev_num_text:
  "2 \<le> base \<Longrightarrow> rev (num_text base v) =
     (if v div base = 0 then [] else rev (num_text base (v div base))) @ [digits ! (v mod base)]"
  by (subst num_text.simps) auto

lemma num_text_not_Nil: "num_text base v \<noteq> []"
  by (subst num_text.simps) simp

lemma atoi_digits_snoc:
  assumes "atoi_digits xs a = Some w" and "list_all is_dec xs" and "is_dec c"
    and "int_ok (w * 10)" and "int_ok (w * 10 + (of_char c - 48))"
  shows "atoi_digits (xs @ [c]) a = Some (w * 10 + (of_char c - 48))"
  using assms by (induction xs arbitrary: a) (auto simp: Let_def split: if_splits)

lemma atoi_digits_num_text:
  "v < 2147483648 \<Longrightarrow> atoi_digits (rev (num_text 10 v)) 0 = Some (int v) \<and>
     list_all is_dec (rev (num_text 10 v))"
proof (induction v rule: less_induct)
  case (less v)
  have d: "is_dec (digits ! (v mod 10))" "(of_char (digits ! (v mod 10)) :: int) = 48 + int (v mod 10)"
    using is_dec_digits [of "v mod 10"] by simp_all
  show ?case
  proof (cases "v div 10 = 0")
    case True
    then have "v mod 10 = v" and "v < 10" by simp_all
    with True d less.prems show ?thesis
      by (subst (1 2) rev_num_text) (auto simp: int_ok_def Let_def)
  next
    case False
    then have "v div 10 < v" by simp
    then have IH: "atoi_digits (rev (num_text 10 (v div 10))) 0 = Some (int (v div 10))"
        "list_all is_dec (rev (num_text 10 (v div 10)))"
      using less.IH less.prems by simp_all
    have v: "int (v div 10) * 10 + int (v mod 10) = int v"
      by (simp add: zdiv_int zmod_int)
    have "int_ok (int (v div 10) * 10)" "int_ok (int (v div 10) * 10 + int (v mod 10))"
      unfolding int_ok_def using less.prems v by linarith+
    with False IH d show ?thesis
      using atoi_digits_snoc [OF IH d(1)] v
      by (subst (1 2) rev_num_text) (simp_all add: d(2))
  qed
qed



lemma length_num_text: "2 \<le> base \<Longrightarrow> v < base ^ n \<Longrightarrow> 0 < n \<Longrightarrow> length (num_text base v) \<le> n"
proof (induction n arbitrary: v)
  case (Suc n)
  show ?case
  proof (cases "v div base = 0")
    case True
    then show ?thesis by (subst num_text.simps) simp
  next
    case False
    have n: "0 < n"
    proof (rule ccontr)
      assume "\<not> 0 < n"
      with Suc.prems have "v < base" by simp
      with False show False by simp
    qed
    have "v div base < base ^ n"
      using Suc.prems by (simp add: less_mult_imp_div_less mult.commute)
    then have "length (num_text base (v div base)) \<le> n"
      using Suc.IH Suc.prems n by blast
    then show ?thesis by (subst num_text.simps) simp
  qed
qed simp

lemma uint_of_sint: "uint (v :: u32) = (if sint v < 0 then sint v + 4294967296 else sint v)"
proof -
  have u: "uint v = sint v mod 4294967296" by (simp add: uint_sint take_bit_eq_mod)
  have r: "-2147483648 \<le> sint v" "sint v < 2147483648"
    using sint_ge [of v] sint_lt [of v] by simp_all
  show ?thesis
  proof (cases "sint v < 0")
    case True
    have "sint v mod 4294967296 = (sint v + 4294967296) mod 4294967296" by simp
    also have "\<dots> = sint v + 4294967296"
      using True r by (intro mod_pos_pos_trivial) simp_all
    finally show ?thesis using True u by simp
  next
    case False
    then have "sint v mod 4294967296 = sint v"
      using r by (intro mod_pos_pos_trivial) simp_all
    then show ?thesis using False u by simp
  qed
qed

lemma unat_magnitude: "unat (if (v :: u32) <s 0 then - v else v) = nat \<bar>sint v\<bar>"
proof (cases "sint v < 0")
  case True
  have "uint v \<noteq> 0" using True sint_ge [of v] by (simp add: uint_of_sint)
  moreover have "uint v mod 4294967296 = uint v"
    using uint_lt2p [of v] by simp
  ultimately have "uint (- v) = 4294967296 - uint v"
    by (simp add: uint_word_ariths zmod_zminus1_eq_if)
  then show ?thesis using True by (simp add: word_sless_alt uint_of_sint unat_eq_nat_uint)
next
  case False
  then show ?thesis by (simp add: word_sless_alt uint_of_sint unat_eq_nat_uint)
qed

text \<open>A directive with no flags and no width is the bare text.\<close>

lemma plain_directive:
  assumes "c = CHR ''d'' \<or> c = CHR ''u'' \<or> c = CHR ''x'' \<or> c = CHR ''o''"
  shows "vtext [CHR ''%'', c] args = map_option fst (conv_text c False (CHR '' '') 0 args)"
proof -
  have "parse_directive [c] = (False, CHR '' '', 0, [c])"
    using assms by (auto simp: parse_directive_def strip_flag_def is_dec_def)
  then show ?thesis
    by (cases "conv_text c False (CHR '' '') 0 args") (auto simp: vtext.simps)
qed

lemma padded_0 [simp]: "padded t 0 left pad = t"
  by (simp add: padded_def)

lemma atoi_plain:
  assumes "list_all is_dec t" and "t \<noteq> []"
  shows "atoi t = atoi_digits t 0" and "atoi (CHR ''-'' # t) = map_option uminus (atoi_digits t 0)"
proof -
  obtain c cs where t: "t = c # cs" using assms by (cases t) auto
  with assms have "is_dec c" by simp
  then have "c \<noteq> CHR '' ''" "c \<noteq> CHR ''-''" "c \<noteq> CHR ''+''"
    by (auto simp: is_dec_def)
  with t show "atoi t = atoi_digits t 0"
    by (cases "atoi_digits t 0") (simp_all add: atoi_def Let_def del: atoi_digits.simps)
  show "atoi (CHR ''-'' # t) = map_option uminus (atoi_digits t 0)"
    by (cases "atoi_digits t 0") (simp_all add: atoi_def Let_def)
qed

text \<open>C33: decimal printing and parsing are inverse: for every 32-bit value but INT_MIN, what
  \<open>format("%d")\<close> writes into a buffer of 12 bytes or more is read back by \<open>atoi\<close> as the same signed
  number, without overflow on the way. (For INT_MIN the digit loop of \<open>atoi\<close> overflows.)\<close>

theorem atoi_format_roundtrip:
  assumes "v \<noteq> 0x80000000" and "12 \<le> bufsize"
  shows "\<exists>t. vformat bufsize ''%d'' [AInt v] = Some (t, int (length t)) \<and> atoi t = Some (sint v)"
proof -
  define m where "m = nat \<bar>sint v\<bar>"
  let ?d = "rev (num_text 10 m)"
  define t where t: "t = (if sint v < 0 then ''-'' else []) @ ?d"
  have "sint v \<noteq> -2147483648"
  proof
    assume "sint v = -2147483648"
    then have "uint v = uint (0x80000000 :: u32)" by (simp add: uint_of_sint)
    then show False using assms(1) word_uint_eq_iff by blast
  qed
  then have lt: "m < 2147483648"
    using sint_ge [of v] sint_lt [of v] by (simp add: m_def)
  then have d: "atoi_digits ?d 0 = Some (int m)" "list_all is_dec ?d"
    using atoi_digits_num_text by blast+
  have "length ?d \<le> 10"
    using lt length_num_text [of 10 m 10] by simp
  then have len: "length t \<le> 11" by (simp add: t)
  have mag: "unat (if v <s 0 then - v else v) = m"
    by (simp only: unat_magnitude m_def)
  have "vtext ''%d'' [AInt v] = Some t"
    using mag by (cases "v <s 0")
      (simp_all add: plain_directive conv_text.simps number_text_def word_sless_alt Let_def t)
  then have "vformat bufsize ''%d'' [AInt v] = Some (t, int (length t))"
    using assms(2) len by (simp add: vformat_eq)
  moreover have "atoi t = Some (sint v)"
    using atoi_plain [OF d(2)] d(1) num_text_not_Nil [of 10 m] m_def
    by (cases "sint v < 0") (simp_all add: t)
  ultimately show ?thesis by blast
qed

theorem atoi_format_roundtrip_witness:
  "\<exists>t. vformat 16 ''%d'' [AInt (-42)] = Some (t, int (length t)) \<and> atoi t = Some (sint (-42 :: u32))"
  by (rule atoi_format_roundtrip) simp_all




end
