(* ===== verification/Kernel_State.thy ===== *)
theory Kernel_State
  imports CLib
begin

text \<open>
  The process control block of process_management/core/process/process.h and the state every
  component of the kernel can see: the timer's tick counter and rate
  (device_management/timer/timer.c), the process table and which slot has the CPU
  (process_management/core/scheduler/scheduler.c).

  Each component extends this record with its own static variables, in the order the kernel is
  layered: audit log, frame allocator, paging, kernel heap, user memory. An operation of a lower
  layer is defined on every extension, so the layers above call it on their own state, and the
  record package shows that it leaves their fields alone. \<open>cpu_irq_save\<close> and \<open>cpu_irq_restore\<close>
  do not appear: an operation that runs between them is one atomic step of the model.
\<close>

definition MAX_PROCESSES :: nat where "MAX_PROCESSES = 64"
definition MAX_FDS :: nat where "MAX_FDS = 16"
definition SIGNAL_COUNT :: nat where "SIGNAL_COUNT = 32"
definition PROCESS_NAME_LEN :: nat where "PROCESS_NAME_LEN = 32"
definition PROCESS_STACK_SIZE :: u32 where "PROCESS_STACK_SIZE = 4096"
definition PROCESS_RLIMITS :: nat where "PROCESS_RLIMITS = 16"

datatype process_state_t =
    PROCESS_STATE_FREE | PROCESS_STATE_READY | PROCESS_STATE_RUNNING
  | PROCESS_STATE_SLEEPING | PROCESS_STATE_ZOMBIE | PROCESS_STATE_STOPPED

text \<open>The PCB, field by field in the order of the C struct. Flags that C keeps as an \<open>int\<close> used
  only as a truth value are \<^typ>\<open>bool\<close>; pointers to file nodes are node numbers.\<close>

record process_t =
  pid :: u32
  generation :: u32
  p_name :: string
  p_state :: process_state_t
  uid :: u32
  is_system :: bool
  p_entry :: u32
  stack_base :: u32
  p_esp :: u32
  sleep_ticks :: u32
  sleep_interruptible :: bool
  p_signals :: u32
  sig_blocked :: u32
  sig_handler :: "nat \<Rightarrow> u32"
  sig_flags :: "nat \<Rightarrow> u32"
  sig_restorer :: "nat \<Rightarrow> u32"
  sig_mask :: "nat \<Rightarrow> u32"
  sig_from :: "nat \<Rightarrow> u32"
  sig_code :: "nat \<Rightarrow> int"
  sig_frame :: "nat \<Rightarrow> u32"
  sig_frames :: int
  sig_saved_mask :: u32
  sig_restore_mask :: bool
  altstack_sp :: u32
  altstack_size :: u32
  altstack_flags :: u32
  itimer_value :: "nat \<Rightarrow> u32"
  itimer_interval :: "nat \<Rightarrow> u32"
  itimer_seen_user :: u32
  itimer_seen_kernel :: u32
  exit_status :: int
  pdeathsig :: int
  dumpable :: bool
  no_new_privs :: bool
  child_subreaper :: bool
  vfork_parent :: u32
  tracer :: u32
  p_strace :: bool
  seccomp_mode :: int
  seccomp_allow :: "nat \<Rightarrow> u32"
  seccomp_action :: u32
  p_cwd :: "nat option"
  p_umask :: u32
  fd_table :: "nat \<Rightarrow> nat option"
  fd_offset :: "nat \<Rightarrow> u32"
  fd_flags :: "nat \<Rightarrow> u32"
  ppid :: u32
  tgid :: u32
  pgid :: u32
  sid :: u32
  start_tick :: u32
  p_priority :: int
  p_nice :: int
  p_policy :: int
  rt_priority :: int
  reset_on_fork :: bool
  slice_left :: u32
  waited_ticks :: u32
  cpu_mask :: u32
  user_ticks :: u32
  kernel_ticks :: u32
  window_ticks :: u32
  cpu_percent :: u32
  ready_ticks :: u32
  nvcsw :: u32
  nivcsw :: u32
  p_cycles :: u64
  cycles_since :: u64
  child_user_ticks :: u32
  child_kernel_ticks :: u32
  child_nvcsw :: u32
  child_nivcsw :: u32
  child_cycles :: u64
  rlim_cur :: "nat \<Rightarrow> u32"
  rlim_max :: "nat \<Rightarrow> u32"
  mempolicy :: int
  mempolicy_nodes :: u32
  membarrier_registered :: bool

text \<open>\<open>def_pcb_wipe\<close>: every byte of a PCB set to zero, which is also the free state. It does not
  look at the slot, so it is a constant.\<close>

definition def_pcb_wipe :: process_t where
  "def_pcb_wipe =
     \<lparr>pid = 0, generation = 0, p_name = [], p_state = PROCESS_STATE_FREE, uid = 0,
      is_system = False, p_entry = 0, stack_base = 0, p_esp = 0, sleep_ticks = 0,
      sleep_interruptible = False, p_signals = 0, sig_blocked = 0, sig_handler = (\<lambda>_. 0),
      sig_flags = (\<lambda>_. 0), sig_restorer = (\<lambda>_. 0), sig_mask = (\<lambda>_. 0),
      sig_from = (\<lambda>_. 0), sig_code = (\<lambda>_. 0), sig_frame = (\<lambda>_. 0),
      sig_frames = 0, sig_saved_mask = 0, sig_restore_mask = False, altstack_sp = 0,
      altstack_size = 0, altstack_flags = 0, itimer_value = (\<lambda>_. 0),
      itimer_interval = (\<lambda>_. 0), itimer_seen_user = 0, itimer_seen_kernel = 0,
      exit_status = 0, pdeathsig = 0, dumpable = False, no_new_privs = False,
      child_subreaper = False, vfork_parent = 0, tracer = 0, p_strace = False, seccomp_mode = 0,
      seccomp_allow = (\<lambda>_. 0), seccomp_action = 0, p_cwd = None, p_umask = 0,
      fd_table = (\<lambda>_. None), fd_offset = (\<lambda>_. 0), fd_flags = (\<lambda>_. 0),
      ppid = 0, tgid = 0, pgid = 0, sid = 0, start_tick = 0, p_priority = 0, p_nice = 0,
      p_policy = 0, rt_priority = 0, reset_on_fork = False, slice_left = 0, waited_ticks = 0,
      cpu_mask = 0, user_ticks = 0, kernel_ticks = 0, window_ticks = 0, cpu_percent = 0,
      ready_ticks = 0, nvcsw = 0, nivcsw = 0, p_cycles = 0, cycles_since = 0,
      child_user_ticks = 0, child_kernel_ticks = 0, child_nvcsw = 0, child_nivcsw = 0,
      child_cycles = 0, rlim_cur = (\<lambda>_. 0), rlim_max = (\<lambda>_. 0), mempolicy = 0,
      mempolicy_nodes = 0, membarrier_registered = False\<rparr>"

record kernel =
  timer_ticks :: u32
  timer_hz :: u32
  table :: "nat \<Rightarrow> process_t"
  current :: "nat option"

text \<open>\<open>scheduler_get_current_process\<close>: the PCB on the CPU, if there is one yet.\<close>

definition current_process :: "'a kernel_scheme \<Rightarrow> process_t option" where
  "current_process s = map_option (table s) (current s)"

text \<open>\<open>process_caller_uid\<close>: the uid of whoever runs right now, 0 before the scheduler exists.\<close>

definition process_caller_uid :: "'a kernel_scheme \<Rightarrow> u32" where
  "process_caller_uid s = (case current_process s of None \<Rightarrow> 0 | Some p \<Rightarrow> uid p)"

definition timer_frequency :: "'a kernel_scheme \<Rightarrow> u32" where
  "timer_frequency s = timer_hz s"

text \<open>Milliseconds since the timer started; the product is taken in 64 bits.\<close>

definition timer_uptime_ms :: "'a kernel_scheme \<Rightarrow> u32" where
  "timer_uptime_ms s =
     (if timer_hz s = 0 then 0
      else ucast (ucast (timer_ticks s) * 1000 div (ucast (timer_hz s) :: u64)))"

text \<open>\<open>process_get_by_pid\<close>: the slot of the process with a PID, and an update of one PCB.\<close>

definition process_get_by_pid :: "u32 \<Rightarrow> 'a kernel_scheme \<Rightarrow> nat option" where
  "process_get_by_pid n s =
     find (\<lambda>i. p_state (table s i) \<noteq> PROCESS_STATE_FREE \<and> pid (table s i) = n) [0..<MAX_PROCESSES]"

definition upd_proc :: "nat \<Rightarrow> (process_t \<Rightarrow> process_t) \<Rightarrow> 'a kernel_scheme \<Rightarrow> 'a kernel_scheme" where
  "upd_proc i f s = s\<lparr>table := (table s)(i := f (table s i))\<rparr>"

lemma table_upd_proc [simp]: "table (upd_proc i f s) j = (if j = i then f (table s i) else table s j)"
  by (simp add: upd_proc_def)

lemma upd_proc_fields [simp]:
  "current (upd_proc i f s) = current s" "timer_ticks (upd_proc i f s) = timer_ticks s"
  "timer_hz (upd_proc i f s) = timer_hz s" "kernel.more (upd_proc i f s) = kernel.more s"
  by (simp_all add: upd_proc_def)

lemma get_by_pid_Some:
  assumes "process_get_by_pid n s = Some i"
  shows "i < MAX_PROCESSES" and "p_state (table s i) \<noteq> PROCESS_STATE_FREE" and "pid (table s i) = n"
  using find_Some_nth_least [OF assms [unfolded process_get_by_pid_def]] by auto

end
