(* ===== verification/Limits.thy ===== *)
theory Limits
  imports Audit_Log
begin

text \<open>
  Privileges and quotas: the capability table (security_management/core/caps/caps.c), the resource
  limits of a process (cpu_management/core/rlimit/rlimit.c) and the system calls getrlimit,
  setrlimit and prlimit64 (cpu_management/syscalls). Messages on the screen are not modelled.

  The lemmas show that a soft limit never exceeds its hard limit, and that no sequence of these
  calls by processes without CAP_RESOURCE raises a hard limit or touches another user's process.
\<close>

section \<open>Capabilities\<close>

datatype cap_t =
    CAP_KILL | CAP_SETUID | CAP_FILES | CAP_CHOWN | CAP_USERS | CAP_PRIORITY | CAP_RESOURCE
  | CAP_SECLAB | CAP_PTRACE | CAP_NET_ADMIN | CAP_NET_RAW | CAP_NET_BIND

definition UID_ROOT :: u32 where "UID_ROOT = 0"

definition cap_number :: "cap_t \<Rightarrow> nat" where
  "cap_number c = (case c of
      CAP_KILL \<Rightarrow> 0 | CAP_SETUID \<Rightarrow> 1 | CAP_FILES \<Rightarrow> 2 | CAP_CHOWN \<Rightarrow> 3 | CAP_USERS \<Rightarrow> 4
    | CAP_PRIORITY \<Rightarrow> 5 | CAP_RESOURCE \<Rightarrow> 6 | CAP_SECLAB \<Rightarrow> 7 | CAP_PTRACE \<Rightarrow> 8
    | CAP_NET_ADMIN \<Rightarrow> 9 | CAP_NET_RAW \<Rightarrow> 10 | CAP_NET_BIND \<Rightarrow> 11)"

definition CAP_COUNT :: nat where "CAP_COUNT = 12"

definition CAP_BIT :: "nat \<Rightarrow> u32" where "CAP_BIT n = push_bit n 1"

definition CAPS_ALL :: u32 where "CAPS_ALL = CAP_BIT CAP_COUNT - 1"

definition caps_of :: "u32 \<Rightarrow> u32" where
  "caps_of u = (if u = UID_ROOT then CAPS_ALL else 0)"

definition caps_has :: "u32 \<Rightarrow> cap_t \<Rightarrow> bool" where
  "caps_has u cap \<longleftrightarrow> caps_of u AND CAP_BIT (cap_number cap) \<noteq> 0"

definition caps_caller_has :: "cap_t \<Rightarrow> 'a kernel_scheme \<Rightarrow> bool" where
  "caps_caller_has cap s = caps_has (process_caller_uid s) cap"

definition caps_name :: "cap_t \<Rightarrow> string" where
  "caps_name c = (case c of
      CAP_KILL \<Rightarrow> ''CAP_KILL'' | CAP_SETUID \<Rightarrow> ''CAP_SETUID'' | CAP_FILES \<Rightarrow> ''CAP_FILES''
    | CAP_CHOWN \<Rightarrow> ''CAP_CHOWN'' | CAP_USERS \<Rightarrow> ''CAP_USERS'' | CAP_PRIORITY \<Rightarrow> ''CAP_PRIORITY''
    | CAP_RESOURCE \<Rightarrow> ''CAP_RESOURCE'' | CAP_SECLAB \<Rightarrow> ''CAP_SECLAB'' | CAP_PTRACE \<Rightarrow> ''CAP_PTRACE''
    | CAP_NET_ADMIN \<Rightarrow> ''CAP_NET_ADMIN'' | CAP_NET_RAW \<Rightarrow> ''CAP_NET_RAW''
    | CAP_NET_BIND \<Rightarrow> ''CAP_NET_BIND'')"

definition caps_require :: "cap_t \<Rightarrow> 'a audit_scheme \<Rightarrow> bool \<times> 'a audit_scheme" where
  "caps_require cap s =
     (if caps_caller_has cap s then (True, s)
      else (False, audit_log ''caps'' (''refused: needs '' @ caps_name cap) s))"

lemma caps_has_root: "caps_has u cap \<longleftrightarrow> u = 0"
proof -
  have all: "CAPS_ALL = mask 12" by (simp add: CAPS_ALL_def CAP_BIT_def CAP_COUNT_def mask_eq_exp_minus_1)
  have "mask 12 AND CAP_BIT n \<noteq> (0 :: u32)" if "n < 12" for n
  proof -
    have "bit (mask 12 AND CAP_BIT n :: u32) n" using that by (simp add: CAP_BIT_def bit_simps)
    then show ?thesis by (metis bit_0_eq bot_apply bot_bool_def)
  qed
  moreover have "cap_number cap < 12" by (cases cap) (simp_all add: cap_number_def)
  ultimately show ?thesis by (auto simp: caps_has_def caps_of_def all UID_ROOT_def)
qed

section \<open>Resource limits\<close>

definition RLIM_INFINITY :: u32 where "RLIM_INFINITY = 0xFFFFFFFF"
definition RLIMIT_CPU :: int where "RLIMIT_CPU = 0"
definition RLIMIT_FSIZE :: int where "RLIMIT_FSIZE = 1"
definition RLIMIT_DATA :: int where "RLIMIT_DATA = 2"
definition RLIMIT_STACK :: int where "RLIMIT_STACK = 3"
definition RLIMIT_NPROC :: int where "RLIMIT_NPROC = 6"
definition RLIMIT_NOFILE :: int where "RLIMIT_NOFILE = 7"
definition RLIMIT_SIGPENDING :: int where "RLIMIT_SIGPENDING = 11"
definition RLIMIT_NICE :: int where "RLIMIT_NICE = 13"
definition RLIMIT_RTPRIO :: int where "RLIMIT_RTPRIO = 14"
definition RLIMIT_COUNT :: int where "RLIMIT_COUNT = 16"
definition STACK_BYTES :: u32 where "STACK_BYTES = 4096"

lemmas rlimit_consts = RLIMIT_CPU_def RLIMIT_FSIZE_def RLIMIT_DATA_def RLIMIT_STACK_def RLIMIT_NPROC_def
  RLIMIT_NOFILE_def RLIMIT_SIGPENDING_def RLIMIT_NICE_def RLIMIT_RTPRIO_def RLIMIT_COUNT_def

record rlimit_t =
  rl_cur :: u32
  rl_max :: u32

text \<open>The default soft and hard value of the limits UzOS uses; \<^const>\<open>None\<close> is a row without a name.\<close>

definition rlimit_table :: "int \<Rightarrow> (u32 \<times> u32) option" where
  "rlimit_table r =
     (if r = RLIMIT_CPU \<or> r = RLIMIT_FSIZE \<or> r = RLIMIT_DATA then Some (RLIM_INFINITY, RLIM_INFINITY)
      else if r = RLIMIT_STACK then Some (STACK_BYTES, STACK_BYTES)
      else if r = RLIMIT_NPROC then Some (of_nat MAX_PROCESSES, of_nat MAX_PROCESSES)
      else if r = RLIMIT_SIGPENDING then Some (16, 16)
      else if r = RLIMIT_NOFILE then Some (of_nat MAX_FDS, of_nat MAX_FDS)
      else if r = RLIMIT_NICE \<or> r = RLIMIT_RTPRIO then Some (0, 0)
      else None)"

definition rlimit_supported :: "int \<Rightarrow> bool" where
  "rlimit_supported r \<longleftrightarrow> r \<ge> 0 \<and> r < RLIMIT_COUNT \<and> rlimit_table r \<noteq> None"

definition rlimit_defaults :: "process_t \<Rightarrow> process_t" where
  "rlimit_defaults p = p\<lparr>
     rlim_cur := (\<lambda>i. if int i < RLIMIT_COUNT
        then (if rlimit_supported (int i) then fst (the (rlimit_table (int i))) else RLIM_INFINITY) else rlim_cur p i),
     rlim_max := (\<lambda>i. if int i < RLIMIT_COUNT
        then (if rlimit_supported (int i) then snd (the (rlimit_table (int i))) else RLIM_INFINITY) else rlim_max p i)\<rparr>"

definition rlimit_get :: "process_t option \<Rightarrow> int \<Rightarrow> rlimit_t option" where
  "rlimit_get p r =
     (case p of
        None \<Rightarrow> None
      | Some q \<Rightarrow> if r < 0 \<or> r \<ge> RLIMIT_COUNT then None
                 else Some \<lparr>rl_cur = rlim_cur q (nat r), rl_max = rlim_max q (nat r)\<rparr>)"

text \<open>May \<open>caller\<close> set this limit of \<open>target\<close>?\<close>

definition rlimit_set_ok :: "process_t option \<Rightarrow> process_t \<Rightarrow> int \<Rightarrow> rlimit_t \<Rightarrow> bool" where
  "rlimit_set_ok caller target r limit =
     (let privileged = caps_has (case caller of None \<Rightarrow> 0 | Some c \<Rightarrow> uid c) CAP_RESOURCE
      in if \<not> rlimit_supported r \<or> rl_cur limit > rl_max limit then False
         else if (case caller of None \<Rightarrow> False | Some c \<Rightarrow> uid c \<noteq> uid target) \<and> \<not> privileged then False
         else if rl_max limit > rlim_max target (nat r) \<and> \<not> privileged then False
         else if r = RLIMIT_STACK \<and> rl_cur limit \<noteq> STACK_BYTES then False
         else if r = RLIMIT_NOFILE \<and> rl_max limit > of_nat MAX_FDS \<and> rl_max limit \<noteq> RLIM_INFINITY then False
         else if r = RLIMIT_NICE \<and> rl_max limit \<noteq> RLIM_INFINITY \<and> rl_max limit > 40 then False
         else if r = RLIMIT_RTPRIO \<and> rl_max limit \<noteq> RLIM_INFINITY \<and> rl_max limit > 99 then False
         else True)"

definition rlimit_set ::
    "process_t option \<Rightarrow> nat option \<Rightarrow> int \<Rightarrow> rlimit_t \<Rightarrow> 'a kernel_scheme \<Rightarrow> bool \<times> 'a kernel_scheme" where
  "rlimit_set caller target r limit s =
     (case target of
        None \<Rightarrow> (False, s)
      | Some i \<Rightarrow>
          if rlimit_set_ok caller (table s i) r limit
          then (True, upd_proc i (\<lambda>p. p\<lparr>rlim_cur := (rlim_cur p)(nat r := rl_cur limit),
                                        rlim_max := (rlim_max p)(nat r := rl_max limit)\<rparr>) s)
          else (False, s))"

text \<open>The checks where each resource is used.\<close>

definition rlimit_check_cpu :: "nat \<Rightarrow> 'a kernel_scheme \<Rightarrow> 'a kernel_scheme" where
  "rlimit_check_cpu i s =
     (let p = table s i; limit = rlim_cur p (nat RLIMIT_CPU); hz = timer_frequency s
      in if is_system p \<or> limit = RLIM_INFINITY \<or> hz = 0 then s
         else if (user_ticks p + kernel_ticks p) div hz < limit then s
         else upd_proc i (\<lambda>p. p\<lparr>p_state := PROCESS_STATE_ZOMBIE\<rparr>) s)"

definition rlimit_nproc_ok :: "process_t option \<Rightarrow> u32 \<Rightarrow> 'a kernel_scheme \<Rightarrow> bool" where
  "rlimit_nproc_ok creator u s =
     (case creator of
        None \<Rightarrow> True
      | Some c \<Rightarrow>
          if caps_has (uid c) CAP_RESOURCE then True
          else of_nat (length (filter (\<lambda>i. uid (table s i) = u \<and> p_state (table s i) \<noteq> PROCESS_STATE_FREE \<and>
                 p_state (table s i) \<noteq> PROCESS_STATE_ZOMBIE) [0..<MAX_PROCESSES])) < rlim_cur c (nat RLIMIT_NPROC))"

definition rlimit_nofile :: "process_t option \<Rightarrow> nat" where
  "rlimit_nofile p =
     (let limit = (case p of None \<Rightarrow> of_nat MAX_FDS | Some q \<Rightarrow> rlim_cur q (nat RLIMIT_NOFILE))
      in if limit > of_nat MAX_FDS then MAX_FDS else unat limit)"

definition rlimit_fsize_ok :: "process_t option \<Rightarrow> u32 \<Rightarrow> bool" where
  "rlimit_fsize_ok p stop =
     (case p of
        None \<Rightarrow> True
      | Some q \<Rightarrow> rlim_cur q (nat RLIMIT_FSIZE) = RLIM_INFINITY \<or> stop \<le> rlim_cur q (nat RLIMIT_FSIZE))"

definition rlimit_data_ok :: "process_t option \<Rightarrow> u32 \<Rightarrow> bool" where
  "rlimit_data_ok p bytes =
     (case p of
        None \<Rightarrow> True
      | Some q \<Rightarrow> rlim_cur q (nat RLIMIT_DATA) = RLIM_INFINITY \<or> bytes \<le> rlim_cur q (nat RLIMIT_DATA))"

section \<open>System calls\<close>

definition sys_getrlimit :: "int \<Rightarrow> 'a kernel_scheme \<Rightarrow> rlimit_t option" where
  "sys_getrlimit r s = rlimit_get (current_process s) r"

definition sys_setrlimit :: "int \<Rightarrow> rlimit_t option \<Rightarrow> 'a kernel_scheme \<Rightarrow> int \<times> 'a kernel_scheme" where
  "sys_setrlimit r limit s =
     (case limit of
        None \<Rightarrow> (-1, s)
      | Some l \<Rightarrow> (case rlimit_set (current_process s) (current s) r l s of
                    (ok, s') \<Rightarrow> (if ok then 0 else -1, s')))"

definition to_32 :: "u64 \<Rightarrow> u32" where
  "to_32 v = (if v \<ge> ucast RLIM_INFINITY then RLIM_INFINITY else ucast v)"

definition to_64 :: "u32 \<Rightarrow> u64" where
  "to_64 v = (if v = RLIM_INFINITY then 0xFFFFFFFFFFFFFFFF else ucast v)"

text \<open>The result, the old limit (written when there is a target and room for it) and the state.\<close>

definition sys_prlimit64 ::
    "u32 \<Rightarrow> int \<Rightarrow> (u64 \<times> u64) option \<Rightarrow> 'a kernel_scheme \<Rightarrow> int \<times> (u64 \<times> u64) option \<times> 'a kernel_scheme" where
  "sys_prlimit64 n r new_limit s =
     (let target = (if n \<noteq> 0 then process_get_by_pid n s else current s)
      in case rlimit_get (map_option (table s) target) r of
           None \<Rightarrow> (-1, None, s)
         | Some now \<Rightarrow>
             (let old = Some (to_64 (rl_cur now), to_64 (rl_max now))
              in case new_limit of
                   None \<Rightarrow> (0, old, s)
                 | Some (c, m) \<Rightarrow>
                     (case rlimit_set (current_process s) target r \<lparr>rl_cur = to_32 c, rl_max = to_32 m\<rparr> s of
                        (ok, s') \<Rightarrow> (if ok then 0 else -1, old, s'))))"

section \<open>What the calls can change\<close>

lemma rlimit_set_ok_rules:
  assumes "rlimit_set_ok caller p r l"
  shows "0 \<le> r" and "r < 16" and "rl_cur l \<le> rl_max l"
    and "caller = Some c \<Longrightarrow> uid c \<noteq> 0 \<Longrightarrow> uid p = uid c \<and> rl_max l \<le> rlim_max p (nat r)"
  using assms
  by (auto simp: rlimit_set_ok_def Let_def rlimit_supported_def rlimit_consts caps_has_root not_less split: if_splits)

text \<open>Soft limits stay within hard limits.\<close>

definition limits_wf :: "process_t \<Rightarrow> bool" where
  "limits_wf p \<longleftrightarrow> (\<forall>r < PROCESS_RLIMITS. rlim_cur p r \<le> rlim_max p r)"

text \<open>What one process may become: the same, or with limits lowered.\<close>

definition limits_le :: "process_t \<Rightarrow> process_t \<Rightarrow> bool" where
  "limits_le p q \<longleftrightarrow> uid p = uid q \<and> (\<forall>r. rlim_max p r \<le> rlim_max q r)"

lemma limits_le_refl [simp]: "limits_le p p"
  by (simp add: limits_le_def)

lemma limits_le_trans: "limits_le p q \<Longrightarrow> limits_le q w \<Longrightarrow> limits_le p w"
  unfolding limits_le_def by (metis order_trans)

lemma rlimit_set_keeps:
  assumes "\<forall>i. limits_wf (table s i)"
  shows "limits_wf (table (snd (rlimit_set caller target r l s)) i)"
    and "caller = Some c \<Longrightarrow> uid c \<noteq> 0 \<Longrightarrow>
      limits_le (table (snd (rlimit_set caller target r l s)) i) (table s i) \<and>
      (uid (table s i) \<noteq> uid c \<longrightarrow> table (snd (rlimit_set caller target r l s)) i = table s i)"
proof -
  show "limits_wf (table (snd (rlimit_set caller target r l s)) i)"
    using assms rlimit_set_ok_rules(3) [of caller _ r l]
    by (auto simp: rlimit_set_def limits_wf_def split: option.split)
  show "limits_le (table (snd (rlimit_set caller target r l s)) i) (table s i) \<and>
      (uid (table s i) \<noteq> uid c \<longrightarrow> table (snd (rlimit_set caller target r l s)) i = table s i)"
    if "caller = Some c" "uid c \<noteq> 0"
    using rlimit_set_ok_rules(4) [OF _ that, of _ r l]
    by (auto simp: rlimit_set_def limits_le_def split: option.split)
qed

lemma rlimit_set_current: "current (snd (rlimit_set caller target r l s)) = current s"
  by (simp add: rlimit_set_def split: option.split)

lemma sys_calls_rlimit_set:
  "snd (sys_setrlimit r lo s) = s \<or>
     (\<exists>l. snd (sys_setrlimit r lo s) = snd (rlimit_set (current_process s) (current s) r l s))"
  "snd (snd (sys_prlimit64 n r new s)) = s \<or>
     (\<exists>t l. snd (snd (sys_prlimit64 n r new s)) = snd (rlimit_set (current_process s) t r l s))"
  by (auto simp: sys_setrlimit_def sys_prlimit64_def Let_def case_prod_beta split: option.split)

text \<open>Calls by a process of an ordinary user, and the scheduler giving the CPU to another one.\<close>

inductive user_limit_step :: "u32 set \<Rightarrow> 'a kernel_scheme \<Rightarrow> 'a kernel_scheme \<Rightarrow> bool" for us where
  set_own: "current_process s = Some c \<Longrightarrow> uid c \<in> us \<Longrightarrow>
    user_limit_step us s (snd (sys_setrlimit r l s))"
| set_pid: "current_process s = Some c \<Longrightarrow> uid c \<in> us \<Longrightarrow>
    user_limit_step us s (snd (snd (sys_prlimit64 n r new s)))"
| switch_to: "user_limit_step us s (s\<lparr>current := k\<rparr>)"

lemma user_limit_step_keeps:
  assumes "user_limit_step us s s'" and "0 \<notin> us" and "\<forall>i. limits_wf (table s i)"
  shows "limits_wf (table s' i) \<and> limits_le (table s' i) (table s i) \<and>
     (uid (table s i) \<notin> us \<longrightarrow> table s' i = table s i)"
  using assms(1)
proof cases
  case (set_own c r l)
  then show ?thesis
    using sys_calls_rlimit_set(1) [of r l s] rlimit_set_keeps(1) [OF assms(3)]
      rlimit_set_keeps(2) [OF assms(3), of "Some c" c] assms(2,3)
    by (metis limits_le_refl)
next
  case (set_pid c n r new)
  then show ?thesis
    using sys_calls_rlimit_set(2) [of n r new s] rlimit_set_keeps(1) [OF assms(3)]
      rlimit_set_keeps(2) [OF assms(3), of "Some c" c] assms(2,3)
    by (metis limits_le_refl)
next
  case (switch_to k)
  then show ?thesis using assms(3) by simp
qed

section \<open>Properties\<close>

text \<open>C28: without CAP_RESOURCE limits only go down. Whatever sequence of setrlimit and prlimit64 calls
  processes of ordinary users make, in whatever order they get the CPU: no hard limit of any process
  is raised, no soft limit exceeds its hard limit, and a process of a user outside the group is not
  touched at all.\<close>

theorem rlimits_never_raised:
  assumes "(user_limit_step us)\<^sup>*\<^sup>* s s'" and "0 \<notin> us" and "\<forall>i. limits_wf (table s i)"
  shows "limits_wf (table s' i) \<and> (\<forall>r. rlim_max (table s' i) r \<le> rlim_max (table s i) r) \<and>
     (uid (table s i) \<notin> us \<longrightarrow> table s' i = table s i)"
proof -
  have "\<forall>i. limits_wf (table s' i) \<and> limits_le (table s' i) (table s i) \<and>
      (uid (table s i) \<notin> us \<longrightarrow> table s' i = table s i)"
    using assms(1)
  proof induction
    case base
    then show ?case using assms(3) by simp
  next
    case (step t t')
    have "\<forall>i. limits_wf (table t i)" using step.IH by blast
    then show ?case
      using user_limit_step_keeps [OF step.hyps(2) assms(2)] step.IH
      by (metis limits_le_def limits_le_trans)
  qed
  then show ?thesis by (simp add: limits_le_def)
qed

definition limited_proc :: process_t where
  "limited_proc = (rlimit_defaults def_pcb_wipe)\<lparr>uid := 1000, pid := 5, p_state := PROCESS_STATE_RUNNING\<rparr>"

lemma limited_proc_wf: "limits_wf limited_proc" "limits_wf def_pcb_wipe"
  by (auto simp: limits_wf_def limited_proc_def def_pcb_wipe_def rlimit_defaults_def rlimit_table_def
      rlimit_supported_def)

theorem rlimits_never_raised_witness:
  "let s = (empty_log 0)\<lparr>table := (\<lambda>_. def_pcb_wipe)(0 := limited_proc), current := Some 0\<rparr>;
       s' = snd (sys_setrlimit RLIMIT_CPU (Some \<lparr>rl_cur = 2, rl_max = 2\<rparr>) s)
   in rlim_max (table s' 0) 0 = 2 \<and> (\<forall>r. rlim_max (table s' 0) r \<le> rlim_max (table s 0) r)"
proof -
  define s where "s = (empty_log 0)\<lparr>table := (\<lambda>_. def_pcb_wipe)(0 := limited_proc), current := Some 0\<rparr>"
  define s' where "s' = snd (sys_setrlimit RLIMIT_CPU (Some \<lparr>rl_cur = 2, rl_max = 2\<rparr>) s)"
  have wf: "\<forall>i. limits_wf (table s i)" using limited_proc_wf by (simp add: s_def)
  have "current_process s = Some limited_proc" "uid limited_proc \<in> {1000}"
    by (simp_all add: s_def current_process_def limited_proc_def)
  then have "user_limit_step {1000} s s'" unfolding s'_def by (rule set_own)
  then have "(user_limit_step {1000})\<^sup>*\<^sup>* s s'" by simp
  from rlimits_never_raised [OF this _ wf, of 0]
  have "\<forall>r. rlim_max (table s' 0) r \<le> rlim_max (table s 0) r" by simp
  moreover have "rlim_max (table s' 0) 0 = 2"
    by (simp add: s'_def s_def sys_setrlimit_def rlimit_set_def rlimit_set_ok_def current_process_def rlimit_consts
        rlimit_supported_def rlimit_table_def limited_proc_def rlimit_defaults_def def_pcb_wipe_def RLIM_INFINITY_def)
  ultimately show ?thesis by (simp add: Let_def s_def s'_def)
qed

end
