(* ===== verification/Pmm.thy ===== *)
theory Pmm
  imports Audit_Log
begin

unbundle bit_operations_syntax

text \<open>
  The physical memory manager (memory_management/core/pmm/pmm.c) and the defence pmm_free_guard
  that checks every free. One bit per 4 KiB frame, set when the frame is in use or is not RAM.

  The bootloader's data (boot/multiboot.h) and the linker's symbols are inputs: \<open>mmap_at\<close> reads a
  memory-map entry at an address, \<open>mod_at\<close> the \<open>i\<close>-th module, and \<open>kernel_start\<close>, \<open>kernel_end\<close>
  are the values of \<open>_kernel_start\<close> and \<open>_kernel_end\<close>. The walk over the memory map follows sizes
  the bootloader wrote, so it has fuel; \<open>mmap_walk_enough\<close> says how much is enough.

  The lemmas show that allocation returns the lowest free frame and changes only its bit, that a
  free is accepted exactly for aligned, real, unreserved frames in use, that reserved frames stay
  reserved and in use, and that the used counter is always the number of set bits.
\<close>

definition PAGE_SIZE :: u32 where "PAGE_SIZE = 0x1000"
definition PMM_MAX_FRAMES :: u64 where "PMM_MAX_FRAMES = 0x100000000 div 0x1000"
definition PMM_MAX_REGIONS :: nat where "PMM_MAX_REGIONS = 16"
definition MAX_RESERVED :: nat where "MAX_RESERVED = 32"
definition LOW_MEMORY_END :: u64 where "LOW_MEMORY_END = 0x100000"
definition MULTIBOOT_INFO_MODS :: u32 where "MULTIBOOT_INFO_MODS = 0x8"
definition MULTIBOOT_INFO_MEM_MAP :: u32 where "MULTIBOOT_INFO_MEM_MAP = 0x40"
definition MULTIBOOT_MEMORY_AVAILABLE :: u32 where "MULTIBOOT_MEMORY_AVAILABLE = 1"

lemmas pmm_consts = PAGE_SIZE_def PMM_MAX_FRAMES_def PMM_MAX_REGIONS_def MAX_RESERVED_def
  LOW_MEMORY_END_def

record multiboot_memory_map_t =
  mm_size :: u32
  mm_addr :: u64
  mm_len :: u64
  mm_type :: u32

record multiboot_info_t =
  mb_flags :: u32
  mods_count :: u32
  mods_addr :: u32
  mmap_length :: u32
  mmap_addr :: u32

record pmm_region_t =
  reg_base :: u64
  reg_length :: u64
  reg_type :: u32

record pmm = audit +
  bitmap :: "nat \<Rightarrow> u8"
  total_frames :: u32
  used_frames :: u32
  highest_ram :: u64
  reserved :: "nat \<Rightarrow> u32 \<times> u32"
  reserved_count :: nat
  regions :: "nat \<Rightarrow> pmm_region_t"
  region_count :: nat

section \<open>Bitmap\<close>

definition mark_used :: "nat \<Rightarrow> 'a pmm_scheme \<Rightarrow> 'a pmm_scheme" where
  "mark_used frame s =
     s\<lparr>bitmap := (bitmap s)(frame div 8 := bitmap s (frame div 8) OR push_bit (frame mod 8) 1)\<rparr>"

definition mark_free :: "nat \<Rightarrow> 'a pmm_scheme \<Rightarrow> 'a pmm_scheme" where
  "mark_free frame s =
     s\<lparr>bitmap := (bitmap s)(frame div 8 := bitmap s (frame div 8) AND NOT (push_bit (frame mod 8) 1))\<rparr>"

definition is_used :: "nat \<Rightarrow> 'a pmm_scheme \<Rightarrow> bool" where
  "is_used frame s \<longleftrightarrow> bitmap s (frame div 8) AND push_bit (frame mod 8) 1 \<noteq> 0"

definition to_frame :: "u64 \<Rightarrow> u32" where
  "to_frame address =
     (let frame = address div ucast PAGE_SIZE
      in if frame < PMM_MAX_FRAMES then ucast frame else ucast PMM_MAX_FRAMES)"

section \<open>Setup\<close>

definition free_range :: "u64 \<Rightarrow> u64 \<Rightarrow> 'a pmm_scheme \<Rightarrow> 'a pmm_scheme" where
  "free_range start stop s =
     (let first = to_frame (start + ucast PAGE_SIZE - 1);
          last = to_frame stop
      in fold mark_free [unat first..<unat last] s)"

definition reserve_range :: "u64 \<Rightarrow> u64 \<Rightarrow> 'a pmm_scheme \<Rightarrow> 'a pmm_scheme" where
  "reserve_range start stop s =
     (if start \<ge> stop then s
      else let first = to_frame start;
               last = to_frame (stop + ucast PAGE_SIZE - 1);
               s1 = fold mark_used [unat first..<unat last] s
           in if reserved_count s1 < MAX_RESERVED
              then s1\<lparr>reserved := (reserved s1)(reserved_count s1 := (first, last)),
                      reserved_count := Suc (reserved_count s1)\<rparr>
              else s1)"

text \<open>The entries \<open>for_each_mmap_entry\<close> visits, in order.\<close>

fun mmap_walk :: "nat \<Rightarrow> (u32 \<Rightarrow> multiboot_memory_map_t) \<Rightarrow> u32 \<Rightarrow> u32 \<Rightarrow>
    multiboot_memory_map_t list option" where
  "mmap_walk 0 mmap_at addr stop = (if addr < stop then None else Some [])"
| "mmap_walk (Suc fuel) mmap_at addr stop =
     (if addr < stop
      then map_option ((#) (mmap_at addr))
             (mmap_walk fuel mmap_at (addr + (mm_size (mmap_at addr) + 4)) stop)
      else Some [])"

definition add_available :: "multiboot_memory_map_t \<Rightarrow> 'a pmm_scheme \<Rightarrow> 'a pmm_scheme" where
  "add_available e s =
     (let s1 = (if region_count s < PMM_MAX_REGIONS
                then s\<lparr>regions := (regions s)(region_count s :=
                          \<lparr>reg_base = mm_addr e, reg_length = mm_len e, reg_type = mm_type e\<rparr>),
                       region_count := Suc (region_count s)\<rparr>
                else s)
      in if mm_type e \<noteq> MULTIBOOT_MEMORY_AVAILABLE then s1
         else let s2 = free_range (mm_addr e) (mm_addr e + mm_len e) s1
              in if mm_addr e + mm_len e > highest_ram s2
                 then s2\<lparr>highest_ram := mm_addr e + mm_len e\<rparr> else s2)"

definition add_reserved :: "multiboot_memory_map_t \<Rightarrow> 'a pmm_scheme \<Rightarrow> 'a pmm_scheme" where
  "add_reserved e s =
     (if mm_type e \<noteq> MULTIBOOT_MEMORY_AVAILABLE
      then reserve_range (mm_addr e) (mm_addr e + mm_len e) s else s)"

definition reserve_boot_data ::
    "u32 \<Rightarrow> u32 \<Rightarrow> u32 \<Rightarrow> multiboot_info_t \<Rightarrow> (nat \<Rightarrow> u32 \<times> u32) \<Rightarrow> 'a pmm_scheme \<Rightarrow> 'a pmm_scheme" where
  "reserve_boot_data kernel_start kernel_end mb_addr mb mod_at s =
     (let s1 = reserve_range 0 LOW_MEMORY_END s;
          s2 = reserve_range (ucast kernel_start) (ucast kernel_end) s1;
          s3 = reserve_range (ucast mb_addr) (ucast (mb_addr + 88)) s2;
          s4 = reserve_range (ucast (mmap_addr mb)) (ucast (mmap_addr mb + mmap_length mb)) s3
      in if mb_flags mb AND MULTIBOOT_INFO_MODS \<noteq> 0
         then fold (\<lambda>i. reserve_range (ucast (fst (mod_at i))) (ucast (snd (mod_at i))))
                [0..<unat (mods_count mb)]
                (reserve_range (ucast (mods_addr mb)) (ucast (mods_addr mb + mods_count mb * 16)) s4)
         else s4)"

definition count_used :: "'a pmm_scheme \<Rightarrow> u32" where
  "count_used s = fold (\<lambda>f n. if is_used f s then n + 1 else n) [0..<unat (total_frames s)] 0"

text \<open>\<open>pmm_init\<close>; \<^const>\<open>None\<close> is a memory map whose walk never ends.\<close>

definition pmm_init ::
    "u32 \<Rightarrow> u32 \<Rightarrow> u32 \<Rightarrow> multiboot_info_t \<Rightarrow> (u32 \<Rightarrow> multiboot_memory_map_t) \<Rightarrow> (nat \<Rightarrow> u32 \<times> u32) \<Rightarrow>
     nat \<Rightarrow> 'a pmm_scheme \<Rightarrow> 'a pmm_scheme option" where
  "pmm_init kernel_start kernel_end mb_addr mb mmap_at mod_at fuel s =
     (let s0 = s\<lparr>bitmap := (\<lambda>i. if i < unat PMM_MAX_FRAMES div 8 then 0xFF else bitmap s i)\<rparr>
      in if mb_flags mb AND MULTIBOOT_INFO_MEM_MAP = 0 then Some s0
         else case mmap_walk fuel mmap_at (mmap_addr mb) (mmap_addr mb + mmap_length mb) of
                None \<Rightarrow> None
              | Some es \<Rightarrow>
                  (let s1 = fold add_available es s0;
                       s2 = s1\<lparr>total_frames := to_frame (highest_ram s1)\<rparr>;
                       s3 = fold add_reserved es s2;
                       s4 = reserve_boot_data kernel_start kernel_end mb_addr mb mod_at s3
                   in Some (s4\<lparr>used_frames := count_used s4\<rparr>)))"

section \<open>Queries\<close>

definition pmm_get_max_blocks :: "'a pmm_scheme \<Rightarrow> u32" where
  "pmm_get_max_blocks s = total_frames s"

definition pmm_get_free_blocks :: "'a pmm_scheme \<Rightarrow> u32" where
  "pmm_get_free_blocks s = total_frames s - used_frames s"

definition pmm_is_used :: "u32 \<Rightarrow> 'a pmm_scheme \<Rightarrow> bool" where
  "pmm_is_used frame s \<longleftrightarrow> frame \<ge> total_frames s \<or> is_used (unat frame) s"

definition pmm_is_reserved :: "u32 \<Rightarrow> 'a pmm_scheme \<Rightarrow> bool" where
  "pmm_is_reserved frame s \<longleftrightarrow>
     list_ex (\<lambda>i. frame \<ge> fst (reserved s i) \<and> frame < snd (reserved s i)) [0..<reserved_count s]"

definition pmm_region :: "int \<Rightarrow> 'a pmm_scheme \<Rightarrow> pmm_region_t option" where
  "pmm_region index s =
     (if index \<ge> 0 \<and> index < int (region_count s) then Some (regions s (nat index)) else None)"

section \<open>Defence pmm_free_guard\<close>

definition refusal_reason :: "u32 \<Rightarrow> u32 \<Rightarrow> bool \<Rightarrow> bool \<Rightarrow> string option" where
  "refusal_reason addr ram_frames is_reserved used =
     (if addr mod PAGE_SIZE \<noteq> 0 then Some ''frame free refused: not frame-aligned''
      else if addr div PAGE_SIZE \<ge> ram_frames then Some ''frame free refused: not real RAM''
      else if is_reserved then Some ''frame free refused: reserved (kernel/firmware)''
      else if \<not> used then Some ''frame free refused: already free (double free)''
      else None)"

definition def_pmm_free_ok :: "u32 \<Rightarrow> 'a pmm_scheme \<Rightarrow> bool \<times> 'a pmm_scheme" where
  "def_pmm_free_ok addr s =
     (let frame = addr div PAGE_SIZE
      in case refusal_reason addr (pmm_get_max_blocks s) (pmm_is_reserved frame s) (pmm_is_used frame s) of
           None \<Rightarrow> (True, s)
         | Some reason \<Rightarrow> (False, audit_log ''pmm_free_guard'' reason s))"

section \<open>Allocate and free\<close>

text \<open>One pass of the outer loop: a byte with a clear bit is searched bit by bit.\<close>

definition alloc_in_byte :: "nat \<Rightarrow> 'a pmm_scheme \<Rightarrow> u32 \<times> 'a pmm_scheme" where
  "alloc_in_byte byte s =
     (case find (\<lambda>b. byte * 8 + b < unat (total_frames s) \<and> \<not> is_used (byte * 8 + b) s) [0..<8] of
        None \<Rightarrow> (0, s)
      | Some b \<Rightarrow>
          (of_nat (byte * 8 + b) * PAGE_SIZE,
           (mark_used (byte * 8 + b) s)\<lparr>used_frames := used_frames s + 1\<rparr>))"

fun alloc_loop :: "nat list \<Rightarrow> u32 \<Rightarrow> 'a pmm_scheme \<Rightarrow> u32 \<times> 'a pmm_scheme" where
  "alloc_loop [] result s = (result, s)"
| "alloc_loop (byte # bytes) result s =
     (if result \<noteq> 0 then (result, s)
      else if bitmap s byte = 0xFF then alloc_loop bytes result s
      else case alloc_in_byte byte s of (result', s') \<Rightarrow> alloc_loop bytes result' s')"

definition pmm_alloc_block :: "'a pmm_scheme \<Rightarrow> u32 \<times> 'a pmm_scheme" where
  "pmm_alloc_block s = alloc_loop [0..<unat ((total_frames s + 7) div 8)] 0 s"

definition pmm_free_block :: "u32 \<Rightarrow> 'a pmm_scheme \<Rightarrow> 'a pmm_scheme" where
  "pmm_free_block frame_address s =
     (case def_pmm_free_ok frame_address s of
        (ok, s1) \<Rightarrow>
          if ok then (mark_free (unat (frame_address div PAGE_SIZE)) s1)\<lparr>used_frames := used_frames s1 - 1\<rparr>
          else s1)"

section \<open>The bitmap is a set of frames\<close>

lemma is_used_bit: "is_used f s \<longleftrightarrow> bit (bitmap s (f div 8)) (f mod 8)"
  by (simp add: is_used_def bit_iff_and_push_bit_not_eq_0)

lemma same_bit: "f div 8 = g div 8 \<Longrightarrow> f mod 8 = g mod 8 \<Longrightarrow> f = (g::nat)"
  by (metis div_mult_mod_eq)

lemma is_used_mark_used [simp]: "is_used f (mark_used g s) \<longleftrightarrow> f = g \<or> is_used f s"
  by (auto simp: is_used_bit mark_used_def bit_simps dest: same_bit)

lemma is_used_mark_free [simp]: "is_used f (mark_free g s) \<longleftrightarrow> f \<noteq> g \<and> is_used f s"
  by (auto simp: is_used_bit mark_free_def bit_simps dest: same_bit)

lemma full_byte: "bitmap s byte = 0xFF \<Longrightarrow> b < 8 \<Longrightarrow> is_used (byte * 8 + b) s"
proof -
  assume "bitmap s byte = 0xFF" and "b < 8"
  moreover have "bit (0xFF :: u8) b" if "b < 8"
    using that by (simp add: bit_iff_odd numeral_eq_Suc less_Suc_eq) auto
  ultimately show ?thesis by (simp add: is_used_bit)
qed

lemma mark_fields [simp]:
  "total_frames (mark_used f s) = total_frames s" "total_frames (mark_free f s) = total_frames s"
  "used_frames (mark_used f s) = used_frames s" "used_frames (mark_free f s) = used_frames s"
  "reserved (mark_used f s) = reserved s" "reserved (mark_free f s) = reserved s"
  "reserved_count (mark_used f s) = reserved_count s" "reserved_count (mark_free f s) = reserved_count s"
  "highest_ram (mark_used f s) = highest_ram s" "highest_ram (mark_free f s) = highest_ram s"
  "pmm.more (mark_used f s) = pmm.more s" "pmm.more (mark_free f s) = pmm.more s"
  by (simp_all add: mark_used_def mark_free_def)

lemma is_used_upd [simp]:
  "is_used f (used_frames_update g s) = is_used f s"
  "is_used f (total_frames_update h s) = is_used f s"
  "is_used f (highest_ram_update k s) = is_used f s"
  "is_used f (regions_update l s) = is_used f s"
  "is_used f (region_count_update m s) = is_used f s"
  "is_used f (reserved_update n s) = is_used f s"
  "is_used f (reserved_count_update p s) = is_used f s"
  by (simp_all add: is_used_def)

lemma is_reserved_upd [simp]:
  "pmm_is_reserved f (mark_used g s) = pmm_is_reserved f s"
  "pmm_is_reserved f (mark_free g s) = pmm_is_reserved f s"
  "pmm_is_reserved f (used_frames_update h s) = pmm_is_reserved f s"
  by (simp_all add: pmm_is_reserved_def)

text \<open>The audit log is below the frame allocator: logging changes nothing here.\<close>

lemma audit_log_pmm [simp]:
  "bitmap (audit_log d t s) = bitmap s" "total_frames (audit_log d t s) = total_frames s"
  "used_frames (audit_log d t s) = used_frames s" "highest_ram (audit_log d t s) = highest_ram s"
  "reserved (audit_log d t s) = reserved s" "reserved_count (audit_log d t s) = reserved_count s"
  "regions (audit_log d t s) = regions s" "region_count (audit_log d t s) = region_count s"
  "pmm.more (audit_log d t s) = pmm.more s"
  "is_used f (audit_log d t s) = is_used f s" "pmm_is_reserved g (audit_log d t s) = pmm_is_reserved g s"
proof -
  have m: "audit.more (audit_log d t s) = audit.more s" by simp
  then show "bitmap (audit_log d t s) = bitmap s" "total_frames (audit_log d t s) = total_frames s"
  "used_frames (audit_log d t s) = used_frames s" "highest_ram (audit_log d t s) = highest_ram s"
  "reserved (audit_log d t s) = reserved s" "reserved_count (audit_log d t s) = reserved_count s"
  "regions (audit_log d t s) = regions s" "region_count (audit_log d t s) = region_count s"
  "pmm.more (audit_log d t s) = pmm.more s"
    by (cases s; cases "audit_log d t s"; simp)+
  then show "is_used f (audit_log d t s) = is_used f s"
    "pmm_is_reserved g (audit_log d t s) = pmm_is_reserved g s"
    by (simp_all add: is_used_def pmm_is_reserved_def)
qed

section \<open>Allocation finds the lowest free frame\<close>

lemma find_map_comp: "find P (map f xs) = map_option f (find (P \<circ> f) xs)"
  by (induction xs) auto

lemma find_append_case: "find P (xs @ ys) = (case find P xs of None \<Rightarrow> find P ys | Some x \<Rightarrow> Some x)"
  by (induction xs) auto

lemma upt_byte: "[k * 8..<k * 8 + 8] = map (\<lambda>b. k * 8 + b) [0..<(8::nat)]"
  by (simp add: map_add_upt add.commute)

definition free_at :: "'a pmm_scheme \<Rightarrow> nat \<Rightarrow> bool" where
  "free_at s f \<longleftrightarrow> f < unat (total_frames s) \<and> \<not> is_used f s"

definition take_frame :: "nat \<Rightarrow> 'a pmm_scheme \<Rightarrow> u32 \<times> 'a pmm_scheme" where
  "take_frame f s = (of_nat f * PAGE_SIZE, (mark_used f s)\<lparr>used_frames := used_frames s + 1\<rparr>)"

lemma alloc_in_byte_eq:
  "alloc_in_byte byte s =
     (case find (free_at s) [byte * 8..<byte * 8 + 8] of None \<Rightarrow> (0, s) | Some f \<Rightarrow> take_frame f s)"
  unfolding alloc_in_byte_def upt_byte find_map_comp
  by (simp add: free_at_def [abs_def] o_def take_frame_def split: option.split)

lemma frame_addr_nonzero:
  assumes "0 < f" and "f < 1048576"
  shows "(of_nat f * PAGE_SIZE :: u32) \<noteq> 0"
proof -
  have "unat (of_nat f * PAGE_SIZE :: u32) = f * 4096"
    using assms by (subst unat_mult_u32) (simp_all add: PAGE_SIZE_def unat_of_nat_u32)
  then show ?thesis using assms by auto
qed

lemma alloc_loop_done: "r \<noteq> 0 \<Longrightarrow> alloc_loop bytes r s = (r, s)"
  by (cases bytes) auto

lemma alloc_loop_find:
  assumes "unat (total_frames s) \<le> 1048576" and "is_used 0 s"
  shows "alloc_loop [k..<n] 0 s =
     (case find (free_at s) [k * 8..<n * 8] of None \<Rightarrow> (0, s) | Some f \<Rightarrow> take_frame f s)"
proof (induction "n - k" arbitrary: k)
  case 0
  then show ?case by simp
next
  case (Suc m)
  then have k: "k < n" by simp
  have IH: "alloc_loop [Suc k..<n] 0 s =
     (case find (free_at s) [Suc k * 8..<n * 8] of None \<Rightarrow> (0, s) | Some f \<Rightarrow> take_frame f s)"
    using Suc.hyps(2) by (intro Suc.hyps(1)) simp
  have split: "[k * 8..<n * 8] = [k * 8..<k * 8 + 8] @ [Suc k * 8..<n * 8]"
    using k upt_add_eq_append [of "k * 8" "k * 8 + 8" "n * 8 - (k * 8 + 8)"] by (simp add: add.commute)
  have cons: "[k..<n] = k # [Suc k..<n]" using k by (rule upt_conv_Cons)
  show ?case
  proof (cases "bitmap s k = 0xFF")
    case True
    have "find (free_at s) [k * 8..<k * 8 + 8] = None"
      unfolding upt_byte find_map_comp using full_byte [OF True]
      by (simp add: find_None_iff free_at_def)
    then show ?thesis using True IH unfolding cons split find_append_case by simp
  next
    case ff: False
    show ?thesis
    proof (cases "find (free_at s) [k * 8..<k * 8 + 8]")
      case None
      then show ?thesis using ff IH unfolding cons split find_append_case by (simp add: alloc_in_byte_eq)
    next
      case (Some f)
      then have "free_at s f" by (auto simp: find_Some_iff)
      then have "f < 1048576" "0 < f" using assms by (auto simp: free_at_def intro: gr0I)
      then have "(of_nat f * PAGE_SIZE :: u32) \<noteq> 0" by (intro frame_addr_nonzero)
      then show ?thesis using ff Some unfolding cons split find_append_case
        by (simp add: alloc_in_byte_eq take_frame_def alloc_loop_done)
    qed
  qed
qed

section \<open>The invariant\<close>

definition pmm_inv :: "'a pmm_scheme \<Rightarrow> bool" where
  "pmm_inv s \<longleftrightarrow>
     unat (total_frames s) \<le> 1048576 \<and> pmm_is_reserved 0 s \<and>
     unat (used_frames s) = card {f. f < unat (total_frames s) \<and> is_used f s} \<and>
     (\<forall>f. pmm_is_reserved f s \<longrightarrow> is_used (unat f) s)"

lemma byte_count:
  assumes "unat (t :: u32) \<le> 1048576"
  shows "unat ((t + 7) div 8) = (unat t + 7) div 8"
proof -
  have "unat (t + 7) = unat t + 7"
    using assms by (subst unat_add_u32) simp_all
  then show ?thesis by (simp add: unat_div)
qed

lemma pmm_alloc_block_eq:
  assumes "pmm_inv s"
  shows "pmm_alloc_block s =
     (case find (\<lambda>f. \<not> is_used f s) [0..<unat (total_frames s)] of
        None \<Rightarrow> (0, s) | Some f \<Rightarrow> take_frame f s)"
proof -
  let ?T = "unat (total_frames s)"
  let ?M = "(?T + 7) div 8 * 8"
  have inv: "?T \<le> 1048576" "is_used 0 s" using assms by (auto simp: pmm_inv_def)
  have "?T \<le> ?M" by presburger
  then have "[0..<?M] = [0..<?T] @ [?T..<?M]"
    using upt_add_eq_append [of 0 ?T "?M - ?T"] by simp
  moreover have "find (free_at s) [?T..<?M] = None"
    by (simp add: find_None_iff free_at_def)
  moreover have "find (free_at s) [0..<?T] = find (\<lambda>f. \<not> is_used f s) [0..<?T]"
    by (rule find_cong) (auto simp: free_at_def)
  ultimately have "find (free_at s) [0..<?M] = find (\<lambda>f. \<not> is_used f s) [0..<?T]"
    by (simp add: find_append_case split: option.split)
  then show ?thesis
    using alloc_loop_find [OF inv, of 0] by (simp add: pmm_alloc_block_def byte_count [OF inv(1)])
qed

lemma take_frame_inv:
  assumes "pmm_inv s" and "f < unat (total_frames s)" and "\<not> is_used f s"
  shows "pmm_inv (snd (take_frame f s))"
proof -
  let ?U = "{i. i < unat (total_frames s) \<and> is_used i s}"
  have "card ?U < 1048576"
  proof -
    have "?U \<subset> {..<unat (total_frames s)}" using assms by auto
    then have "card ?U < unat (total_frames s)"
      using psubset_card_mono [of "{..<unat (total_frames s)}" ?U] by simp
    then show ?thesis using assms(1) by (simp add: pmm_inv_def)
  qed
  then have "unat (used_frames s + 1) = Suc (unat (used_frames s))"
    using assms(1) by (subst unat_add_u32) (auto simp: pmm_inv_def)
  moreover have "card {i. i < unat (total_frames s) \<and> (i = f \<or> is_used i s)} = Suc (card ?U)"
    using assms by (intro card_Collect_less_insert)
  ultimately show ?thesis
    using assms(1) by (simp add: take_frame_def pmm_inv_def)
qed

lemma pmm_alloc_cases:
  assumes "pmm_inv s"
  obtains (full) "pmm_alloc_block s = (0, s)" and "\<forall>f < unat (total_frames s). is_used f s"
  | (frame) f where "pmm_alloc_block s = take_frame f s" and "f < unat (total_frames s)"
      and "\<not> is_used f s" and "\<forall>g < f. is_used g s" and "0 < f" and "f < 1048576"
proof (cases "find (\<lambda>f. \<not> is_used f s) [0..<unat (total_frames s)]")
  case None
  with assms full show thesis by (simp add: pmm_alloc_block_eq find_None_iff)
next
  case (Some f)
  note l = find_Some_nth_least [OF Some]
  moreover have "is_used 0 s" using assms by (auto simp: pmm_inv_def)
  then have "0 < f" using l(2) by (auto intro!: gr0I)
  moreover have "f < 1048576" using l(1) assms by (simp add: pmm_inv_def)
  ultimately show thesis using assms frame Some by (simp add: pmm_alloc_block_eq)
qed

lemma pmm_alloc_inv [kinv]: "pmm_inv s \<Longrightarrow> pmm_inv (snd (pmm_alloc_block s))"
proof -
  assume inv: "pmm_inv s"
  then show ?thesis by (cases rule: pmm_alloc_cases) (simp_all add: inv take_frame_inv)
qed

text \<open>What a free does: the guard's rule, or one entry in the audit log and nothing else.\<close>

definition free_ok :: "u32 \<Rightarrow> 'a pmm_scheme \<Rightarrow> bool" where
  "free_ok addr s \<longleftrightarrow>
     addr mod PAGE_SIZE = 0 \<and> addr div PAGE_SIZE < total_frames s \<and>
     \<not> pmm_is_reserved (addr div PAGE_SIZE) s \<and> is_used (unat (addr div PAGE_SIZE)) s"

lemma pmm_free_block_ok:
  "free_ok addr s \<Longrightarrow> pmm_free_block addr s =
     (mark_free (unat (addr div PAGE_SIZE)) s)\<lparr>used_frames := used_frames s - 1\<rparr>"
  by (auto simp: pmm_free_block_def def_pmm_free_ok_def refusal_reason_def free_ok_def Let_def
      pmm_get_max_blocks_def pmm_is_used_def)

lemma pmm_free_block_refused:
  assumes "\<not> free_ok addr s"
  obtains reason where "pmm_free_block addr s = audit_log ''pmm_free_guard'' reason s"
proof -
  let ?r = "refusal_reason addr (pmm_get_max_blocks s) (pmm_is_reserved (addr div PAGE_SIZE) s)
      (pmm_is_used (addr div PAGE_SIZE) s)"
  have "?r \<noteq> None"
    using assms
    by (simp add: refusal_reason_def free_ok_def pmm_get_max_blocks_def pmm_is_used_def not_less [symmetric])
       blast
  then obtain reason where "?r = Some reason" by blast
  then have "pmm_free_block addr s = audit_log ''pmm_free_guard'' reason s"
    by (simp add: pmm_free_block_def def_pmm_free_ok_def Let_def)
  then show thesis by (rule that)
qed

lemma audit_log_inv: "pmm_inv (audit_log d t s) = pmm_inv s"
  by (simp add: pmm_inv_def)

lemma pmm_free_inv [kinv]:
  assumes "pmm_inv s"
  shows "pmm_inv (pmm_free_block addr s)"
proof (cases "free_ok addr s")
  case True
  let ?f = "unat (addr div PAGE_SIZE)"
  have f: "?f < unat (total_frames s)" "is_used ?f s" "\<not> pmm_is_reserved (addr div PAGE_SIZE) s"
    using True by (auto simp: free_ok_def word_less_nat_alt)
  have card: "Suc (card {i. i < unat (total_frames s) \<and> i \<noteq> ?f \<and> is_used i s}) =
      card {i. i < unat (total_frames s) \<and> is_used i s}"
    using f by (intro card_Collect_less_remove)
  then have "1 \<le> used_frames s"
    using assms by (simp add: pmm_inv_def word_le_nat_alt)
  then have "unat (used_frames s - 1) = unat (used_frames s) - 1"
    by (simp add: unat_sub)
  moreover have "unat g \<noteq> ?f" if "pmm_is_reserved g s" for g
    using that f(3) by (metis word_unat_eq_iff)
  ultimately show ?thesis
    using assms card True by (auto simp: pmm_free_block_ok pmm_inv_def)
next
  case False
  then obtain reason where "pmm_free_block addr s = audit_log ''pmm_free_guard'' reason s"
    by (rule pmm_free_block_refused)
  then show ?thesis using assms by (simp add: audit_log_inv)
qed

section \<open>The allocator's interface\<close>

text \<open>The addresses of the frames in use, and of those that may never be freed.\<close>

definition frames_used :: "'a pmm_scheme \<Rightarrow> u32 set" where
  "frames_used s = {a. a mod PAGE_SIZE = 0 \<and> is_used (unat (a div PAGE_SIZE)) s}"

definition frames_ram :: "'a pmm_scheme \<Rightarrow> u32 set" where
  "frames_ram s = {a. a mod PAGE_SIZE = 0 \<and> a div PAGE_SIZE < total_frames s}"

definition frames_pinned :: "'a pmm_scheme \<Rightarrow> u32 set" where
  "frames_pinned s = {a. a mod PAGE_SIZE = 0 \<and> pmm_is_reserved (a div PAGE_SIZE) s}"

text \<open>What the layers above rely on: a successful allocation hands out a frame of RAM nobody has,
  a free gives back exactly the frame named if it may be given back, and nothing else changes
  hands.\<close>

locale frame_allocator =
  fixes alloc :: "'s \<Rightarrow> u32 \<times> 's"
    and release :: "u32 \<Rightarrow> 's \<Rightarrow> 's"
    and used :: "'s \<Rightarrow> u32 set"
    and ram :: "'s \<Rightarrow> u32 set"
    and pinned :: "'s \<Rightarrow> u32 set"
    and inv :: "'s \<Rightarrow> bool"
  assumes inv_alloc: "inv s \<Longrightarrow> inv (snd (alloc s))"
    and inv_release: "inv s \<Longrightarrow> inv (release a s)"
    and alloc_frame: "inv s \<Longrightarrow> alloc s = (a, s') \<Longrightarrow> a \<noteq> 0 \<Longrightarrow>
        a \<in> ram s \<and> a \<notin> used s \<and> used s' = insert a (used s)"
    and alloc_full: "inv s \<Longrightarrow> alloc s = (0, s') \<Longrightarrow> s' = s \<and> ram s \<subseteq> used s"
    and release_ok: "inv s \<Longrightarrow> a \<in> ram s \<Longrightarrow> a \<in> used s \<Longrightarrow> a \<notin> pinned s \<Longrightarrow>
        used (release a s) = used s - {a}"
    and release_refused: "inv s \<Longrightarrow> \<not> (a \<in> ram s \<and> a \<in> used s \<and> a \<notin> pinned s) \<Longrightarrow>
        used (release a s) = used s"
    and alloc_const: "inv s \<Longrightarrow> ram (snd (alloc s)) = ram s \<and> pinned (snd (alloc s)) = pinned s"
    and release_const: "inv s \<Longrightarrow> ram (release a s) = ram s \<and> pinned (release a s) = pinned s"
    and pinned_used: "inv s \<Longrightarrow> pinned s \<subseteq> used s"
begin

lemma alloc_not_pinned: "inv s \<Longrightarrow> alloc s = (a, s') \<Longrightarrow> a \<noteq> 0 \<Longrightarrow> a \<notin> pinned s"
  using alloc_frame pinned_used by blast

text \<open>Taking a frame and giving it back leaves the frames in use as they were.\<close>

lemma alloc_release:
  assumes "inv s" and "alloc s = (a, s')" and "a \<noteq> 0"
  shows "used (release a s') = used s"
proof -
  have "inv s'" using inv_alloc [OF assms(1)] assms(2) by simp
  moreover have "a \<in> ram s'" "a \<in> used s'" "a \<notin> pinned s'"
    using alloc_frame [OF assms] alloc_const [OF assms(1)] alloc_not_pinned [OF assms] assms(2) by auto
  ultimately show ?thesis
    using release_ok alloc_frame [OF assms] by auto
qed

text \<open>Any number of allocations in a row, from the first that fails on with no effect.\<close>

primrec alloc_many :: "nat \<Rightarrow> 's \<Rightarrow> u32 list \<times> 's" where
  "alloc_many 0 s = ([], s)"
| "alloc_many (Suc n) s =
     (let (a, s1) = alloc s in
      if a = 0 then ([], s1) else let (as, s2) = alloc_many n s1 in (a # as, s2))"

lemma alloc_many_distinct:
  "inv s \<Longrightarrow> alloc_many n s = (as, s') \<Longrightarrow>
     distinct as \<and> set as \<inter> used s = {} \<and> used s' = set as \<union> used s \<and> 0 \<notin> set as \<and> inv s'"
proof (induction n arbitrary: s as s')
  case 0
  then show ?case by simp
next
  case (Suc n)
  obtain a s1 where a: "alloc s = (a, s1)" by fastforce
  have inv1: "inv s1" using inv_alloc [OF Suc.prems(1)] a by simp
  show ?case
  proof (cases "a = 0")
    case True
    with a Suc.prems inv1 alloc_full show ?thesis by auto
  next
    case False
    obtain bs s2 where b: "alloc_many n s1 = (bs, s2)" by fastforce
    with Suc.IH [OF inv1 b] alloc_frame [OF Suc.prems(1) a False] a False Suc.prems(2)
    show ?thesis by auto
  qed
qed

end

lemma frame_addr_unat:
  assumes "f < 1048576"
  shows "unat (of_nat f * PAGE_SIZE :: u32) = f * 4096"
    and "(of_nat f * PAGE_SIZE :: u32) mod PAGE_SIZE = 0"
    and "(of_nat f * PAGE_SIZE :: u32) div PAGE_SIZE = of_nat f"
proof -
  show u: "unat (of_nat f * PAGE_SIZE :: u32) = f * 4096"
    using assms by (subst unat_mult_u32) (simp_all add: PAGE_SIZE_def unat_of_nat_u32)
  show "(of_nat f * PAGE_SIZE :: u32) mod PAGE_SIZE = 0"
    by (rule word_unat_eq_iff [THEN iffD2]) (simp add: unat_mod u, simp add: PAGE_SIZE_def)
  have "unat ((of_nat f * PAGE_SIZE :: u32) div PAGE_SIZE) = unat (of_nat f :: u32)"
    using assms by (simp add: unat_div u unat_of_nat_u32, simp add: PAGE_SIZE_def)
  then show "(of_nat f * PAGE_SIZE :: u32) div PAGE_SIZE = of_nat f"
    by (rule word_unat_eq_iff [THEN iffD2])
qed

lemma aligned_addr_eq:
  fixes a b :: u32
  assumes "a mod PAGE_SIZE = 0" and "b mod PAGE_SIZE = 0"
  shows "a div PAGE_SIZE = b div PAGE_SIZE \<longleftrightarrow> a = b"
  using assms by (metis add.right_neutral word_mod_div_equality)

lemma frames_used_audit [simp]: "frames_used (audit_log d t s) = frames_used s"
  "frames_ram (audit_log d t s) = frames_ram s" "frames_pinned (audit_log d t s) = frames_pinned s"
  by (simp_all add: frames_used_def frames_ram_def frames_pinned_def)

lemma take_frame_sets:
  assumes "f < 1048576"
  shows "frames_used (snd (take_frame f s)) = insert (of_nat f * PAGE_SIZE) (frames_used s)"
    and "frames_ram (snd (take_frame f s)) = frames_ram s"
    and "frames_pinned (snd (take_frame f s)) = frames_pinned s"
proof -
  note fa = frame_addr_unat [OF assms]
  have "unat (a div PAGE_SIZE) = f \<longleftrightarrow> a = of_nat f * PAGE_SIZE" if "a mod PAGE_SIZE = 0" for a :: u32
  proof -
    have "unat (a div PAGE_SIZE) = f \<longleftrightarrow> a div PAGE_SIZE = of_nat f"
      using assms by (simp add: unat_eq_iff_of_nat)
    then show ?thesis using aligned_addr_eq [OF that fa(2)] fa(3) by simp
  qed
  then show "frames_used (snd (take_frame f s)) = insert (of_nat f * PAGE_SIZE) (frames_used s)"
    using fa(2) by (auto simp: frames_used_def take_frame_def)
  show "frames_ram (snd (take_frame f s)) = frames_ram s"
    "frames_pinned (snd (take_frame f s)) = frames_pinned s"
    by (simp_all add: frames_ram_def frames_pinned_def take_frame_def)
qed

lemma free_ok_sets: "a \<in> frames_ram s \<Longrightarrow> free_ok a s \<longleftrightarrow> a \<in> frames_used s \<and> a \<notin> frames_pinned s"
  by (auto simp: free_ok_def frames_ram_def frames_used_def frames_pinned_def)

lemma free_ok_ram: "free_ok a s \<Longrightarrow> a \<in> frames_ram s"
  by (auto simp: free_ok_def frames_ram_def)

lemma pmm_free_sets:
  "frames_used (pmm_free_block a s) = (if free_ok a s then frames_used s - {a} else frames_used s)"
  "frames_ram (pmm_free_block a s) = frames_ram s"
  "frames_pinned (pmm_free_block a s) = frames_pinned s"
proof -
  have "frames_used (pmm_free_block a s) = (if free_ok a s then frames_used s - {a} else frames_used s) \<and>
    frames_ram (pmm_free_block a s) = frames_ram s \<and> frames_pinned (pmm_free_block a s) = frames_pinned s"
  proof (cases "free_ok a s")
    case True
    then have al: "a mod PAGE_SIZE = 0" by (simp add: free_ok_def)
    have "unat (b div PAGE_SIZE) \<noteq> unat (a div PAGE_SIZE) \<longleftrightarrow> b \<noteq> a" if "b mod PAGE_SIZE = 0" for b
      using aligned_addr_eq [OF that al] by (simp add: word_unat_eq_iff)
    then show ?thesis using True
      by (auto simp: pmm_free_block_ok frames_used_def frames_ram_def frames_pinned_def)
  next
    case False
    then obtain r where "pmm_free_block a s = audit_log ''pmm_free_guard'' r s"
      by (rule pmm_free_block_refused)
    then show ?thesis using False by simp
  qed
  then show "frames_used (pmm_free_block a s) = (if free_ok a s then frames_used s - {a} else frames_used s)"
    "frames_ram (pmm_free_block a s) = frames_ram s" "frames_pinned (pmm_free_block a s) = frames_pinned s"
    by blast+
qed

lemma pmm_alloc_sets:
  assumes "pmm_inv s" and "pmm_alloc_block s = (a, s')"
  shows "frames_ram s' = frames_ram s" and "frames_pinned s' = frames_pinned s"
    and "a \<noteq> 0 \<Longrightarrow> a \<in> frames_ram s \<and> a \<notin> frames_used s \<and> frames_used s' = insert a (frames_used s)"
    and "a = 0 \<Longrightarrow> s' = s \<and> frames_ram s \<subseteq> frames_used s"
proof -
  have "frames_ram s' = frames_ram s \<and> frames_pinned s' = frames_pinned s \<and>
    (a \<noteq> 0 \<longrightarrow> a \<in> frames_ram s \<and> a \<notin> frames_used s \<and> frames_used s' = insert a (frames_used s)) \<and>
    (a = 0 \<longrightarrow> s' = s \<and> frames_ram s \<subseteq> frames_used s)"
    using assms(1)
  proof (cases rule: pmm_alloc_cases)
    case full
    with assms show ?thesis
      by (auto simp: frames_ram_def frames_used_def word_less_nat_alt)
  next
    case (frame f)
    then have a: "a = of_nat f * PAGE_SIZE" "s' = snd (take_frame f s)"
      using assms(2) by (simp_all add: take_frame_def)
    have u: "unat (of_nat f :: u32) = f" using frame by (simp add: unat_of_nat_u32)
    then have "(of_nat f :: u32) < total_frames s" using frame by (simp add: word_less_nat_alt)
    then have "a \<in> frames_ram s"
      using frame_addr_unat(2,3) [OF frame(6)] by (simp add: a frames_ram_def)
    moreover have "a \<notin> frames_used s"
      using frame(3) u frame_addr_unat(2,3) [OF frame(6)] by (simp add: a frames_used_def)
    moreover have "a \<noteq> 0" unfolding a using frame(5,6) by (rule frame_addr_nonzero)
    ultimately show ?thesis using frame a by (simp add: take_frame_sets)
  qed
  then show "frames_ram s' = frames_ram s" "frames_pinned s' = frames_pinned s"
    "a \<noteq> 0 \<Longrightarrow> a \<in> frames_ram s \<and> a \<notin> frames_used s \<and> frames_used s' = insert a (frames_used s)"
    "a = 0 \<Longrightarrow> s' = s \<and> frames_ram s \<subseteq> frames_used s"
    by blast+
qed

lemma pinned_subset_used: "pmm_inv s \<Longrightarrow> frames_pinned s \<subseteq> frames_used s"
  by (auto simp: pmm_inv_def frames_pinned_def frames_used_def)

interpretation pmm: frame_allocator pmm_alloc_block pmm_free_block frames_used frames_ram frames_pinned pmm_inv
proof unfold_locales
  fix s :: "'a pmm_scheme" and a s'
  assume inv: "pmm_inv s"
  show "pmm_inv (snd (pmm_alloc_block s))" "pmm_inv (pmm_free_block a s)"
    using inv by (rule pmm_alloc_inv, rule pmm_free_inv)
  show "frames_pinned s \<subseteq> frames_used s" using inv by (rule pinned_subset_used)
  show "frames_ram (snd (pmm_alloc_block s)) = frames_ram s \<and>
      frames_pinned (snd (pmm_alloc_block s)) = frames_pinned s"
    using pmm_alloc_sets(1,2) [OF inv] by (metis prod.collapse)
  show "frames_ram (pmm_free_block a s) = frames_ram s \<and> frames_pinned (pmm_free_block a s) = frames_pinned s"
    by (simp add: pmm_free_sets)
  show "frames_used (pmm_free_block a s) = frames_used s - {a}"
    if "a \<in> frames_ram s" "a \<in> frames_used s" "a \<notin> frames_pinned s"
    using that by (simp add: pmm_free_sets free_ok_sets)
  show "frames_used (pmm_free_block a s) = frames_used s"
    if "\<not> (a \<in> frames_ram s \<and> a \<in> frames_used s \<and> a \<notin> frames_pinned s)"
    using that free_ok_sets free_ok_ram by (auto simp: pmm_free_sets)
  show "a \<in> frames_ram s \<and> a \<notin> frames_used s \<and> frames_used s' = insert a (frames_used s)"
    if "pmm_alloc_block s = (a, s')" "a \<noteq> 0"
    using pmm_alloc_sets(3) [OF inv that] .
  show "s' = s \<and> frames_ram s \<subseteq> frames_used s" if "pmm_alloc_block s = (0, s')"
    using pmm_alloc_sets(4) [OF inv that] by simp
qed

section \<open>Setup establishes the invariant\<close>

lemma fold_mark_used:
  "is_used f (fold mark_used fs s) \<longleftrightarrow> f \<in> set fs \<or> is_used f s"
  by (induction fs arbitrary: s) auto

lemma fold_mark_fields [simp]:
  "total_frames (fold mark_used fs s) = total_frames s"
  "reserved (fold mark_used fs s) = reserved s"
  "reserved_count (fold mark_used fs s) = reserved_count s"
  "reserved_count (fold mark_free fs s) = reserved_count s"
  by (induction fs arbitrary: s) auto

text \<open>Frames that may never be freed are in use.\<close>

definition reserved_used :: "'a pmm_scheme \<Rightarrow> bool" where
  "reserved_used s \<longleftrightarrow> (\<forall>f. pmm_is_reserved f s \<longrightarrow> is_used (unat f) s)"

lemma pmm_is_reserved_iff:
  "pmm_is_reserved f s \<longleftrightarrow> (\<exists>i < reserved_count s. fst (reserved s i) \<le> f \<and> f < snd (reserved s i))"
  by (auto simp: pmm_is_reserved_def list_ex_iff)

lemma ex_push:
  fixes r :: "nat \<Rightarrow> u32 \<times> u32"
  shows "(\<exists>i < Suc n. fst ((r(n := x)) i) \<le> f \<and> f < snd ((r(n := x)) i)) \<longleftrightarrow>
     (\<exists>i < n. fst (r i) \<le> f \<and> f < snd (r i)) \<or> (fst x \<le> f \<and> f < snd x)"
  unfolding Ex_less_Suc by (metis fun_upd_apply less_irrefl)

lemma pmm_is_reserved_fold [simp]: "pmm_is_reserved f (fold mark_used fs s) = pmm_is_reserved f s"
  by (simp add: pmm_is_reserved_def)

lemma reserve_range_unfold:
  fixes s :: "'a pmm_scheme"
  assumes "start < stop"
  defines "s1 \<equiv> fold mark_used [unat (to_frame start)..<unat (to_frame (stop + ucast PAGE_SIZE - 1))] s"
  shows "reserve_range start stop s =
     (if reserved_count s < MAX_RESERVED
      then s1\<lparr>reserved := (reserved s1)(reserved_count s1 := (to_frame start, to_frame (stop + ucast PAGE_SIZE - 1))),
              reserved_count := Suc (reserved_count s1)\<rparr> else s1)"
  using assms by (simp add: reserve_range_def Let_def not_le)

lemma reserve_range_empty: "\<not> start < stop \<Longrightarrow> reserve_range start stop s = s"
  by (simp add: reserve_range_def not_less)

lemma reserve_range_reserved:
  assumes "start < stop" and "reserved_count s < MAX_RESERVED"
  shows "pmm_is_reserved f (reserve_range start stop s) \<longleftrightarrow>
     pmm_is_reserved f s \<or> (to_frame start \<le> f \<and> f < to_frame (stop + ucast PAGE_SIZE - 1))"
  using assms(2) 
  by (simp add: reserve_range_unfold [OF assms(1)] pmm_is_reserved_iff ex_push del: fun_upd_apply)

lemma reserve_range_full:
  assumes "reserved_count s = MAX_RESERVED"
  shows "pmm_is_reserved f (reserve_range start stop s) = pmm_is_reserved f s"
  using assms by (auto simp: reserve_range_def pmm_is_reserved_iff Let_def)

lemma reserve_range_used:
  "is_used f (reserve_range start stop s) \<longleftrightarrow>
     is_used f s \<or> (start < stop \<and> unat (to_frame start) \<le> f \<and> f < unat (to_frame (stop + ucast PAGE_SIZE - 1)))"
  by (auto simp: reserve_range_def Let_def fold_mark_used)

lemma reserve_range_count:
  "reserved_count s \<le> reserved_count (reserve_range start stop s)"
  "reserved_count (reserve_range start stop s) \<le> Suc (reserved_count s)"
  "reserved_count s \<le> MAX_RESERVED \<Longrightarrow> reserved_count (reserve_range start stop s) \<le> MAX_RESERVED"
  by (auto simp: reserve_range_def Let_def)

lemma reserve_range_keeps: "pmm_is_reserved f s \<Longrightarrow> pmm_is_reserved f (reserve_range start stop s)"
proof (cases "start < stop")
  case True
  assume "pmm_is_reserved f s"
  then show ?thesis
    by (auto simp add: reserve_range_unfold [OF True] pmm_is_reserved_iff ex_push simp del: fun_upd_apply)
next
  case False
  then show "pmm_is_reserved f s \<Longrightarrow> ?thesis" by (simp add: reserve_range_empty)
qed

lemma reserve_range_total [simp]: "total_frames (reserve_range start stop s) = total_frames s"
  by (simp add: reserve_range_def Let_def)

lemma reserve_range_reserved_used:
  assumes "reserved_used s" and "reserved_count s \<le> MAX_RESERVED"
  shows "reserved_used (reserve_range start stop s)"
proof (cases "reserved_count s = MAX_RESERVED")
  case True
  with assms show ?thesis by (auto simp: reserved_used_def reserve_range_full reserve_range_used)
next
  case lt: False
  show ?thesis
  proof (cases "start < stop")
    case True
    with lt assms show ?thesis
      by (auto simp: reserved_used_def reserve_range_reserved reserve_range_used word_less_nat_alt word_le_nat_alt)
  next
    case False
    then show ?thesis using assms by (simp add: reserve_range_empty)
  qed
qed

text \<open>Both passes over the memory map and the boot data: what they keep.\<close>

lemma add_available_count [simp]: "reserved_count (add_available e s) = reserved_count s"
  by (simp add: add_available_def Let_def free_range_def)

definition boot_ok :: "nat \<Rightarrow> 'a pmm_scheme \<Rightarrow> bool" where
  "boot_ok n s \<longleftrightarrow> reserved_used s \<and> reserved_count s \<le> n \<and> reserved_count s \<le> MAX_RESERVED"

lemma boot_ok_reserve:
  "boot_ok n s \<Longrightarrow> boot_ok (Suc n) (reserve_range start stop s)"
  using reserve_range_count [where s = s and start = start and stop = stop]
  by (auto simp: boot_ok_def intro: reserve_range_reserved_used)

lemma boot_ok_mono: "boot_ok n s \<Longrightarrow> n \<le> m \<Longrightarrow> boot_ok m s"
  by (simp add: boot_ok_def)

lemma boot_ok_fold_reserved:
  "boot_ok n s \<Longrightarrow>
   boot_ok (n + length (filter (\<lambda>e. mm_type e \<noteq> MULTIBOOT_MEMORY_AVAILABLE) es)) (fold add_reserved es s)"
proof (induction es arbitrary: n s)
  case (Cons e es)
  show ?case
  proof (cases "mm_type e \<noteq> MULTIBOOT_MEMORY_AVAILABLE")
    case True
    with Cons.IH [OF boot_ok_reserve [OF Cons.prems]] show ?thesis by (simp add: add_reserved_def)
  next
    case False
    with Cons show ?thesis by (simp add: add_reserved_def)
  qed
qed simp

lemma fold_reserve_keeps:
  "pmm_is_reserved f s \<Longrightarrow> pmm_is_reserved f (fold (\<lambda>i. reserve_range (a i) (b i)) is s)"
  by (induction "is" arbitrary: s) (auto intro: reserve_range_keeps)

lemma fold_reserve_boot_ok:
  "reserved_used s \<Longrightarrow> reserved_count s \<le> MAX_RESERVED \<Longrightarrow>
   reserved_used (fold (\<lambda>i. reserve_range (a i) (b i)) is s)"
  by (induction "is" arbitrary: s) (auto intro: reserve_range_reserved_used reserve_range_count)

lemma fold_reserve_total [simp]:
  "total_frames (fold (\<lambda>i. reserve_range (a i) (b i)) is s) = total_frames s"
  by (induction "is" arbitrary: s) auto

lemma fold_add_reserved_total [simp]: "total_frames (fold add_reserved es s) = total_frames s"
  by (induction es arbitrary: s) (auto simp: add_reserved_def)

lemma unat_to_frame: "unat (to_frame x) = min (unat x div 4096) 1048576"
proof -
  have "x div 4096 < 1048576 \<longleftrightarrow> unat x div 4096 < 1048576"
    by (simp add: word_less_nat_alt unat_div)
  moreover have "unat (ucast (x div 4096) :: u32) = unat x div 4096" if "unat x div 4096 < 1048576"
    using that by (simp add: unat_ucast_u32 unat_div)
  ultimately show ?thesis by (simp add: to_frame_def Let_def pmm_consts)
qed

lemma unat_round_up: "unat (4095 + ucast (a :: u32) :: u64) = unat a + 4095"
  using less_trans [OF unat_less_p32 [of a]] by (subst unat_add_lem [THEN iffD1]) simp_all

text \<open>A page of a non-empty range of addresses lies in the frames the range is rounded to.\<close>

lemma to_frame_covers:
  assumes "start \<le> (a :: u32)" and "a < stop"
  shows "to_frame (ucast start) \<le> a div PAGE_SIZE"
    and "a div PAGE_SIZE < to_frame (ucast stop + ucast PAGE_SIZE - 1)"
proof -
  have "unat start div 4096 \<le> unat a div 4096" "unat a div 4096 < (unat stop + 4095) div 4096"
    using assms by (auto simp: word_le_nat_alt word_less_nat_alt div_le_mono)
  moreover have "unat a div 4096 < 1048576" using unat_less_p32 [of a] by (simp add: div_less_iff_less_mult)
  ultimately show "to_frame (ucast start) \<le> a div PAGE_SIZE"
    "a div PAGE_SIZE < to_frame (ucast stop + ucast PAGE_SIZE - 1)"
    by (auto simp: word_le_nat_alt word_less_nat_alt unat_to_frame unat_div PAGE_SIZE_def unat_round_up)
qed

lemma reserve_range_covers:
  assumes "reserved_count s < MAX_RESERVED" and "start \<le> a" and "a < stop"
  shows "pmm_is_reserved (a div PAGE_SIZE) (reserve_range (ucast start) (ucast stop) s)"
proof -
  have "ucast start < (ucast stop :: u64)"
    using assms(2,3) by (simp add: word_less_nat_alt word_le_nat_alt)
  then show ?thesis using to_frame_covers [OF assms(2,3)] assms(1) by (simp add: reserve_range_reserved)
qed

lemma count_used_card:
  assumes "unat (total_frames s) \<le> 1048576"
  shows "unat (count_used s) = card {f. f < unat (total_frames s) \<and> is_used f s}"
proof -
  have "fold (\<lambda>f n. if P f then n + 1 else n) [0..<T] (0 :: u32) = of_nat (card {f. f < T \<and> P f})" for P T
  proof (induction T)
    case (Suc T)
    have "{f. f < Suc T \<and> P f} = (if P T then insert T {f. f < T \<and> P f} else {f. f < T \<and> P f})"
      by (auto simp: less_Suc_eq)
    moreover have "finite {f. f < T \<and> P f}" by (rule finite_subset [of _ "{..<T}"]) auto
    ultimately show ?case using Suc.IH by simp
  qed simp
  moreover have "card {f. f < unat (total_frames s) \<and> is_used f s} \<le> unat (total_frames s)"
    using card_mono [of "{..<unat (total_frames s)}" "{f. f < unat (total_frames s) \<and> is_used f s}"] by auto
  ultimately show ?thesis using assms by (simp add: count_used_def unat_of_nat_u32)
qed

lemma reserve_boot_data_ok:
  fixes s :: "'a pmm_scheme" and ks ke mb_addr mb mod_at
  assumes "boot_ok n s" and "n + 2 \<le> MAX_RESERVED"
  defines "s' \<equiv> reserve_boot_data ks ke mb_addr mb mod_at s"
  shows "reserved_used s'" and "total_frames s' = total_frames s"
    and "a < 0x100000 \<Longrightarrow> pmm_is_reserved (a div PAGE_SIZE) s'"
    and "ks \<le> a \<Longrightarrow> a < ke \<Longrightarrow> pmm_is_reserved (a div PAGE_SIZE) s'"
proof -
  define s1 where "s1 = reserve_range 0 LOW_MEMORY_END s"
  define s2 where "s2 = reserve_range (ucast ks) (ucast ke) s1"
  have b1: "boot_ok (Suc n) s1" unfolding s1_def by (rule boot_ok_reserve [OF assms(1)])
  have b2: "boot_ok (Suc (Suc n)) s2" unfolding s2_def by (rule boot_ok_reserve [OF b1])
  note simps = s'_def reserve_boot_data_def Let_def s1_def [symmetric] s2_def [symmetric]
  have keep: "pmm_is_reserved f s2 \<Longrightarrow> pmm_is_reserved f s'" for f
    by (simp add: simps fold_reserve_keeps reserve_range_keeps)
  show "reserved_used s'"
    using b2 unfolding simps
    by (simp add: boot_ok_def fold_reserve_boot_ok reserve_range_reserved_used reserve_range_count)
  show "total_frames s' = total_frames s"
    by (simp add: s'_def reserve_boot_data_def Let_def)
  show "pmm_is_reserved (a div PAGE_SIZE) s'" if "a < 0x100000"
    using that reserve_range_covers [of s 0 a "0x100000"] assms(1,2)
    by (intro keep) (simp add: s2_def s1_def boot_ok_def LOW_MEMORY_END_def reserve_range_keeps)
  show "pmm_is_reserved (a div PAGE_SIZE) s'" if "ks \<le> a" "a < ke"
    using that reserve_range_covers [of s1 ks a ke] b1 assms(2)
    by (intro keep) (simp add: s2_def boot_ok_def)
qed

lemma pmm_init_result:
  assumes "mb_flags mb AND MULTIBOOT_INFO_MEM_MAP \<noteq> 0" and "reserved_count s = 0"
    and "mmap_walk fuel mmap_at (mmap_addr mb) (mmap_addr mb + mmap_length mb) = Some es"
    and "length (filter (\<lambda>e. mm_type e \<noteq> MULTIBOOT_MEMORY_AVAILABLE) es) + 2 \<le> MAX_RESERVED"
  obtains s' where "pmm_init ks ke mb_addr mb mmap_at mod_at fuel s = Some s'" and "pmm_inv s'"
    and "\<And>a. a < 0x100000 \<Longrightarrow> pmm_is_reserved (a div PAGE_SIZE) s'"
    and "\<And>a. ks \<le> a \<Longrightarrow> a < ke \<Longrightarrow> pmm_is_reserved (a div PAGE_SIZE) s'"
proof -
  define s1 where "s1 = fold add_available es
    (s\<lparr>bitmap := (\<lambda>i. if i < unat PMM_MAX_FRAMES div 8 then 0xFF else bitmap s i)\<rparr>)"
  define s2 where "s2 = s1\<lparr>total_frames := to_frame (highest_ram s1)\<rparr>"
  define s4 where "s4 = reserve_boot_data ks ke mb_addr mb mod_at (fold add_reserved es s2)"
  have "reserved_count s1 = 0"
    unfolding s1_def by (subst fold_field [where g = reserved_count]) (simp_all add: assms(2))
  then have "boot_ok 0 s2" by (simp add: boot_ok_def s2_def reserved_used_def pmm_is_reserved_iff)
  note b = reserve_boot_data_ok [OF boot_ok_fold_reserved [OF this, of es],
      where ks = ks and ke = ke and mb_addr = mb_addr and mb = mb and mod_at = mod_at, folded s4_def]
  have total: "unat (total_frames s4) \<le> 1048576"
    using assms(4) b(2) by (simp add: s2_def unat_to_frame)
  let ?s' = "s4\<lparr>used_frames := count_used s4\<rparr>"
  have "pmm_inv ?s'"
    using b(1) b(3) [of 0] assms(4) total by (simp add: pmm_inv_def count_used_card reserved_used_def)
  moreover have "pmm_init ks ke mb_addr mb mmap_at mod_at fuel s = Some ?s'"
    using assms(1,3) by (simp add: pmm_init_def Let_def s1_def s2_def s4_def)
  ultimately show thesis using b(3,4) assms(4) by (intro that [of ?s']) auto
qed

text \<open>The walk ends when no entry's size wraps round the address space.\<close>

lemma mmap_walk_enough:
  assumes "\<And>a. a < stop \<Longrightarrow> unat a + unat (mm_size (mmap_at a)) + 4 < 4294967296"
    and "unat stop - unat addr \<le> fuel"
  shows "mmap_walk fuel mmap_at addr stop \<noteq> None"
  using assms(2)
proof (induction fuel arbitrary: addr)
  case (Suc fuel)
  have "unat stop - unat (addr + (mm_size (mmap_at addr) + 4)) \<le> fuel" if "addr < stop"
  proof -
    have "unat (mm_size (mmap_at addr) + 4) = unat (mm_size (mmap_at addr)) + 4"
      using assms(1) [OF that] by (subst unat_add_u32) simp_all
    then have "unat (addr + (mm_size (mmap_at addr) + 4)) = unat addr + unat (mm_size (mmap_at addr)) + 4"
      using assms(1) [OF that] by (subst unat_add_u32) simp_all
    then show ?thesis using Suc.prems by simp
  qed
  then show ?case using Suc.IH by simp
qed (simp add: word_less_nat_alt)

section \<open>Sequences of calls\<close>

inductive pmm_step :: "'a pmm_scheme \<Rightarrow> 'a pmm_scheme \<Rightarrow> bool" where
  step_alloc: "pmm_step s (snd (pmm_alloc_block s))"
| step_free: "pmm_step s (pmm_free_block a s)"

inductive_cases pmm_stepE: "pmm_step s s'"

lemma pmm_step_keeps:
  assumes "pmm_step s s'" and "pmm_inv s"
  shows "pmm_inv s' \<and> frames_pinned s' = frames_pinned s"
  using assms(1) pmm.inv_alloc [OF assms(2)] pmm.alloc_const [OF assms(2)]
    pmm.inv_release [OF assms(2)] pmm.release_const [OF assms(2)]
  by (auto elim!: pmm_stepE)

lemma pmm_steps_keep:
  "pmm_step\<^sup>*\<^sup>* s s' \<Longrightarrow> pmm_inv s \<Longrightarrow> pmm_inv s' \<and> frames_pinned s' = frames_pinned s"
  by (induction rule: rtranclp_induct) (auto dest: pmm_step_keeps)

section \<open>Properties\<close>

text \<open>A machine with sixteen frames of which the first two are reserved, for the witnesses.\<close>

definition small_ram :: pmm where
  "small_ram = audit.extend (empty_log 0)
     (pmm.fields (\<lambda>i. if i = 0 then 3 else 0) 16 2 0x10000 (\<lambda>_. (0, 2)) 1
        (\<lambda>_. \<lparr>reg_base = 0, reg_length = 0x10000, reg_type = 1\<rparr>) 1)"

lemma small_ram_fields [simp]:
  "bitmap small_ram = (\<lambda>i. if i = 0 then 3 else 0)" "total_frames small_ram = 16"
  "used_frames small_ram = 2" "reserved small_ram = (\<lambda>_. (0, 2))" "reserved_count small_ram = 1"
  by (simp_all add: small_ram_def audit.defs pmm.defs)

lemma bit_mask_u8: "bit (mask n :: u8) k \<longleftrightarrow> k < 8 \<and> k < n"
  by (simp add: bit_mask_iff)

lemma small_ram_used: "is_used f small_ram \<longleftrightarrow> f < 2"
proof -
  have "(bit (if f div 8 = 0 then 3 else 0 :: u8) (f mod 8)) \<longleftrightarrow> f < 2"
  proof (cases "f div 8 = 0")
    case True
    then have "f mod 8 = f" by simp
    moreover have "mask 2 = (3 :: u8)" by (simp add: mask_eq_exp_minus_1)
    ultimately show ?thesis using True bit_mask_u8 [of 2 f] by fastforce
  qed auto
  then show ?thesis by (simp add: is_used_bit)
qed

lemma small_ram_inv: "pmm_inv small_ram"
proof -
  have "{f. f < 16 \<and> f < 2} = {..<2 :: nat}" by auto
  then show ?thesis
    by (auto simp: pmm_inv_def pmm_is_reserved_iff small_ram_used word_less_nat_alt)
qed

text \<open>C21: allocation is first fit. The scan by bytes that skips full ones returns the lowest free
  frame of RAM, sets exactly its bit and counts it; with no free frame it returns 0 and changes
  nothing.\<close>

theorem pmm_alloc_first_fit:
  assumes "pmm_inv s"
  shows "pmm_alloc_block s =
     (case find (\<lambda>f. \<not> is_used f s) [0..<unat (total_frames s)] of
        None \<Rightarrow> (0, s)
      | Some f \<Rightarrow> (of_nat f * PAGE_SIZE, (mark_used f s)\<lparr>used_frames := used_frames s + 1\<rparr>))"
  using pmm_alloc_block_eq [OF assms] by (simp add: take_frame_def split: option.splits)

theorem pmm_alloc_first_fit_witness: "fst (pmm_alloc_block small_ram) = 0x2000"
proof -
  have "find (\<lambda>f. \<not> is_used f small_ram) [0..<16] = Some 2"
    by (simp add: small_ram_used upt_conv_Cons)
  then show ?thesis using pmm_alloc_first_fit [OF small_ram_inv] by (simp add: PAGE_SIZE_def)
qed

text \<open>C22: a free is accepted exactly for the address of a real, unreserved frame in use: that
  frame's bit is cleared and the counter drops by one. Every other free, a second free of the same
  frame included, writes one audit entry and changes nothing else.\<close>

theorem pmm_free_exactly:
  "if addr mod PAGE_SIZE = 0 \<and> addr div PAGE_SIZE < total_frames s \<and>
      \<not> pmm_is_reserved (addr div PAGE_SIZE) s \<and> is_used (unat (addr div PAGE_SIZE)) s
   then pmm_free_block addr s =
          (mark_free (unat (addr div PAGE_SIZE)) s)\<lparr>used_frames := used_frames s - 1\<rparr>
   else \<exists>reason. pmm_free_block addr s = audit_log ''pmm_free_guard'' reason s"
  using pmm_free_block_ok [of addr s] pmm_free_block_refused [of addr s]
  by (simp add: free_ok_def) metis

text \<open>C2: after any sequence of allocations and frees, refused ones included, the used counter is the
  number of frames marked in use, and every reserved frame (kernel image, firmware, boot data) is
  still reserved and in use, so no allocation hands it out.\<close>

theorem pmm_reserved_forever:
  assumes "pmm_inv s" and "pmm_step\<^sup>*\<^sup>* s s'"
  shows "unat (used_frames s') = card {f. f < unat (total_frames s') \<and> is_used f s'} \<and>
     frames_pinned s' = frames_pinned s \<and> frames_pinned s \<subseteq> frames_used s' \<and>
     fst (pmm_alloc_block s') \<notin> frames_pinned s - {0}"
proof -
  have s': "pmm_inv s'" "frames_pinned s' = frames_pinned s"
    using pmm_steps_keep [OF assms(2,1)] by auto
  moreover have "fst (pmm_alloc_block s') \<notin> frames_pinned s - {0}"
    using pmm.alloc_not_pinned [OF s'(1)] s'(2) by (metis DiffD1 DiffD2 insertI1 prod.collapse)
  ultimately show ?thesis using pinned_subset_used by (auto simp: pmm_inv_def)
qed

theorem pmm_reserved_forever_witness:
  "0x1000 \<in> frames_used (pmm_free_block 0x1000 (snd (pmm_alloc_block small_ram)))"
proof -
  have "pmm_step\<^sup>*\<^sup>* small_ram (pmm_free_block 0x1000 (snd (pmm_alloc_block small_ram)))"
    by (meson step_alloc step_free rtranclp.rtrancl_into_rtrancl rtranclp.rtrancl_refl)
  moreover have "0x1000 \<in> frames_pinned small_ram"
    by (simp add: frames_pinned_def pmm_is_reserved_iff PAGE_SIZE_def)
  ultimately show ?thesis using pmm_reserved_forever [OF small_ram_inv] by blast
qed

text \<open>C24: setup is sound. When the bootloader gives a memory map with at most 30 firmware entries,
  \<open>pmm_init\<close> ends in a state where the used counter is right, frame 0 is never handed out, and every
  frame of the first MiB and of the kernel image is reserved and marked in use.\<close>

theorem pmm_init_ok:
  assumes "mb_flags mb AND MULTIBOOT_INFO_MEM_MAP \<noteq> 0" and "reserved_count s = 0"
    and "mmap_walk fuel mmap_at (mmap_addr mb) (mmap_addr mb + mmap_length mb) = Some es"
    and "length (filter (\<lambda>e. mm_type e \<noteq> MULTIBOOT_MEMORY_AVAILABLE) es) + 2 \<le> MAX_RESERVED"
  shows "\<exists>s'. pmm_init ks ke mb_addr mb mmap_at mod_at fuel s = Some s' \<and> pmm_inv s' \<and>
     (\<forall>a. a < 0x100000 \<or> ks \<le> a \<and> a < ke \<longrightarrow>
        pmm_is_reserved (a div PAGE_SIZE) s' \<and> is_used (unat (a div PAGE_SIZE)) s')"
proof -
  obtain s' where s': "pmm_init ks ke mb_addr mb mmap_at mod_at fuel s = Some s'" "pmm_inv s'"
      "\<And>a. a < 0x100000 \<Longrightarrow> pmm_is_reserved (a div PAGE_SIZE) s'"
      "\<And>a. ks \<le> a \<Longrightarrow> a < ke \<Longrightarrow> pmm_is_reserved (a div PAGE_SIZE) s'"
    using pmm_init_result [OF assms, of ks ke mb_addr mod_at] by blast
  then show ?thesis by (auto simp: pmm_inv_def)
qed

definition small_map :: "u32 \<Rightarrow> multiboot_memory_map_t" where
  "small_map addr =
     (if addr = 0x9000 then \<lparr>mm_size = 20, mm_addr = 0, mm_len = 0x400000, mm_type = 1\<rparr>
      else \<lparr>mm_size = 20, mm_addr = 0xF0000, mm_len = 0x10000, mm_type = 2\<rparr>)"

theorem pmm_init_ok_witness:
  "\<exists>s'. pmm_init 0x100000 0x180000 0x8000
       \<lparr>mb_flags = 0x40, mods_count = 0, mods_addr = 0, mmap_length = 48, mmap_addr = 0x9000\<rparr>
       small_map (\<lambda>_. (0, 0)) (Suc (Suc 0)) (small_ram\<lparr>reserved_count := 0\<rparr>) = Some s' \<and> pmm_inv s' \<and>
     (\<forall>a. a < 0x100000 \<or> 0x100000 \<le> a \<and> a < 0x180000 \<longrightarrow>
        pmm_is_reserved (a div PAGE_SIZE) s' \<and> is_used (unat (a div PAGE_SIZE)) s')"
  by (rule pmm_init_ok [where es = "[small_map 0x9000, small_map 0x9018]"])
     (simp_all add: MULTIBOOT_INFO_MEM_MAP_def small_map_def MAX_RESERVED_def
        MULTIBOOT_MEMORY_AVAILABLE_def)

end
