(* ===== verification/Vmm.thy ===== *)
theory Vmm
  imports Pmm
begin

text \<open>
  Paging (memory_management/core/vmm/vmm.c) and the defence null_page. Physical memory is
  \<open>mem\<close>: a frame's address and a word index give the word. The page directory and the page tables
  are words of that memory, as on the machine, and \<open>mmu\<close> is the processor's two-level walk that
  vmm.h describes; it always sees the current tables (\<open>flush_tlb\<close> has no effect here). The kernel
  writes the tables through the recursive slot, so those writes go through \<open>mmu\<close> as well, and a
  write to an unmapped address stops the kernel (\<open>halted\<close>, the end of \<open>page_fault_handler\<close> for a
  fault in kernel code). The directory itself is read at its physical address: the source relies
  on it lying in the identity-mapped first 8 MiB.

  The lemmas show that the recursive slot reaches every table, that mapping and unmapping change the
  translation of exactly one page whatever tables they create or free, that the tables stay
  distinct frames in use, and that after \<open>vmm_init\<close> page 0 is unmapped and every other mapping
  is the identity.
\<close>

definition PAGE_PRESENT :: u32 where "PAGE_PRESENT = 0x1"
definition PAGE_WRITABLE :: u32 where "PAGE_WRITABLE = 0x2"
definition PAGE_USER :: u32 where "PAGE_USER = 0x4"
definition PAGE_FLAGS :: u32 where "PAGE_FLAGS = 0xFFF"
definition PAGES_PER_TABLE :: nat where "PAGES_PER_TABLE = 1024"
definition TABLES_PER_DIR :: nat where "TABLES_PER_DIR = 1024"
definition RECURSIVE_SLOT :: nat where "RECURSIVE_SLOT = 1023"
definition NULL_PAGE_END :: u32 where "NULL_PAGE_END = 0x00001000"
definition IDENTITY_MAP_END :: u32 where "IDENTITY_MAP_END = 0x00800000"
definition FRAMEBUFFER_START :: u32 where "FRAMEBUFFER_START = 0xFD000000"
definition FRAMEBUFFER_END :: u32 where "FRAMEBUFFER_END = 0xFE000000"
definition PAGE_TABLES_VIRT :: u32 where "PAGE_TABLES_VIRT = 0xFFC00000"

lemmas vmm_consts = PAGE_PRESENT_def PAGE_WRITABLE_def PAGE_USER_def PAGES_PER_TABLE_def
  TABLES_PER_DIR_def RECURSIVE_SLOT_def

record vmm_walk_t =
  w_dir_index :: nat
  w_table_index :: nat
  w_pde :: u32
  w_pte :: u32
  w_physical :: u32

record vmm = pmm +
  directory :: u32
  paging_on :: bool
  mem :: "u32 \<Rightarrow> nat \<Rightarrow> u32"
  halted :: bool

definition dir_index :: "u32 \<Rightarrow> nat" where
  "dir_index virt = unat (drop_bit 22 virt)"

definition table_index :: "u32 \<Rightarrow> nat" where
  "table_index virt = unat (drop_bit 12 virt AND 0x3FF)"

section \<open>Access to memory\<close>

definition pde :: "nat \<Rightarrow> 'a vmm_scheme \<Rightarrow> u32" where
  "pde i s = mem s (directory s) i"

definition write_mem :: "u32 \<Rightarrow> nat \<Rightarrow> u32 \<Rightarrow> 'a vmm_scheme \<Rightarrow> 'a vmm_scheme" where
  "write_mem frame i x s = s\<lparr>mem := (mem s)(frame := (mem s frame)(i := x))\<rparr>"

definition set_pde :: "nat \<Rightarrow> u32 \<Rightarrow> 'a vmm_scheme \<Rightarrow> 'a vmm_scheme" where
  "set_pde i x s = write_mem (directory s) i x s"

text \<open>The frame behind a virtual address, \<^const>\<open>None\<close> for a page fault.\<close>

definition mmu :: "u32 \<Rightarrow> 'a vmm_scheme \<Rightarrow> u32 option" where
  "mmu virt s =
     (if \<not> paging_on s then Some (virt AND NOT PAGE_FLAGS)
      else if pde (dir_index virt) s AND PAGE_PRESENT = 0 then None
      else let pte = mem s (pde (dir_index virt) s AND NOT PAGE_FLAGS) (table_index virt)
           in if pte AND PAGE_PRESENT = 0 then None else Some (pte AND NOT PAGE_FLAGS))"

definition peek :: "u32 \<Rightarrow> nat \<Rightarrow> 'a vmm_scheme \<Rightarrow> u32" where
  "peek virt i s = (case mmu virt s of None \<Rightarrow> 0 | Some frame \<Rightarrow> mem s frame i)"

definition poke :: "u32 \<Rightarrow> nat \<Rightarrow> u32 \<Rightarrow> 'a vmm_scheme \<Rightarrow> 'a vmm_scheme" where
  "poke virt i x s =
     (case mmu virt s of None \<Rightarrow> s\<lparr>halted := True\<rparr> | Some frame \<Rightarrow> write_mem frame i x s)"

text \<open>Where the kernel can read and write page table \<open>i\<close> right now.\<close>

definition table_at :: "nat \<Rightarrow> 'a vmm_scheme \<Rightarrow> u32" where
  "table_at i s =
     (if paging_on s then PAGE_TABLES_VIRT + of_nat i * PAGE_SIZE else pde i s AND NOT PAGE_FLAGS)"

section \<open>Mapping\<close>

definition clear_table :: "u32 \<Rightarrow> 'a vmm_scheme \<Rightarrow> 'a vmm_scheme" where
  "clear_table tab s = fold (\<lambda>i. poke tab i 0) [0..<PAGES_PER_TABLE] s"

definition set_pte :: "u32 \<Rightarrow> u32 \<Rightarrow> 'a vmm_scheme \<Rightarrow> 'a vmm_scheme" where
  "set_pte virt x s = poke (table_at (dir_index virt) s) (table_index virt) x s"

definition vmm_map_page :: "u32 \<Rightarrow> u32 \<Rightarrow> u32 \<Rightarrow> 'a vmm_scheme \<Rightarrow> bool \<times> 'a vmm_scheme" where
  "vmm_map_page virt phys flags s =
     (let d = dir_index virt;
          pte = (phys AND NOT PAGE_FLAGS) OR PAGE_PRESENT OR flags
      in if pde d s AND PAGE_PRESENT = 0 then
           case pmm_alloc_block s of (frame, s1) \<Rightarrow>
             if frame = 0 then (False, s1)
             else let s2 = set_pde d (frame OR PAGE_PRESENT OR PAGE_WRITABLE OR (flags AND PAGE_USER)) s1;
                      s3 = clear_table (table_at d s2) s2
                  in (True, set_pte virt pte s3)
         else if flags AND PAGE_USER \<noteq> 0 then
           (True, set_pte virt pte (set_pde d (pde d s OR PAGE_USER) s))
         else (True, set_pte virt pte s))"

definition table_is_empty :: "u32 \<Rightarrow> 'a vmm_scheme \<Rightarrow> bool" where
  "table_is_empty tab s \<longleftrightarrow> \<not> list_ex (\<lambda>i. peek tab i s \<noteq> 0) [0..<PAGES_PER_TABLE]"

definition vmm_unmap_page :: "u32 \<Rightarrow> 'a vmm_scheme \<Rightarrow> 'a vmm_scheme" where
  "vmm_unmap_page virt s =
     (let d = dir_index virt
      in if pde d s AND PAGE_PRESENT = 0 then s
         else let tab = table_at d s;
                  s1 = poke tab (table_index virt) 0 s
              in if table_is_empty tab s1
                 then pmm_free_block (pde d s1 AND NOT PAGE_FLAGS) (set_pde d 0 s1)
                 else s1)"

definition vmm_walk :: "u32 \<Rightarrow> 'a vmm_scheme \<Rightarrow> bool \<times> vmm_walk_t" where
  "vmm_walk virt s =
     (let out = \<lparr>w_dir_index = dir_index virt, w_table_index = table_index virt,
                 w_pde = pde (dir_index virt) s, w_pte = 0, w_physical = 0\<rparr>
      in if w_pde out AND PAGE_PRESENT = 0 then (False, out)
         else let out = out\<lparr>w_pte := peek (table_at (dir_index virt) s) (table_index virt) s\<rparr>
              in if w_pte out AND PAGE_PRESENT = 0 then (False, out)
                 else (True, out\<lparr>w_physical := (w_pte out AND NOT PAGE_FLAGS) OR (virt AND PAGE_FLAGS)\<rparr>))"

section \<open>Setup\<close>

text \<open>The loop of \<open>identity_map\<close>; an end near the top of the address space would never stop it.\<close>

partial_function (option) identity_map :: "u32 \<Rightarrow> u32 \<Rightarrow> 'a vmm_scheme \<Rightarrow> 'a vmm_scheme option" where
  "identity_map addr stop s =
     (if addr < stop
      then identity_map (addr + PAGE_SIZE) stop (snd (vmm_map_page addr addr PAGE_WRITABLE s))
      else Some s)"

definition def_null_page_protect :: "'a vmm_scheme \<Rightarrow> 'a vmm_scheme" where
  "def_null_page_protect s = vmm_unmap_page 0 s"

definition def_null_page_ok :: "'a vmm_scheme \<Rightarrow> bool" where
  "def_null_page_ok s \<longleftrightarrow> \<not> fst (vmm_walk 0 s) \<and> \<not> fst (vmm_walk (NULL_PAGE_END - 1) s)"

definition vmm_init :: "'a vmm_scheme \<Rightarrow> 'a vmm_scheme option" where
  "vmm_init s =
     (case pmm_alloc_block s of (dir, s1) \<Rightarrow>
        let s2 = s1\<lparr>directory := dir\<rparr>
        in if dir = 0 then Some s2
           else let s3 = fold (\<lambda>i. set_pde i 0) [0..<TABLES_PER_DIR] s2;
                    s4 = set_pde RECURSIVE_SLOT (dir OR PAGE_PRESENT OR PAGE_WRITABLE) s3
                in case identity_map 0 IDENTITY_MAP_END s4 of
                     None \<Rightarrow> None
                   | Some s5 \<Rightarrow>
                       (case identity_map FRAMEBUFFER_START FRAMEBUFFER_END s5 of
                          None \<Rightarrow> None
                        | Some s6 \<Rightarrow> Some ((def_null_page_protect s6)\<lparr>paging_on := True\<rparr>)))"

section \<open>Addresses and entries\<close>

lemma PAGE_FLAGS_mask: "PAGE_FLAGS = mask 12"
  by (simp add: PAGE_FLAGS_def mask_eq_exp_minus_1)

lemma aligned_iff: "(a :: u32) mod PAGE_SIZE = 0 \<longleftrightarrow> a AND NOT PAGE_FLAGS = a"
proof -
  have m: "a mod PAGE_SIZE = take_bit 12 a" by (simp add: PAGE_SIZE_def take_bit_eq_mod)
  show ?thesis unfolding m PAGE_FLAGS_mask
    by (auto simp: bit_eq_iff bit_simps bit_mask_iff)
qed

lemma entry_frame:
  assumes "a mod PAGE_SIZE = 0" and "(f :: u32) AND NOT PAGE_FLAGS = 0"
  shows "(a OR f) AND NOT PAGE_FLAGS = a"
  using assms unfolding aligned_iff bit.conj_disj_distrib2 by simp

lemma entry_aligned: "(a :: u32) AND NOT PAGE_FLAGS AND NOT PAGE_FLAGS = a AND NOT PAGE_FLAGS"
  by (simp add: and.assoc)

lemma entry_frame_aligned [simp]: "((a :: u32) AND NOT PAGE_FLAGS) mod PAGE_SIZE = 0"
  by (simp add: aligned_iff entry_aligned)

lemma present_or [simp]:
  "(x OR PAGE_PRESENT OR y) AND PAGE_PRESENT = PAGE_PRESENT"
  "(PAGE_PRESENT OR y) AND PAGE_PRESENT = PAGE_PRESENT"
  by (auto simp add: bit_eq_iff bit_simps)

lemma present_nonzero [simp]: "PAGE_PRESENT \<noteq> 0"
  by (simp add: PAGE_PRESENT_def)

lemma user_keeps_entry:
  "(x OR PAGE_USER) AND PAGE_PRESENT = x AND PAGE_PRESENT"
  "(x OR PAGE_USER) AND NOT PAGE_FLAGS = x AND NOT PAGE_FLAGS"
  by (simp_all add: PAGE_USER_def PAGE_PRESENT_def PAGE_FLAGS_def bit.conj_disj_distrib2)

lemma flags_and [simp]:
  "PAGE_PRESENT AND NOT PAGE_FLAGS = 0" "PAGE_WRITABLE AND NOT PAGE_FLAGS = 0"
  "PAGE_USER AND NOT PAGE_FLAGS = 0"
  by (simp_all add: PAGE_PRESENT_def PAGE_WRITABLE_def PAGE_USER_def PAGE_FLAGS_def)

lemma dir_index_eq: "dir_index v = unat v div 4194304"
  by (simp add: dir_index_def drop_bit_eq_div unat_div)

lemma table_index_eq: "table_index v = unat v div 4096 mod 1024"
proof -
  have "(0x3FF :: u32) = mask 10" by (simp add: mask_eq_exp_minus_1)
  then have "drop_bit 12 v AND 0x3FF = take_bit 10 (drop_bit 12 v)" by (simp add: take_bit_eq_mask)
  then show ?thesis
    by (simp add: table_index_def drop_bit_eq_div take_bit_eq_mod unat_div unat_mod)
qed

lemma dir_index_less [simp]: "dir_index v < 1024"
  using unat_less_p32 [of v] by (simp add: dir_index_eq div_less_iff_less_mult)

lemma table_index_less [simp]: "table_index v < 1024"
  by (simp add: table_index_eq)

text \<open>Two addresses have the same indices exactly when they lie in the same page.\<close>

definition same_page :: "u32 \<Rightarrow> u32 \<Rightarrow> bool" where
  "same_page v w \<longleftrightarrow> v AND NOT PAGE_FLAGS = w AND NOT PAGE_FLAGS"

lemma unat_page: "unat (v AND NOT PAGE_FLAGS) = unat v div 4096 * 4096"
proof -
  have "v AND NOT PAGE_FLAGS = push_bit 12 (drop_bit 12 v)"
    unfolding PAGE_FLAGS_mask by (auto simp: bit_eq_iff bit_simps)
  then have "v AND NOT PAGE_FLAGS = v div 4096 * 4096"
    by (simp add: push_bit_eq_mult drop_bit_eq_div)
  moreover have "unat (v div 4096) * unat (4096 :: u32) < 4294967296"
    using le_less_trans [OF div_times_less_eq_dividend unat_less_p32 [of v]] by (simp add: unat_div)
  ultimately show ?thesis by (simp add: unat_mult_u32 unat_div)
qed

lemma same_page_iff: "same_page v w \<longleftrightarrow> dir_index v = dir_index w \<and> table_index v = table_index w"
proof -
  have split: "unat x div 4096 = dir_index x * 1024 + table_index x" for x
    using div_mult_mod_eq [of "unat x div 4096" 1024]
    by (simp add: dir_index_eq table_index_eq div_mult2_eq [symmetric])
  have "same_page v w \<longleftrightarrow> unat v div 4096 = unat w div 4096"
    by (simp add: same_page_def word_unat_eq_iff unat_page)
  also have "\<dots> \<longleftrightarrow> dir_index v = dir_index w \<and> table_index v = table_index w"
  proof
    assume "unat v div 4096 = unat w div 4096"
    then show "dir_index v = dir_index w \<and> table_index v = table_index w"
      by (simp add: dir_index_eq table_index_eq div_mult2_eq [of _ 4096 1024, simplified])
  qed (simp add: split)
  finally show ?thesis .
qed

lemma same_page_refl [simp]: "same_page v v"
  by (simp add: same_page_def)

section \<open>Frames below, tables above\<close>

text \<open>The frame allocator does not look at the fields of this layer, nor change them.\<close>

lemma pmm_upd_vmm [simp]:
  "frames_used (mem_update f s) = frames_used s" "frames_ram (mem_update f s) = frames_ram s"
  "frames_pinned (mem_update f s) = frames_pinned s" "pmm_inv (mem_update f s) = pmm_inv s"
  "frames_used (directory_update g s) = frames_used s" "frames_ram (directory_update g s) = frames_ram s"
  "frames_pinned (directory_update g s) = frames_pinned s" "pmm_inv (directory_update g s) = pmm_inv s"
  "frames_used (paging_on_update h s) = frames_used s" "frames_ram (paging_on_update h s) = frames_ram s"
  "frames_pinned (paging_on_update h s) = frames_pinned s" "pmm_inv (paging_on_update h s) = pmm_inv s"
  by (simp_all add: frames_used_def frames_ram_def frames_pinned_def is_used_def pmm_is_reserved_def
      pmm_inv_def)

lemma pmm_more_vmm:
  assumes "pmm.more s = pmm.more (t :: 'a vmm_scheme)"
  shows "directory s = directory t" "paging_on s = paging_on t" "mem s = mem t" "halted s = halted t"
    "vmm.more s = vmm.more t"
  using assms by (cases s; cases t; simp)+

lemma alloc_loop_more: "pmm.more (snd (alloc_loop bs r s)) = pmm.more s"
proof (induction bs arbitrary: r s)
  case (Cons b bs)
  have "pmm.more (snd (alloc_in_byte b s)) = pmm.more s"
    by (simp add: alloc_in_byte_def split: option.split)
  then show ?case using Cons.IH by (auto split: prod.split)
qed simp

lemma pmm_alloc_more: "pmm.more (snd (pmm_alloc_block s)) = pmm.more s"
  by (simp add: pmm_alloc_block_def alloc_loop_more)

lemma pmm_free_more: "pmm.more (pmm_free_block a s) = pmm.more s"
proof (cases "free_ok a s")
  case False
  then obtain r where "pmm_free_block a s = audit_log ''pmm_free_guard'' r s"
    by (rule pmm_free_block_refused)
  then show ?thesis by simp
qed (simp add: pmm_free_block_ok)

lemmas pmm_alloc_vmm [simp] = pmm_more_vmm [OF pmm_alloc_more]
lemmas pmm_free_vmm [simp] = pmm_more_vmm [OF pmm_free_more]

text \<open>Frames somebody allocated: RAM in use that may be given back.\<close>

definition owned :: "'a pmm_scheme \<Rightarrow> u32 set" where
  "owned s = frames_ram s \<inter> frames_used s - frames_pinned s"

definition has_table :: "nat \<Rightarrow> 'a vmm_scheme \<Rightarrow> bool" where
  "has_table d s \<longleftrightarrow> pde d s AND PAGE_PRESENT \<noteq> 0"

definition table_frame :: "nat \<Rightarrow> 'a vmm_scheme \<Rightarrow> u32" where
  "table_frame d s = pde d s AND NOT PAGE_FLAGS"

text \<open>The directory and the tables are distinct frames the kernel owns, the last slot leads back to
  the directory, and no write has faulted.\<close>

definition vmm_inv :: "'a vmm_scheme \<Rightarrow> bool" where
  "vmm_inv s \<longleftrightarrow>
     pmm_inv s \<and> \<not> halted s \<and> directory s \<in> owned s \<and>
     pde 1023 s = directory s OR PAGE_PRESENT OR PAGE_WRITABLE \<and>
     (\<forall>d < 1023. has_table d s \<longrightarrow> table_frame d s \<in> owned s - {directory s}) \<and>
     inj_on (\<lambda>d. table_frame d s) {d. d < 1023 \<and> has_table d s}"

text \<open>The entry of an address in the tables, 0 when there is no table; whether paging is on or off.\<close>

definition pte_at :: "u32 \<Rightarrow> 'a vmm_scheme \<Rightarrow> u32" where
  "pte_at v s = (if has_table (dir_index v) s then mem s (table_frame (dir_index v) s) (table_index v) else 0)"

text \<open>Frames the paging structures consist of.\<close>

definition table_frames :: "'a vmm_scheme \<Rightarrow> u32 set" where
  "table_frames s = insert (directory s) {table_frame d s | d. d < 1023 \<and> has_table d s}"

lemma owned_aligned: "a \<in> owned s \<Longrightarrow> a mod PAGE_SIZE = 0"
  by (simp add: owned_def frames_ram_def)

lemma recursive_slot:
  assumes "vmm_inv s"
  shows "has_table 1023 s" and "table_frame 1023 s = directory s"
  using assms owned_aligned [of "directory s" s, unfolded aligned_iff]
  by (simp_all add: vmm_inv_def has_table_def table_frame_def or.assoc bit.conj_disj_distrib2)

text \<open>The recursive slot reaches every table: with paging on, the address \<open>table_at d\<close> is
  translated to the table's own frame; with paging off the frame's address is used directly.\<close>

lemma table_at_resolves:
  assumes "vmm_inv s" and "d < 1024" and "has_table d s"
  shows "mmu (table_at d s) s = Some (table_frame d s)"
proof (cases "paging_on s")
  case True
  let ?va = "PAGE_TABLES_VIRT + of_nat d * PAGE_SIZE"
  have m: "unat (of_nat d * PAGE_SIZE :: u32) = d * 4096"
    using assms(2) by (simp add: frame_addr_unat)
  then have u: "unat ?va = 0xFFC00000 + d * 4096"
    using assms(2) by (subst unat_add_u32) (simp_all add: PAGE_TABLES_VIRT_def)
  then have "dir_index ?va = 1023" "table_index ?va = d"
    using assms(2) mod_mult_self3 [of 1023 1024 d] by (simp_all add: dir_index_eq table_index_eq)
  moreover have "mem s (table_frame 1023 s) d = pde d s"
    by (simp add: recursive_slot [OF assms(1)] pde_def)
  ultimately show ?thesis
    using True recursive_slot(1) [OF assms(1)] assms(3)
    by (simp add: mmu_def table_at_def has_table_def table_frame_def Let_def)
next
  case False
  then show ?thesis by (simp add: mmu_def table_at_def table_frame_def entry_aligned)
qed

lemma poke_table:
  "vmm_inv s \<Longrightarrow> d < 1024 \<Longrightarrow> has_table d s \<Longrightarrow>
     poke (table_at d s) j x s = write_mem (table_frame d s) j x s"
  by (simp add: poke_def table_at_resolves)

lemma peek_table:
  "vmm_inv s \<Longrightarrow> d < 1024 \<Longrightarrow> has_table d s \<Longrightarrow> peek (table_at d s) j s = mem s (table_frame d s) j"
  by (simp add: peek_def table_at_resolves)

lemma vmm_walk_pte:
  assumes "vmm_inv s"
  shows "fst (vmm_walk v s) \<longleftrightarrow> pte_at v s AND PAGE_PRESENT \<noteq> 0"
    and "fst (vmm_walk v s) \<Longrightarrow>
      w_physical (snd (vmm_walk v s)) = (pte_at v s AND NOT PAGE_FLAGS) OR (v AND PAGE_FLAGS)"
proof -
  have p: "peek (table_at (dir_index v) s) (table_index v) s = pte_at v s" if "has_table (dir_index v) s"
    using that assms by (simp add: peek_table pte_at_def)
  show "fst (vmm_walk v s) \<longleftrightarrow> pte_at v s AND PAGE_PRESENT \<noteq> 0"
    using p by (auto simp: vmm_walk_def Let_def has_table_def pte_at_def)
  show "fst (vmm_walk v s) \<Longrightarrow>
      w_physical (snd (vmm_walk v s)) = (pte_at v s AND NOT PAGE_FLAGS) OR (v AND PAGE_FLAGS)"
    using p by (auto simp: vmm_walk_def Let_def has_table_def split: if_splits)
qed

section \<open>Writes to the tables\<close>

lemma write_mem_fields [simp]:
  "directory (write_mem f i x s) = directory s" "paging_on (write_mem f i x s) = paging_on s"
  "halted (write_mem f i x s) = halted s" "vmm.more (write_mem f i x s) = vmm.more s"
  "frames_used (write_mem f i x s) = frames_used s" "frames_ram (write_mem f i x s) = frames_ram s"
  "frames_pinned (write_mem f i x s) = frames_pinned s" "pmm_inv (write_mem f i x s) = pmm_inv s"
  "owned (write_mem f i x s) = owned s"
  by (simp_all add: write_mem_def owned_def)

lemma mem_write_mem: "mem (write_mem f i x s) g j = (if g = f \<and> j = i then x else mem s g j)"
  by (simp add: write_mem_def)

lemma write_table_pde:
  "f \<noteq> directory s \<Longrightarrow> pde d (write_mem f i x s) = pde d s"
  "f \<noteq> directory s \<Longrightarrow> has_table d (write_mem f i x s) = has_table d s"
  "f \<noteq> directory s \<Longrightarrow> table_frame d (write_mem f i x s) = table_frame d s"
  by (simp_all add: pde_def has_table_def table_frame_def mem_write_mem)

lemma write_table_inv:
  "vmm_inv s \<Longrightarrow> f \<noteq> directory s \<Longrightarrow> vmm_inv (write_mem f i x s)"
  by (simp add: vmm_inv_def write_table_pde)

lemma table_frame_props:
  assumes "vmm_inv s" and "d < 1023" and "has_table d s"
  shows "table_frame d s \<noteq> directory s" and "table_frame d s \<in> owned s"
    and "e < 1024 \<Longrightarrow> has_table e s \<Longrightarrow> table_frame e s = table_frame d s \<longleftrightarrow> e = d"
proof -
  show 1: "table_frame d s \<noteq> directory s" "table_frame d s \<in> owned s"
    using assms by (auto simp: vmm_inv_def)
  show "table_frame e s = table_frame d s \<longleftrightarrow> e = d" if "e < 1024" "has_table e s"
  proof (cases "e = 1023")
    case True
    then show ?thesis using recursive_slot(2) [OF assms(1)] 1 assms(2) by auto
  next
    case False
    then have "e < 1023" using that by simp
    then show ?thesis using assms that by (auto simp: vmm_inv_def inj_on_def)
  qed
qed

lemma pte_at_write:
  assumes "vmm_inv s" and "dir_index v < 1023" and "has_table (dir_index v) s"
  shows "pte_at w (write_mem (table_frame (dir_index v) s) (table_index v) x s) =
     (if same_page w v then x else pte_at w s)"
  using table_frame_props [OF assms]
  by (auto simp: pte_at_def write_table_pde mem_write_mem same_page_iff assms(3))

section \<open>Mapping changes one page\<close>

text \<open>Memory outside the directory can change without touching the tables' structure.\<close>

lemma mem_upd_dir:
  assumes "m (directory s) = mem s (directory s)"
  shows "pde e (s\<lparr>mem := m\<rparr>) = pde e s" "has_table e (s\<lparr>mem := m\<rparr>) = has_table e s"
    "table_frame e (s\<lparr>mem := m\<rparr>) = table_frame e s" "table_at e (s\<lparr>mem := m\<rparr>) = table_at e s"
    "vmm_inv (s\<lparr>mem := m\<rparr>) = vmm_inv s"
proof -
  show p: "pde e (s\<lparr>mem := m\<rparr>) = pde e s" for e using assms by (simp add: pde_def)
  show "has_table e (s\<lparr>mem := m\<rparr>) = has_table e s"
    "table_frame e (s\<lparr>mem := m\<rparr>) = table_frame e s" "table_at e (s\<lparr>mem := m\<rparr>) = table_at e s"
    by (simp_all add: has_table_def table_frame_def table_at_def p)
  show "vmm_inv (s\<lparr>mem := m\<rparr>) = vmm_inv s"
    by (simp add: vmm_inv_def has_table_def table_frame_def p owned_def)
qed

lemma clear_table_eq:
  assumes "vmm_inv s" and "d < 1023" and "has_table d s"
  shows "fold (\<lambda>i. poke (table_at d s) i 0) [0..<n] s =
     s\<lparr>mem := (mem s)(table_frame d s := (\<lambda>j. if j < n then 0 else mem s (table_frame d s) j))\<rparr>"
proof (induction n)
  case (Suc n)
  let ?f = "table_frame d s"
  define m where "m = (mem s)(?f := (\<lambda>j. if j < n then 0 else mem s ?f j))"
  have "m (directory s) = mem s (directory s)"
    using table_frame_props(1) [OF assms] by (simp add: m_def)
  note t = mem_upd_dir [of m s, OF this]
  have "poke (table_at d s) n 0 (s\<lparr>mem := m\<rparr>) = write_mem ?f n 0 (s\<lparr>mem := m\<rparr>)"
    using poke_table [of "s\<lparr>mem := m\<rparr>" d n 0] assms t by simp
  also have "\<dots> = s\<lparr>mem := (mem s)(?f := (\<lambda>j. if j < Suc n then 0 else mem s ?f j))\<rparr>"
    by (auto simp: write_mem_def m_def fun_eq_iff less_Suc_eq intro!: arg_cong2 [where f = "\<lambda>x y. mem_update (\<lambda>_. x) y"])
  finally show ?case by (simp add: Suc.IH m_def del: fun_upd_apply)
qed (simp add: fun_upd_idem)

lemma set_pde_fields [simp]:
  "directory (set_pde d x s) = directory s" "paging_on (set_pde d x s) = paging_on s"
  "halted (set_pde d x s) = halted s" "vmm.more (set_pde d x s) = vmm.more s"
  "owned (set_pde d x s) = owned s" "pmm_inv (set_pde d x s) = pmm_inv s"
  "frames_used (set_pde d x s) = frames_used s" "frames_ram (set_pde d x s) = frames_ram s"
  "frames_pinned (set_pde d x s) = frames_pinned s"
  by (simp_all add: set_pde_def)

lemma pde_set_pde: "pde e (set_pde d x s) = (if e = d then x else pde e s)"
  by (simp add: pde_def set_pde_def mem_write_mem)

lemma mem_set_pde: "f \<noteq> directory s \<Longrightarrow> mem (set_pde d x s) f = mem s f"
  by (simp add: set_pde_def mem_write_mem fun_eq_iff)

text \<open>A directory entry that keeps its present bit and its frame changes no translation.\<close>

lemma set_pde_user:
  assumes "vmm_inv s" and "d < 1023"
  shows "vmm_inv (set_pde d (pde d s OR PAGE_USER) s)"
    and "dir_index w < 1023 \<Longrightarrow> pte_at w (set_pde d (pde d s OR PAGE_USER) s) = pte_at w s"
    and "has_table e (set_pde d (pde d s OR PAGE_USER) s) = has_table e s"
    and "table_frame e (set_pde d (pde d s OR PAGE_USER) s) = table_frame e s"
proof -
  let ?s = "set_pde d (pde d s OR PAGE_USER) s"
  show t: "has_table e ?s = has_table e s" "table_frame e ?s = table_frame e s" for e
    by (simp_all add: has_table_def table_frame_def pde_set_pde user_keeps_entry)
  show "vmm_inv ?s" using assms by (simp add: vmm_inv_def t pde_set_pde)
  show "pte_at w ?s = pte_at w s" if "dir_index w < 1023"
    using that table_frame_props(1) [OF assms(1)] by (auto simp: pte_at_def t mem_set_pde)
qed

text \<open>A fresh frame becomes the table of a directory entry that had none.\<close>

lemma new_table:
  fixes s :: "'a vmm_scheme" and flags :: u32
  assumes inv: "vmm_inv s" and d: "d < 1023" and none: "\<not> has_table d s"
    and a: "pmm_alloc_block s = (frame, s1)" and nz: "frame \<noteq> 0"
  defines "s2 \<equiv> set_pde d (frame OR PAGE_PRESENT OR PAGE_WRITABLE OR (flags AND PAGE_USER)) s1"
  shows "vmm_inv s2" and "table_frame d s2 = frame" and "has_table d s2"
    and "e \<noteq> d \<Longrightarrow> has_table e s2 = has_table e s \<and> table_frame e s2 = table_frame e s"
    and "f \<noteq> directory s \<Longrightarrow> mem s2 f = mem s f" and "owned s2 = insert frame (owned s)"
proof -
  have p: "pmm_inv s" using inv by (simp add: vmm_inv_def)
  have s1: "s1 = snd (pmm_alloc_block s)" using a by simp
  have fr: "frame \<in> frames_ram s" "frame \<notin> frames_used s" "frames_used s1 = insert frame (frames_used s)"
    using pmm.alloc_frame [OF p a nz] by auto
  have own1: "owned s1 = insert frame (owned s)"
    using fr pmm.alloc_const [OF p] pmm.alloc_not_pinned [OF p a nz] by (auto simp: owned_def s1)
  then show own: "owned s2 = insert frame (owned s)" by (simp add: s2_def)
  have new: "frame \<noteq> directory s" "\<And>e. e < 1023 \<Longrightarrow> has_table e s \<Longrightarrow> frame \<noteq> table_frame e s"
    using inv fr(2) by (auto simp: vmm_inv_def owned_def)
  have al: "frame mod PAGE_SIZE = 0" using fr(1) by (simp add: frames_ram_def)
  have pde1: "pde e s1 = pde e s" for e by (simp add: pde_def s1)
  have pde2: "pde e s2 = (if e = d then frame OR PAGE_PRESENT OR PAGE_WRITABLE OR (flags AND PAGE_USER) else pde e s)" for e
    by (simp add: s2_def pde_set_pde pde1)
  show "table_frame d s2 = frame"
    using al unfolding aligned_iff
    by (simp add: table_frame_def pde2 bit.conj_disj_distrib2 and.assoc and.left_commute)
  then have tf: "table_frame e s2 = (if e = d then frame else table_frame e s)" for e
    by (simp add: table_frame_def pde2)
  show "has_table d s2" by (simp add: has_table_def pde2 or.assoc)
  then have ht: "has_table e s2 = (e = d \<or> has_table e s)" for e by (auto simp: has_table_def pde2)
  show "e \<noteq> d \<Longrightarrow> has_table e s2 = has_table e s \<and> table_frame e s2 = table_frame e s"
    by (simp add: ht tf)
  show "f \<noteq> directory s \<Longrightarrow> mem s2 f = mem s f"
    by (simp add: s2_def mem_set_pde s1)
  have "inj_on (\<lambda>e. table_frame e s2) {e. e < 1023 \<and> has_table e s2}"
    using inv new d none by (auto simp: vmm_inv_def inj_on_def tf ht)
  moreover have "pmm_inv s2" using pmm.inv_alloc [OF p] by (simp add: s2_def s1)
  moreover have "directory s2 = directory s" "halted s2 = halted s" by (simp_all add: s2_def s1)
  ultimately show "vmm_inv s2"
    using inv new d by (auto simp: vmm_inv_def own tf ht pde2)
qed

lemma clear_table_result:
  assumes "vmm_inv s" and "d < 1023" and "has_table d s"
  defines "s' \<equiv> clear_table (table_at d s) s"
  shows "vmm_inv s'" and "has_table e s' = has_table e s" and "table_frame e s' = table_frame e s"
    and "dir_index w < 1023 \<Longrightarrow> pte_at w s' = (if dir_index w = d then 0 else pte_at w s)"
    and "owned s' = owned s" and "vmm.more s' = vmm.more s" and "directory s' = directory s"
    and "paging_on s' = paging_on s" and "f \<noteq> table_frame d s \<Longrightarrow> mem s' f = mem s f"
proof -
  define m where "m = (mem s)(table_frame d s := (\<lambda>j. if j < 1024 then 0 else mem s (table_frame d s) j))"
  have s': "s' = s\<lparr>mem := m\<rparr>"
    by (simp add: s'_def m_def clear_table_def clear_table_eq [OF assms(1-3)] PAGES_PER_TABLE_def
        del: fun_upd_apply)
  have "m (directory s) = mem s (directory s)"
    using table_frame_props(1) [OF assms(1-3)] by (simp add: m_def)
  note t = mem_upd_dir [of m s, OF this]
  show "vmm_inv s'" "has_table e s' = has_table e s" "table_frame e s' = table_frame e s"
    by (simp_all add: s' t assms(1))
  have mem: "mem s' g j = (if g = table_frame d s \<and> j < 1024 then 0 else mem s g j)" for g j
    by (simp add: s' m_def)
  show "pte_at w s' = (if dir_index w = d then 0 else pte_at w s)" if "dir_index w < 1023"
  proof -
    have "pte_at w s' = (if has_table (dir_index w) s then mem s' (table_frame (dir_index w) s) (table_index w) else 0)"
      by (simp add: s' pte_at_def t)
    then show ?thesis
      using that table_frame_props(3) [OF assms(1-3), of "dir_index w"] assms(3)
      by (auto simp: mem pte_at_def)
  qed
  show "owned s' = owned s" "vmm.more s' = vmm.more s" "directory s' = directory s"
    "paging_on s' = paging_on s" "f \<noteq> table_frame d s \<Longrightarrow> mem s' f = mem s f"
    by (simp_all add: s' owned_def m_def)
qed

lemma set_pte_eq:
  assumes "vmm_inv s" and "dir_index v < 1023" and "has_table (dir_index v) s"
  shows "set_pte v x s = write_mem (table_frame (dir_index v) s) (table_index v) x s"
  using assms by (simp add: set_pte_def poke_table)

text \<open>What both operations promise their callers: the entry of one page changes, the tables stay
  sound, and no word changes outside the directory, the tables and a frame that was free.\<close>

definition only_tables :: "'a vmm_scheme \<Rightarrow> 'a vmm_scheme \<Rightarrow> bool" where
  "only_tables s s' \<longleftrightarrow>
     directory s' = directory s \<and> paging_on s' = paging_on s \<and> vmm.more s' = vmm.more s \<and>
     (\<forall>f \<in> frames_used s. f \<noteq> directory s \<longrightarrow> (\<forall>d < 1023. has_table d s \<longrightarrow> f \<noteq> table_frame d s) \<longrightarrow>
        mem s' f = mem s f)"

lemma map_in_table:
  assumes "vmm_inv s" and "dir_index v < 1023" and "has_table (dir_index v) s"
  shows "vmm_inv (set_pte v x s)" and "pte_at w (set_pte v x s) = (if same_page w v then x else pte_at w s)"
    and "only_tables s (set_pte v x s)" and "owned (set_pte v x s) = owned s"
    and "table_frames (set_pte v x s) = table_frames s"
proof -
  note e = set_pte_eq [OF assms]
  show "table_frames (set_pte v x s) = table_frames s"
    unfolding e table_frames_def using table_frame_props(1) [OF assms] by (simp add: write_table_pde)
  show "vmm_inv (set_pte v x s)"
    unfolding e by (rule write_table_inv [OF assms(1) table_frame_props(1) [OF assms]])
  show "pte_at w (set_pte v x s) = (if same_page w v then x else pte_at w s)"
    unfolding e by (rule pte_at_write [OF assms])
  show "only_tables s (set_pte v x s)"
    using assms(2,3) by (auto simp: e only_tables_def mem_write_mem fun_eq_iff)
  show "owned (set_pte v x s) = owned s" by (simp add: e)
qed

lemma map_with_table:
  assumes "vmm_inv s" and "dir_index v < 1023" and "has_table (dir_index v) s"
  defines "s1 \<equiv> set_pde (dir_index v) (pde (dir_index v) s OR PAGE_USER) s"
  shows "vmm_inv (set_pte v x s1)" and "only_tables s (set_pte v x s1)"
    and "dir_index w < 1023 \<Longrightarrow> pte_at w (set_pte v x s1) = (if same_page w v then x else pte_at w s)"
    and "owned (set_pte v x s1) = owned s" and "table_frames (set_pte v x s1) = table_frames s"
proof -
  note u = set_pde_user [OF assms(1,2), folded s1_def]
  note m = map_in_table [OF u(1) assms(2)]
  have h: "has_table (dir_index v) s1" using u(3) assms(3) by simp
  show "vmm_inv (set_pte v x s1)" by (rule m(1) [OF h])
  show "pte_at w (set_pte v x s1) = (if same_page w v then x else pte_at w s)" if "dir_index w < 1023"
    using m(2) [OF h] u(2) [OF that] by simp
  have "directory s1 = directory s" "frames_used s1 = frames_used s" by (simp_all add: s1_def)
  then show "only_tables s (set_pte v x s1)"
    using m(3) [OF h, of x] u(3,4) by (auto simp: only_tables_def s1_def mem_set_pde)
  show "owned (set_pte v x s1) = owned s" using m(4) [OF h] by (simp add: s1_def)
  have "table_frames s1 = table_frames s" by (simp add: table_frames_def u(3,4)) (simp add: s1_def)
  then show "table_frames (set_pte v x s1) = table_frames s" using m(5) [OF h] by simp
qed

lemma map_new_table:
  fixes s :: "'a vmm_scheme" and flags :: u32
  assumes inv: "vmm_inv s" and d: "dir_index v < 1023" and none: "\<not> has_table (dir_index v) s"
    and a: "pmm_alloc_block s = (frame, s1)" and nz: "frame \<noteq> 0"
  defines "s2 \<equiv> set_pde (dir_index v) (frame OR PAGE_PRESENT OR PAGE_WRITABLE OR (flags AND PAGE_USER)) s1"
  defines "s3 \<equiv> clear_table (table_at (dir_index v) s2) s2"
  shows "vmm_inv (set_pte v x s3)" and "only_tables s (set_pte v x s3)"
    and "dir_index w < 1023 \<Longrightarrow> pte_at w (set_pte v x s3) = (if same_page w v then x else pte_at w s)"
    and "owned (set_pte v x s3) = insert frame (owned s)"
    and "table_frames (set_pte v x s3) = insert frame (table_frames s)"
proof -
  note n = new_table [OF inv d none a nz, where flags = flags, folded s2_def]
  note c = clear_table_result [OF n(1) d n(3), folded s3_def]
  have h: "has_table (dir_index v) s3" using c(2) n(3) by simp
  note m = map_in_table [OF c(1) d h]
  show "vmm_inv (set_pte v x s3)" by (rule m(1))
  show "owned (set_pte v x s3) = insert frame (owned s)" using m(4) c(5) n(6) by simp
  have "directory s3 = directory s" using c(7) a by (auto simp: s2_def dest: arg_cong [where f = "directory \<circ> snd"])
  moreover have "has_table e s3 \<longleftrightarrow> e = dir_index v \<or> has_table e s"
    "table_frame e s3 = (if e = dir_index v then frame else table_frame e s)" for e
    using c(2,3) n(2,3) n(4) [of e] by auto
  ultimately have "table_frames s3 = insert frame (table_frames s)"
    using d none unfolding table_frames_def by auto metis
  then show "table_frames (set_pte v x s3) = insert frame (table_frames s)" using m(5) by simp
  have fresh: "frame \<notin> frames_used s"
    using pmm.alloc_frame [OF _ a nz] inv by (simp add: vmm_inv_def)
  show "pte_at w (set_pte v x s3) = (if same_page w v then x else pte_at w s)" if w: "dir_index w < 1023"
  proof (cases "dir_index w = dir_index v")
    case True
    moreover have "pte_at w s = 0" using True none by (simp add: pte_at_def)
    ultimately show ?thesis using m(2) c(4) [OF w] by simp
  next
    case False
    have "table_frame (dir_index w) s \<noteq> directory s" if "has_table (dir_index w) s"
      using table_frame_props(1) [OF inv w that] .
    then have "pte_at w s2 = pte_at w s"
      using n(4) [OF False] n(5) by (simp add: pte_at_def)
    then show ?thesis using m(2) c(4) [OF w] False by (simp add: same_page_iff)
  qed
  have s1: "s1 = snd (pmm_alloc_block s)" using a by simp
  have set: "set_pte v x s3 = write_mem frame (table_index v) x s3"
    using set_pte_eq [OF c(1) d h] c(3) n(2) by simp
  have "mem (set_pte v x s3) f = mem s f" if "f \<in> frames_used s" "f \<noteq> directory s" for f
  proof -
    have "f \<noteq> frame" using fresh that by auto
    then show ?thesis using c(9) [of f] n(2) n(5) [OF that(2)] by (simp add: set mem_write_mem fun_eq_iff)
  qed
  then show "only_tables s (set_pte v x s3)"
    by (simp add: only_tables_def set c(6,7,8)) (simp add: s2_def s1)
qed

lemma vmm_map_page_cases:
  assumes "vmm_inv s" and "dir_index v < 1023" and "vmm_map_page v phys flags s = (ok, s')"
  obtains (no_memory) "\<not> ok" and "s' = s" and "frames_ram s \<subseteq> frames_used s"
  | (mapped) "ok" and "vmm_inv s'" and "only_tables s s'"
      and "\<And>w. dir_index w < 1023 \<Longrightarrow>
        pte_at w s' = (if same_page w v then (phys AND NOT PAGE_FLAGS) OR PAGE_PRESENT OR flags else pte_at w s)"
      and "\<exists>F. F \<inter> frames_used s = {} \<and> owned s' = owned s \<union> F \<and> table_frames s' = table_frames s \<union> F"
proof (cases "has_table (dir_index v) s")
  case True
  let ?d = "dir_index v"
  have p: "pde ?d s AND PAGE_PRESENT \<noteq> 0" using True by (simp add: has_table_def)
  show thesis
  proof (cases "flags AND PAGE_USER = 0")
    case True': True
    then have "ok" "s' = set_pte v ((phys AND NOT PAGE_FLAGS) OR PAGE_PRESENT OR flags) s"
      using assms(3) p by (simp_all add: vmm_map_page_def Let_def)
    then show thesis using map_in_table [OF assms(1,2) True] by (intro mapped exI [of _ "{}"]) simp_all
  next
    case False
    then have "ok" "s' = set_pte v ((phys AND NOT PAGE_FLAGS) OR PAGE_PRESENT OR flags)
        (set_pde ?d (pde ?d s OR PAGE_USER) s)"
      using assms(3) p by (simp_all add: vmm_map_page_def Let_def)
    then show thesis using map_with_table [OF assms(1,2) True] by (intro mapped exI [of _ "{}"]) simp_all
  qed
next
  case False
  then have p: "pde (dir_index v) s AND PAGE_PRESENT = 0" by (simp add: has_table_def)
  have inv: "pmm_inv s" using assms(1) by (simp add: vmm_inv_def)
  obtain frame and s1 :: "'a vmm_scheme" where a: "pmm_alloc_block s = (frame, s1)" by fastforce
  show thesis
  proof (cases "frame = 0")
    case True
    then show thesis
      using assms(3) a p pmm.alloc_full [OF inv] by (intro no_memory) (auto simp: vmm_map_page_def Let_def)
  next
    case nz: False
    then have "ok" and s': "s' = set_pte v ((phys AND NOT PAGE_FLAGS) OR PAGE_PRESENT OR flags)
        (clear_table (table_at (dir_index v) (set_pde (dir_index v) (frame OR PAGE_PRESENT OR PAGE_WRITABLE OR
           (flags AND PAGE_USER)) s1)) (set_pde (dir_index v) (frame OR PAGE_PRESENT OR PAGE_WRITABLE OR
           (flags AND PAGE_USER)) s1))"
      using assms(3) a p by (simp_all add: vmm_map_page_def Let_def)
    note n = map_new_table [OF assms(1,2) False a nz, where flags = flags
        and x = "(phys AND NOT PAGE_FLAGS) OR PAGE_PRESENT OR flags", folded s']
    have "frame \<notin> frames_used s" using pmm.alloc_frame [OF inv a nz] by simp
    then have "\<exists>F. F \<inter> frames_used s = {} \<and> owned s' = owned s \<union> F \<and> table_frames s' = table_frames s \<union> F"
      using n(4,5) by (intro exI [of _ "{frame}"]) simp
    then show thesis using mapped [OF \<open>ok\<close> n(1) n(2) n(3)] by blast
  qed
qed

section \<open>Unmapping changes one page\<close>

lemma drop_table:
  assumes "vmm_inv s" and "d < 1023" and "has_table d s"
  defines "s' \<equiv> pmm_free_block (table_frame d s) (set_pde d 0 s)"
  shows "vmm_inv s'" and "only_tables s s'" and "owned s' = owned s - {table_frame d s}"
    and "has_table e s' \<longleftrightarrow> e \<noteq> d \<and> has_table e s"
    and "e \<noteq> d \<Longrightarrow> table_frame e s' = table_frame e s"
    and "f \<noteq> directory s \<Longrightarrow> mem s' f = mem s f"
    and "table_frames s' = table_frames s - {table_frame d s}"
proof -
  let ?f = "table_frame d s" and ?s = "set_pde d 0 s"
  note fp = table_frame_props [OF assms(1-3)]
  have p: "pmm_inv ?s" using assms(1) by (simp add: vmm_inv_def)
  have used: "frames_used s' = frames_used s - {?f}"
    using pmm.release_ok [OF p, of ?f] fp(2) by (simp add: s'_def owned_def)
  then show own: "owned s' = owned s - {?f}"
    using pmm.release_const [OF p, of ?f] by (auto simp: owned_def s'_def)
  have pde': "pde e s' = (if e = d then 0 else pde e s)" for e
    by (simp add: s'_def pde_def) (simp add: pde_def [symmetric] pde_set_pde, simp add: pde_def set_pde_def mem_write_mem)
  show ht: "has_table e s' \<longleftrightarrow> e \<noteq> d \<and> has_table e s" for e by (simp add: has_table_def pde')
  show tf: "e \<noteq> d \<Longrightarrow> table_frame e s' = table_frame e s" for e by (simp add: table_frame_def pde')
  show "only_tables s s'" by (auto simp: only_tables_def s'_def mem_set_pde)
  show "f \<noteq> directory s \<Longrightarrow> mem s' f = mem s f" by (simp add: s'_def mem_set_pde)
  have other: "table_frame e s \<noteq> ?f" if "e < 1023" "has_table e s" "e \<noteq> d" for e
    using fp(3) [of e] that by simp
  have dir: "directory s' = directory s" "halted s' = halted s" by (simp_all add: s'_def)
  show "table_frames s' = table_frames s - {?f}"
    using fp(1) other dir unfolding table_frames_def by (auto simp: ht tf) (metis tf)+
  have "pmm_inv s'" using pmm.inv_release [OF p] by (simp add: s'_def)
  moreover note other dir
  moreover have "inj_on (\<lambda>e. table_frame e s') {e. e < 1023 \<and> has_table e s'}"
    using assms(1) by (auto simp: vmm_inv_def inj_on_def ht tf)
  ultimately show "vmm_inv s'"
    using assms(1,2) fp(1) by (auto simp: vmm_inv_def own ht tf pde')
qed

lemma vmm_unmap_page_result:
  assumes inv: "vmm_inv s" and d: "dir_index v < 1023"
  shows "vmm_inv (vmm_unmap_page v s)" and "only_tables s (vmm_unmap_page v s)"
    and "dir_index w < 1023 \<Longrightarrow> pte_at w (vmm_unmap_page v s) = (if same_page w v then 0 else pte_at w s)"
    and "\<exists>F \<subseteq> table_frames s. owned (vmm_unmap_page v s) = owned s - F \<and>
      table_frames (vmm_unmap_page v s) = table_frames s - F"
proof -
  let ?d = "dir_index v"
  let ?P = "\<lambda>s'. vmm_inv s' \<and> only_tables s s' \<and>
      (\<forall>w. dir_index w < 1023 \<longrightarrow> pte_at w s' = (if same_page w v then 0 else pte_at w s)) \<and>
      (\<exists>F \<subseteq> table_frames s. owned s' = owned s - F \<and> table_frames s' = table_frames s - F)"
  have "?P (vmm_unmap_page v s)"
  proof (cases "has_table ?d s")
    case False
    then have "vmm_unmap_page v s = s" by (simp add: vmm_unmap_page_def has_table_def)
    moreover have "pte_at w s = 0" if "same_page w v" for w
      using that False by (simp add: pte_at_def same_page_iff)
    ultimately show ?thesis using inv by (auto simp: only_tables_def)
  next
    case True
    define s1 where "s1 = set_pte v 0 s"
    note m = map_in_table [OF inv d True, where x = 0, folded s1_def]
    have nd: "table_frame ?d s \<noteq> directory s" by (rule table_frame_props(1) [OF inv d True])
    have s1: "s1 = write_mem (table_frame ?d s) (table_index v) 0 s"
      by (simp add: s1_def set_pte_eq [OF inv d True])
    note t1 = write_table_pde [OF nd, where i = "table_index v" and x = 0, folded s1]
    have h1: "has_table ?d s1" using t1 True by simp
    have at: "table_at ?d s = table_at ?d s1" by (simp add: table_at_def t1(1)) (simp add: s1)
    have un: "vmm_unmap_page v s = (if table_is_empty (table_at ?d s1) s1
        then pmm_free_block (table_frame ?d s1) (set_pde ?d 0 s1) else s1)"
      using True at by (simp add: vmm_unmap_page_def Let_def has_table_def s1_def set_pte_def table_frame_def)
    show ?thesis
    proof (cases "table_is_empty (table_at ?d s1) s1")
      case False
      then show ?thesis using m by (auto simp: un)
    next
      case empty: True
      then have z: "\<And>j. j < 1024 \<Longrightarrow> mem s1 (table_frame ?d s1) j = 0"
        using peek_table [OF m(1) _ h1] d
        by (auto simp: table_is_empty_def list_ex_iff PAGES_PER_TABLE_def)
      note k = drop_table [OF m(1) d h1]
      have "pte_at w (vmm_unmap_page v s) = pte_at w s1" if "dir_index w < 1023" for w
      proof (cases "dir_index w = ?d")
        case True
        then show ?thesis using k(4) h1 z by (simp add: pte_at_def un empty)
      next
        case False
        then show ?thesis using k(4,5,6) table_frame_props(1) [OF m(1) that]
          by (auto simp: pte_at_def un empty)
      qed
      moreover have "only_tables s (vmm_unmap_page v s)"
        using m(3) k(2) by (auto simp: only_tables_def un empty t1) (simp_all add: s1)
      moreover have "table_frames (vmm_unmap_page v s) = table_frames s - {table_frame ?d s}"
        using k(7) m(5) by (simp add: un empty t1)
      moreover have "table_frame ?d s \<in> table_frames s" using True d by (auto simp: table_frames_def)
      ultimately show ?thesis
        using m(2,4) k(1,3) by (auto simp: un empty t1 intro!: exI [of _ "{table_frame ?d s}"])
    qed
  qed
  then show "vmm_inv (vmm_unmap_page v s)" "only_tables s (vmm_unmap_page v s)"
    "dir_index w < 1023 \<Longrightarrow> pte_at w (vmm_unmap_page v s) = (if same_page w v then 0 else pte_at w s)"
    "\<exists>F \<subseteq> table_frames s. owned (vmm_unmap_page v s) = owned s - F \<and>
      table_frames (vmm_unmap_page v s) = table_frames s - F"
    by blast+
qed

section \<open>The address space as an interface\<close>

text \<open>What a client of paging relies on: an address space is a function from pages to entries that
  a successful map updates at one page, a failed map leaves alone, and an unmap clears at one page.\<close>

locale address_space =
  fixes map_pg :: "u32 \<Rightarrow> u32 \<Rightarrow> u32 \<Rightarrow> 's \<Rightarrow> bool \<times> 's"
    and unmap_pg :: "u32 \<Rightarrow> 's \<Rightarrow> 's"
    and entry :: "u32 \<Rightarrow> 's \<Rightarrow> u32"
    and inv :: "'s \<Rightarrow> bool"
    and mappable :: "u32 \<Rightarrow> bool"
    and page_eq :: "u32 \<Rightarrow> u32 \<Rightarrow> bool"
    and entry_of :: "u32 \<Rightarrow> u32 \<Rightarrow> u32"
  assumes inv_map: "inv s \<Longrightarrow> mappable v \<Longrightarrow> inv (snd (map_pg v p fl s))"
    and inv_unmap: "inv s \<Longrightarrow> mappable v \<Longrightarrow> inv (unmap_pg v s)"
    and entry_map: "inv s \<Longrightarrow> mappable v \<Longrightarrow> mappable w \<Longrightarrow> fst (map_pg v p fl s) \<Longrightarrow>
        entry w (snd (map_pg v p fl s)) = (if page_eq w v then entry_of p fl else entry w s)"
    and map_fails: "inv s \<Longrightarrow> mappable v \<Longrightarrow> \<not> fst (map_pg v p fl s) \<Longrightarrow> snd (map_pg v p fl s) = s"
    and entry_unmap: "inv s \<Longrightarrow> mappable v \<Longrightarrow> mappable w \<Longrightarrow>
        entry w (unmap_pg v s) = (if page_eq w v then 0 else entry w s)"
    and page_eq_refl: "page_eq v v"
begin

text \<open>Mapping a page and unmapping it again leaves every other page as it was.\<close>

lemma map_unmap:
  assumes "inv s" and "mappable v" and "mappable w"
  shows "entry w (unmap_pg v (snd (map_pg v p fl s))) = (if page_eq w v then 0 else entry w s)"
  using assms by (cases "fst (map_pg v p fl s)") (simp_all add: entry_unmap inv_map entry_map map_fails)

text \<open>The entries after two successful maps of different pages do not depend on their order.\<close>

lemma map_commutes:
  assumes "inv s" and "mappable v" and "mappable v'" and "mappable w"
    and "\<not> (page_eq w v \<and> page_eq w v')"
    and "fst (map_pg v p fl s)" and "fst (map_pg v' p' fl' (snd (map_pg v p fl s)))"
    and "fst (map_pg v' p' fl' s)" and "fst (map_pg v p fl (snd (map_pg v' p' fl' s)))"
  shows "entry w (snd (map_pg v' p' fl' (snd (map_pg v p fl s)))) =
     entry w (snd (map_pg v p fl (snd (map_pg v' p' fl' s))))"
  using assms by (auto simp: entry_map inv_map)

lemma inv_unmaps: "inv s \<Longrightarrow> (\<And>v. v \<in> set vs \<Longrightarrow> mappable v) \<Longrightarrow> inv (fold unmap_pg vs s)"
  by (induction vs arbitrary: s) (auto intro: inv_unmap)

lemma entry_unmaps:
  "inv s \<Longrightarrow> (\<And>v. v \<in> set vs \<Longrightarrow> mappable v) \<Longrightarrow> mappable w \<Longrightarrow>
     entry w (fold unmap_pg vs s) = (if list_ex (page_eq w) vs then 0 else entry w s)"
  by (induction vs arbitrary: s) (auto simp: entry_unmap inv_unmap)

end

definition mappable :: "u32 \<Rightarrow> bool" where
  "mappable v \<longleftrightarrow> dir_index v < 1023"

definition page_entry :: "u32 \<Rightarrow> u32 \<Rightarrow> u32" where
  "page_entry phys flags = (phys AND NOT PAGE_FLAGS) OR PAGE_PRESENT OR flags"

interpretation vmm: address_space vmm_map_page vmm_unmap_page pte_at vmm_inv mappable same_page page_entry
proof unfold_locales
  fix s :: "'a vmm_scheme" and v w p fl
  assume inv: "vmm_inv s" and v: "mappable v"
  then have d: "dir_index v < 1023" by (simp add: mappable_def)
  obtain ok and s' :: "'a vmm_scheme" where m: "vmm_map_page v p fl s = (ok, s')" by fastforce
  show "vmm_inv (snd (vmm_map_page v p fl s))"
    using inv d m by (cases rule: vmm_map_page_cases) (simp_all add: inv m)
  show "snd (vmm_map_page v p fl s) = s" if "\<not> fst (vmm_map_page v p fl s)"
    using inv d m by (cases rule: vmm_map_page_cases) (use that m in simp_all)
  show "vmm_inv (vmm_unmap_page v s)" using inv d by (rule vmm_unmap_page_result(1))
  assume w: "mappable w"
  show "pte_at w (snd (vmm_map_page v p fl s)) = (if same_page w v then page_entry p fl else pte_at w s)"
    if "fst (vmm_map_page v p fl s)"
    using inv d m by (cases rule: vmm_map_page_cases) (use that w m in \<open>simp_all add: page_entry_def mappable_def\<close>)
  show "pte_at w (vmm_unmap_page v s) = (if same_page w v then 0 else pte_at w s)"
    using inv d w by (simp add: vmm_unmap_page_result(3) mappable_def)
qed simp

text \<open>The frame allocator may run beside the tables: an allocation, or a free of a frame that is
  neither the directory nor a table, keeps them sound.\<close>

lemma pde_cong: "mem t = mem s \<Longrightarrow> directory t = directory s \<Longrightarrow> pde d t = pde d s"
  by (simp add: pde_def)

lemma same_tables:
  assumes "mem t = mem s" and "directory t = directory s"
  shows "has_table d t = has_table d s" "table_frame d t = table_frame d s" "pte_at v t = pte_at v s"
  using pde_cong [OF assms] assms by (simp_all add: has_table_def table_frame_def pte_at_def)

lemma vmm_inv_cong:
  assumes "mem t = mem s" and "directory t = directory s" and "halted t = halted s" and "pmm_inv t"
    and "vmm_inv s" and "directory s \<in> owned t"
    and "\<And>d. d < 1023 \<Longrightarrow> has_table d s \<Longrightarrow> table_frame d s \<in> owned t"
  shows "vmm_inv t"
  using assms by (auto simp: vmm_inv_def same_tables [OF assms(1,2)] pde_cong [OF assms(1,2)])

lemma owned_alloc:
  assumes "pmm_inv s" and "pmm_alloc_block s = (a, t)"
  shows "owned t = (if a = 0 then owned s else insert a (owned s))"
    and "a \<noteq> 0 \<Longrightarrow> a \<in> frames_ram s \<and> a \<notin> frames_used s \<and> a \<notin> owned s"
proof -
  have t: "t = snd (pmm_alloc_block s)" using assms(2) by simp
  show "owned t = (if a = 0 then owned s else insert a (owned s))"
  proof (cases "a = 0")
    case True
    then show ?thesis using pmm.alloc_full [OF assms(1)] assms(2) by auto
  next
    case False
    then show ?thesis
      using pmm.alloc_frame [OF assms False] pmm.alloc_not_pinned [OF assms False] pmm.alloc_const [OF assms(1)]
      by (auto simp: owned_def t)
  qed
  show "a \<noteq> 0 \<Longrightarrow> a \<in> frames_ram s \<and> a \<notin> frames_used s \<and> a \<notin> owned s"
    using pmm.alloc_frame [OF assms] by (auto simp: owned_def)
qed

lemma owned_free: "pmm_inv s \<Longrightarrow> owned (pmm_free_block a s) = owned s - {a}"
  using pmm.release_ok [of s a] pmm.release_refused [of s a] pmm.release_const [of s a]
  by (cases "a \<in> owned s") (auto simp: owned_def)

lemma vmm_inv_alloc [kinv]:
  fixes s :: "'a vmm_scheme"
  assumes "vmm_inv s"
  shows "vmm_inv (snd (pmm_alloc_block s))"
proof (rule vmm_inv_cong [OF _ _ _ _ assms])
  obtain a and t :: "'a vmm_scheme" where a: "pmm_alloc_block s = (a, t)" by fastforce
  have p: "pmm_inv s" using assms by (simp add: vmm_inv_def)
  have o: "owned s \<subseteq> owned (snd (pmm_alloc_block s))" using owned_alloc(1) [OF p a] by (auto simp: a)
  show "pmm_inv (snd (pmm_alloc_block s))" by (rule pmm.inv_alloc [OF p])
  show "directory s \<in> owned (snd (pmm_alloc_block s))" using assms o by (auto simp: vmm_inv_def)
  show "table_frame d s \<in> owned (snd (pmm_alloc_block s))" if "d < 1023" "has_table d s" for d
    using that assms o by (auto simp: vmm_inv_def)
qed simp_all

lemma vmm_inv_free [kinv]:
  fixes s :: "'a vmm_scheme"
  assumes "vmm_inv s" and "a \<notin> table_frames s"
  shows "vmm_inv (pmm_free_block a s)"
proof (rule vmm_inv_cong [OF _ _ _ _ assms(1)])
  have p: "pmm_inv s" using assms by (simp add: vmm_inv_def)
  show "pmm_inv (pmm_free_block a s)" by (rule pmm.inv_release [OF p])
  show "directory s \<in> owned (pmm_free_block a s)"
    using assms by (auto simp: vmm_inv_def owned_free [OF p] table_frames_def)
  show "table_frame d s \<in> owned (pmm_free_block a s)" if "d < 1023" "has_table d s" for d
    using that assms by (auto simp: vmm_inv_def owned_free [OF p] table_frames_def)
qed simp_all

section \<open>Setup\<close>

lemma paging_on_upd [simp]:
  "pde d (paging_on_update f s) = pde d s" "has_table d (paging_on_update f s) = has_table d s"
  "table_frame d (paging_on_update f s) = table_frame d s" "pte_at v (paging_on_update f s) = pte_at v s"
  "owned (paging_on_update f s) = owned s"
  by (simp_all add: pde_def has_table_def table_frame_def pte_at_def owned_def)

lemma vmm_inv_paging_on [simp]: "vmm_inv (paging_on_update f s) = vmm_inv s"
  by (simp add: vmm_inv_def)

text \<open>Every mapping below the recursive window is the identity.\<close>

definition identity_mapped :: "'a vmm_scheme \<Rightarrow> bool" where
  "identity_mapped s \<longleftrightarrow>
     (\<forall>w. mappable w \<and> pte_at w s AND PAGE_PRESENT \<noteq> 0 \<longrightarrow> pte_at w s AND NOT PAGE_FLAGS = w AND NOT PAGE_FLAGS)"

lemma mappable_below: "v < 0xFFC00000 \<Longrightarrow> mappable v"
  by (simp add: mappable_def dir_index_eq word_less_nat_alt div_less_iff_less_mult)

lemma map_identity:
  assumes "vmm_inv s" and "identity_mapped s" and "mappable v"
  shows "vmm_inv (snd (vmm_map_page v v PAGE_WRITABLE s))"
    and "identity_mapped (snd (vmm_map_page v v PAGE_WRITABLE s))"
proof -
  show "vmm_inv (snd (vmm_map_page v v PAGE_WRITABLE s))" using assms by (intro vmm.inv_map)
  have "page_entry v PAGE_WRITABLE AND NOT PAGE_FLAGS = v AND NOT PAGE_FLAGS"
    by (simp add: page_entry_def bit.conj_disj_distrib2 entry_aligned)
  then show "identity_mapped (snd (vmm_map_page v v PAGE_WRITABLE s))"
    using assms vmm.entry_map [OF assms(1,3)] vmm.map_fails [OF assms(1,3)]
    by (cases "fst (vmm_map_page v v PAGE_WRITABLE s)") (auto simp: identity_mapped_def same_page_def)
qed

lemma identity_map_ends:
  assumes "vmm_inv s" and "identity_mapped s" and "stop \<le> 0xFFC00000"
  shows "\<exists>s'. identity_map addr stop s = Some s' \<and> vmm_inv s' \<and> identity_mapped s'"
  using assms(1,2)
proof (induction "unat stop - unat addr" arbitrary: addr s rule: less_induct)
  case less
  show ?case
  proof (cases "addr < stop")
    case False
    then show ?thesis using less.prems by (subst identity_map.simps) simp
  next
    case True
    have "unat stop \<le> 0xFFC00000" using assms(3) by (simp add: word_le_nat_alt)
    moreover have lt: "unat addr < unat stop" using True by (simp add: word_less_nat_alt)
    ultimately have "unat (addr + PAGE_SIZE) = unat addr + 4096"
      by (subst unat_add_u32) (simp_all add: PAGE_SIZE_def)
    then have "unat stop - unat (addr + PAGE_SIZE) < unat stop - unat addr" using lt by simp
    moreover have "mappable addr" using True assms(3) by (intro mappable_below) (rule less_le_trans)
    ultimately show ?thesis
      using less.hyps [of "addr + PAGE_SIZE" "snd (vmm_map_page addr addr PAGE_WRITABLE s)"]
        map_identity [OF less.prems] True
      by (subst identity_map.simps) simp
  qed
qed

lemma fold_clear_dir:
  "fold (\<lambda>i. set_pde i 0) [0..<n] s =
     s\<lparr>mem := (mem s)(directory s := (\<lambda>j. if j < n then 0 else mem s (directory s) j))\<rparr>"
proof (induction n)
  case (Suc n)
  then show ?case
    by (auto simp: set_pde_def write_mem_def fun_eq_iff less_Suc_eq
        intro!: arg_cong2 [where f = "\<lambda>x y. mem_update (\<lambda>_. x) y"])
qed (simp add: fun_upd_idem)

text \<open>A directory with nothing but the recursive slot.\<close>

lemma new_directory:
  fixes s :: "'a vmm_scheme"
  assumes "pmm_inv s" and "\<not> halted s" and a: "pmm_alloc_block s = (dir, s1)" and nz: "dir \<noteq> 0"
  defines "s4 \<equiv> set_pde RECURSIVE_SLOT (dir OR PAGE_PRESENT OR PAGE_WRITABLE)
      (fold (\<lambda>i. set_pde i 0) [0..<TABLES_PER_DIR] (s1\<lparr>directory := dir\<rparr>))"
  shows "vmm_inv s4" and "identity_mapped s4"
proof -
  have s1: "s1 = snd (pmm_alloc_block s)" using a by simp
  have "dir \<in> owned s1"
    using pmm.alloc_frame [OF assms(1) a nz] pmm.alloc_not_pinned [OF assms(1) a nz]
      pmm.alloc_const [OF assms(1)] by (simp add: owned_def s1)
  then have own: "dir \<in> owned s4"
    by (simp add: s4_def fold_clear_dir) (simp add: owned_def)
  have p: "pde d s4 = (if d = 1023 then dir OR PAGE_PRESENT OR PAGE_WRITABLE else 0)" if "d < 1024" for d
    using that by (simp add: s4_def fold_clear_dir pde_set_pde RECURSIVE_SLOT_def TABLES_PER_DIR_def)
      (simp add: pde_def)
  then have nt: "\<not> has_table d s4" if "d < 1023" for d using that by (simp add: has_table_def)
  have "pmm_inv s4" "directory s4 = dir" "\<not> halted s4"
    using pmm.inv_alloc [OF assms(1)] assms(2) by (simp_all add: s4_def fold_clear_dir s1)
  then show "vmm_inv s4" using own p nt by (auto simp: vmm_inv_def inj_on_def)
  have "pte_at w s4 = 0" if "mappable w" for w
    using that nt by (simp add: mappable_def pte_at_def)
  then show "identity_mapped s4" by (auto simp: identity_mapped_def)
qed

lemma page_split: "(v AND NOT PAGE_FLAGS) OR (v AND PAGE_FLAGS) = (v :: u32)"
  by (auto simp: bit_eq_iff bit_simps)

lemma vmm_init_result:
  fixes s :: "'a vmm_scheme"
  assumes "pmm_inv s" and "\<not> halted s" and "fst (pmm_alloc_block s) \<noteq> 0"
  obtains s' where "vmm_init s = Some s'" and "vmm_inv s'" and "paging_on s'" and "identity_mapped s'"
    and "\<And>v. same_page v 0 \<Longrightarrow> pte_at v s' = 0"
proof -
  obtain dir and s1 :: "'a vmm_scheme" where a: "pmm_alloc_block s = (dir, s1)" by fastforce
  then have nz: "dir \<noteq> 0" using assms(3) by simp
  note n = new_directory [OF assms(1,2) a nz]
  obtain s5 where s5: "identity_map 0 IDENTITY_MAP_END (set_pde RECURSIVE_SLOT (dir OR PAGE_PRESENT OR PAGE_WRITABLE)
      (fold (\<lambda>i. set_pde i 0) [0..<TABLES_PER_DIR] (s1\<lparr>directory := dir\<rparr>))) = Some s5"
      "vmm_inv s5" "identity_mapped s5"
    using identity_map_ends [OF n, where addr = 0 and stop = IDENTITY_MAP_END]
    by (auto simp: IDENTITY_MAP_END_def)
  obtain s6 where s6: "identity_map FRAMEBUFFER_START FRAMEBUFFER_END s5 = Some s6" "vmm_inv s6" "identity_mapped s6"
    using identity_map_ends [OF s5(2,3), where addr = FRAMEBUFFER_START and stop = FRAMEBUFFER_END]
    by (auto simp: FRAMEBUFFER_END_def)
  define s' where "s' = (vmm_unmap_page 0 s6)\<lparr>paging_on := True\<rparr>"
  have m0: "mappable 0" by (simp add: mappable_below)
  have "vmm_inv s'" "paging_on s'"
    using vmm.inv_unmap [OF s6(2) m0] by (simp_all add: s'_def)
  moreover have pte: "pte_at v s' = (if same_page v 0 then 0 else pte_at v s6)" if "mappable v" for v
    using vmm.entry_unmap [OF s6(2) m0 that] by (simp add: s'_def)
  then have "identity_mapped s'" using s6(3) by (auto simp: identity_mapped_def)
  moreover have "mappable v" if "same_page v 0" for v
    using that by (simp add: mappable_def same_page_iff dir_index_eq)
  then have "pte_at v s' = 0" if "same_page v 0" for v using that pte by simp
  moreover have "vmm_init s = Some s'"
    by (simp add: vmm_init_def a nz Let_def s5(1) s6(1) def_null_page_protect_def s'_def)
  ultimately show thesis using that by blast
qed

section \<open>Properties\<close>

text \<open>A machine with an empty page directory in its third frame and paging on, for the witnesses.\<close>

definition small_vmm :: vmm where
  "small_vmm = pmm.extend (small_ram\<lparr>bitmap := (\<lambda>i. if i = 0 then 7 else 0), used_frames := 3\<rparr>)
     (vmm.fields 0x2000 True (\<lambda>f i. if f = 0x2000 \<and> i = 1023 then 0x2003 else 0) False)"

lemma small_vmm_fields [simp]:
  "bitmap small_vmm = (\<lambda>i. if i = 0 then 7 else 0)" "total_frames small_vmm = 16"
  "used_frames small_vmm = 3" "reserved small_vmm = (\<lambda>_. (0, 2))" "reserved_count small_vmm = 1"
  "directory small_vmm = 0x2000" "paging_on small_vmm" "\<not> halted small_vmm"
  "mem small_vmm = (\<lambda>f i. if f = 0x2000 \<and> i = 1023 then 0x2003 else 0)"
  by (simp_all add: small_vmm_def pmm.defs vmm.defs)

lemma small_vmm_used: "is_used f small_vmm \<longleftrightarrow> f < 3"
proof -
  have "(bit (if f div 8 = 0 then 7 else 0 :: u8) (f mod 8)) \<longleftrightarrow> f < 3"
  proof (cases "f div 8 = 0")
    case True
    then have "f mod 8 = f" by simp
    moreover have "mask 3 = (7 :: u8)" by (simp add: mask_eq_exp_minus_1)
    ultimately show ?thesis using True bit_mask_u8 [of 3 f] by fastforce
  qed auto
  then show ?thesis by (simp add: is_used_bit)
qed

lemma small_vmm_inv: "vmm_inv small_vmm"
proof -
  have "{f. f < 16 \<and> f < 3} = {..<3 :: nat}" by auto
  then have "pmm_inv small_vmm"
    by (auto simp: pmm_inv_def pmm_is_reserved_iff small_vmm_used word_less_nat_alt)
  moreover have "0x2000 \<in> owned small_vmm"
    by (simp add: owned_def frames_ram_def frames_used_def frames_pinned_def PAGE_SIZE_def small_vmm_used
        pmm_is_reserved_iff)
  ultimately show ?thesis
    by (simp add: vmm_inv_def pde_def has_table_def PAGE_PRESENT_def PAGE_WRITABLE_def)
qed

lemma page_entry_walk:
  assumes "vmm_inv s" and "pte_at w s = page_entry p fl" and "fl AND NOT PAGE_FLAGS = 0"
  shows "fst (vmm_walk w s)" and "w_physical (snd (vmm_walk w s)) = (p AND NOT PAGE_FLAGS) OR (w AND PAGE_FLAGS)"
proof -
  show f: "fst (vmm_walk w s)"
    by (simp add: vmm_walk_pte(1) [OF assms(1)] assms(2) page_entry_def or.assoc)
  have "page_entry p fl AND NOT PAGE_FLAGS = p AND NOT PAGE_FLAGS"
    using assms(3) by (simp add: page_entry_def bit.conj_disj_distrib2 entry_aligned)
  then show "w_physical (snd (vmm_walk w s)) = (p AND NOT PAGE_FLAGS) OR (w AND PAGE_FLAGS)"
    using vmm_walk_pte(2) [OF assms(1) f] assms(2) by simp
qed

lemma same_entry_walk:
  assumes "vmm_inv s" and "vmm_inv s'" and "pte_at w s' = pte_at w s"
  shows "fst (vmm_walk w s') = fst (vmm_walk w s)"
    and "fst (vmm_walk w s) \<Longrightarrow> w_physical (snd (vmm_walk w s')) = w_physical (snd (vmm_walk w s))"
  using assms vmm_walk_pte by metis+

text \<open>C1: mapping a page changes the translation of that page and of no other. After a successful
  \<open>vmm_map_page\<close> every address of the page translates into the given frame, and every address of
  another page translates as before, even when a page table had to be created; the tables stay
  distinct frames in use.\<close>

theorem vmm_map_one_page:
  assumes "vmm_inv s" and "mappable v" and "mappable w" and "flags AND NOT PAGE_FLAGS = 0"
    and "vmm_map_page v phys flags s = (True, s')"
  shows "vmm_inv s' \<and>
     (if same_page w v
      then fst (vmm_walk w s') \<and>
           w_physical (snd (vmm_walk w s')) = (phys AND NOT PAGE_FLAGS) OR (w AND PAGE_FLAGS)
      else fst (vmm_walk w s') = fst (vmm_walk w s) \<and>
           (fst (vmm_walk w s) \<longrightarrow> w_physical (snd (vmm_walk w s')) = w_physical (snd (vmm_walk w s))))"
proof -
  have inv': "vmm_inv s'" using vmm.inv_map [OF assms(1,2), of phys flags] assms(5) by simp
  have e: "pte_at w s' = (if same_page w v then page_entry phys flags else pte_at w s)"
    using vmm.entry_map [OF assms(1,2,3), of phys flags] assms(5) by simp
  show ?thesis
    using inv' e page_entry_walk [OF inv' _ assms(4)] same_entry_walk [OF assms(1) inv'] by simp
qed

theorem vmm_map_one_page_witness:
  "fst (vmm_walk 0x60000010 (snd (vmm_map_page 0x60000000 0x5000 (PAGE_WRITABLE OR PAGE_USER) small_vmm))) \<and>
   w_physical (snd (vmm_walk 0x60000010
     (snd (vmm_map_page 0x60000000 0x5000 (PAGE_WRITABLE OR PAGE_USER) small_vmm)))) = 0x5010"
proof -
  let ?r = "vmm_map_page 0x60000000 0x5000 (PAGE_WRITABLE OR PAGE_USER) small_vmm"
  have "\<not> frames_ram small_vmm \<subseteq> frames_used small_vmm"
  proof -
    have "0x3000 \<in> frames_ram small_vmm - frames_used small_vmm"
      by (simp add: frames_ram_def frames_used_def PAGE_SIZE_def small_vmm_used)
    then show ?thesis by blast
  qed
  moreover have m: "mappable 0x60000000" "mappable 0x60000010" by (simp_all add: mappable_below)
  then have "dir_index 0x60000000 < 1023" by (simp add: mappable_def)
  ultimately have "fst ?r"
    using vmm_map_page_cases [OF small_vmm_inv _ prod.collapse [symmetric]] by metis
  then have r: "?r = (True, snd ?r)" by (simp add: prod_eq_iff)
  have "same_page 0x60000010 0x60000000" by (simp add: same_page_def PAGE_FLAGS_def)
  then show ?thesis
    using vmm_map_one_page [OF small_vmm_inv m _ r] by (simp add: bit.conj_disj_distrib2) (simp add: PAGE_FLAGS_def)
qed

text \<open>C4: unmapping a page removes the translation of that page and of no other, also when its
  page table becomes empty and its frame is given back.\<close>

theorem vmm_unmap_one_page:
  assumes "vmm_inv s" and "mappable v" and "mappable w"
  shows "vmm_inv (vmm_unmap_page v s) \<and>
     (if same_page w v then \<not> fst (vmm_walk w (vmm_unmap_page v s))
      else fst (vmm_walk w (vmm_unmap_page v s)) = fst (vmm_walk w s) \<and>
           (fst (vmm_walk w s) \<longrightarrow>
              w_physical (snd (vmm_walk w (vmm_unmap_page v s))) = w_physical (snd (vmm_walk w s))))"
proof -
  have inv': "vmm_inv (vmm_unmap_page v s)" using assms by (intro vmm.inv_unmap)
  show ?thesis
    using inv' vmm.entry_unmap [OF assms] same_entry_walk [OF assms(1) inv']
    by (simp add: vmm_walk_pte(1) [OF inv'])
qed

theorem vmm_unmap_one_page_witness:
  "\<not> fst (vmm_walk 0x1234 (vmm_unmap_page 0x1000 small_vmm))"
proof -
  have "mappable 0x1000" "mappable 0x1234" by (simp_all add: mappable_below)
  moreover have "same_page 0x1234 0x1000" by (simp add: same_page_def PAGE_FLAGS_def)
  ultimately show ?thesis using vmm_unmap_one_page [OF small_vmm_inv] by simp
qed

text \<open>C32: the recursive slot works. With paging on, the processor translates the address
  \<open>PAGE_TABLES_VIRT + d * PAGE_SIZE\<close> to the frame of page table \<open>d\<close>, wherever that frame lies, so the
  kernel's own writes to a table never fault and reach that table only.\<close>

theorem vmm_recursive_slot:
  assumes "vmm_inv s" and "paging_on s" and "d < TABLES_PER_DIR" and "pde d s AND PAGE_PRESENT \<noteq> 0"
  shows "mmu (PAGE_TABLES_VIRT + of_nat d * PAGE_SIZE) s = Some (pde d s AND NOT PAGE_FLAGS) \<and>
     poke (table_at d s) i x s = write_mem (pde d s AND NOT PAGE_FLAGS) i x s"
proof -
  have h: "d < 1024" "has_table d s" using assms(3,4) by (simp_all add: TABLES_PER_DIR_def has_table_def)
  have "table_at d s = PAGE_TABLES_VIRT + of_nat d * PAGE_SIZE" using assms(2) by (simp add: table_at_def)
  then show ?thesis
    using table_at_resolves [OF assms(1) h] poke_table [OF assms(1) h] by (simp add: table_frame_def)
qed

theorem vmm_recursive_slot_witness: "mmu 0xFFFFF000 small_vmm = Some 0x2000"
  using vmm_recursive_slot [OF small_vmm_inv, of 1023]
  by (simp add: pde_def TABLES_PER_DIR_def PAGE_PRESENT_def PAGE_TABLES_VIRT_def PAGE_SIZE_def PAGE_FLAGS_def)

text \<open>C26: setup ends, with paging on, sound tables, page 0 unmapped (the check of defence null_page
  passes) and every address that is mapped, outside the window of the page tables, translated to
  itself.\<close>

theorem vmm_init_ok:
  assumes "pmm_inv s" and "\<not> halted s" and "fst (pmm_alloc_block s) \<noteq> 0"
  shows "\<exists>s'. vmm_init s = Some s' \<and> vmm_inv s' \<and> paging_on s' \<and> def_null_page_ok s' \<and>
     (\<forall>v. mappable v \<and> fst (vmm_walk v s') \<longrightarrow> w_physical (snd (vmm_walk v s')) = v)"
proof -
  obtain s' where s': "vmm_init s = Some s'" "vmm_inv s'" "paging_on s'" "identity_mapped s'"
      "\<And>v. same_page v 0 \<Longrightarrow> pte_at v s' = 0"
    using vmm_init_result [OF assms] by blast
  have "w_physical (snd (vmm_walk v s')) = v" if "mappable v" "fst (vmm_walk v s')" for v
    using that vmm_walk_pte [OF s'(2)] s'(4) page_split [of v] by (simp add: identity_mapped_def)
  moreover have "same_page 0 0" "same_page (NULL_PAGE_END - 1) 0"
    by (simp_all add: same_page_def NULL_PAGE_END_def PAGE_FLAGS_def)
  then have "def_null_page_ok s'"
    using s'(5) by (simp add: def_null_page_ok_def vmm_walk_pte(1) [OF s'(2)])
  ultimately show ?thesis using s' by blast
qed

theorem vmm_init_ok_witness:
  "\<exists>s'. vmm_init small_vmm = Some s' \<and> vmm_inv s' \<and> paging_on s' \<and> def_null_page_ok s' \<and>
     (\<forall>v. mappable v \<and> fst (vmm_walk v s') \<longrightarrow> w_physical (snd (vmm_walk v s')) = v)"
proof (rule vmm_init_ok)
  show p: "pmm_inv small_vmm" using small_vmm_inv by (simp add: vmm_inv_def)
  have "find (\<lambda>f. \<not> is_used f small_vmm) [0..<16] = Some 3"
    by (simp add: small_vmm_used upt_conv_Cons)
  then show "fst (pmm_alloc_block small_vmm) \<noteq> 0"
    using pmm_alloc_block_eq [OF p] by (simp add: take_frame_def PAGE_SIZE_def)
qed simp

end
