(* ===== verification/Kheap.thy ===== *)
theory Kheap
  imports Vmm
begin

text \<open>
  The kernel heap (memory_management/core/kheap/kheap.c) and its defences heap_canary and
  heap_guard. The heap's pages are words at virtual addresses, \<open>heap\<close>; a block header is four words
  of it, so data a program writes over a header, or bytes that look like one, are ordinary values of
  the model. \<open>heap_start\<close> is 0 until \<open>kheap_init\<close> has mapped the area.

  The abstraction is the list of blocks, each its size and whether it is free, that cover the area
  from end to end (\<open>chain\<close>). \<open>kmalloc\<close> refines first fit with splitting on that list, \<open>kfree\<close>
  refines marking a block free and merging neighbours, whatever pointer it is given and whatever the
  data bytes are, and both loops end on every memory, however badly it is overwritten.
\<close>

definition KHEAP_START :: u32 where "KHEAP_START = 0x01000000"
definition KHEAP_SIZE :: u32 where "KHEAP_SIZE = 0x00800000"
definition KHEAP_MAGIC :: u32 where "KHEAP_MAGIC = 0x14159265"
definition ALIGN :: u32 where "ALIGN = 8"
definition MIN_SPLIT :: u32 where "MIN_SPLIT = 16"
definition HEADER_SIZE :: u32 where "HEADER_SIZE = 16"

lemmas kheap_consts = KHEAP_START_def KHEAP_SIZE_def KHEAP_MAGIC_def ALIGN_def MIN_SPLIT_def HEADER_SIZE_def

record kheap = vmm +
  heap_start :: u32
  heap :: "u32 \<Rightarrow> u32"

section \<open>Headers\<close>

type_synonym words = "u32 \<Rightarrow> u32"

definition h_magic :: "words \<Rightarrow> u32 \<Rightarrow> u32" where "h_magic h b = h b"
definition h_size :: "words \<Rightarrow> u32 \<Rightarrow> u32" where "h_size h b = h (b + 4)"
definition h_is_free :: "words \<Rightarrow> u32 \<Rightarrow> u32" where "h_is_free h b = h (b + 8)"
definition h_next :: "words \<Rightarrow> u32 \<Rightarrow> u32" where "h_next h b = h (b + 12)"

definition write_header :: "u32 \<Rightarrow> u32 \<Rightarrow> u32 \<Rightarrow> u32 \<Rightarrow> u32 \<Rightarrow> words \<Rightarrow> words" where
  "write_header b magic sz is_free nxt h =
     h(b := magic, b + 4 := sz, b + 8 := is_free, b + 12 := nxt)"

definition round_up :: "u32 \<Rightarrow> u32" where
  "round_up n = (n + ALIGN - 1) AND NOT (ALIGN - 1)"

definition data_of :: "u32 \<Rightarrow> u32" where
  "data_of b = b + HEADER_SIZE"

section \<open>Defences heap_canary and heap_guard\<close>

definition header_intact :: "words \<Rightarrow> u32 \<Rightarrow> bool" where
  "header_intact h b =
     (let nxt = h_next h b
      in if h_magic h b \<noteq> KHEAP_MAGIC then False
         else if nxt = 0 then True
         else nxt > b \<and> nxt < KHEAP_START + KHEAP_SIZE)"

definition def_heap_block_ok :: "u32 \<Rightarrow> 'a kheap_scheme \<Rightarrow> bool \<times> 'a kheap_scheme" where
  "def_heap_block_ok b s =
     (if header_intact (heap s) b then (True, s)
      else (False, audit_log ''heap_canary'' ''heap block header overwritten: walk stopped'' s))"

definition plausible_block :: "u32 \<Rightarrow> bool" where
  "plausible_block p =
     (if p < KHEAP_START + HEADER_SIZE then False
      else if p \<ge> KHEAP_START + KHEAP_SIZE then False
      else p mod 8 = 0)"

definition header_allows :: "words \<Rightarrow> u32 \<Rightarrow> bool" where
  "header_allows h b \<longleftrightarrow> h_magic h b = KHEAP_MAGIC \<and> h_is_free h b = 0"

definition def_kfree_ok :: "u32 \<Rightarrow> 'a kheap_scheme \<Rightarrow> bool \<times> 'a kheap_scheme" where
  "def_kfree_ok p s =
     (if \<not> plausible_block p then
        (False, audit_log ''heap_guard'' ''kfree refused: pointer is not inside the heap'' s)
      else if \<not> header_allows (heap s) (p - HEADER_SIZE) then
        (False, audit_log ''heap_guard'' ''kfree refused: not a block start, or already freed'' s)
      else (True, s))"

section \<open>Setup\<close>



section \<open>kmalloc\<close>

text \<open>What happens to the block that was found: split if the rest can hold a block, then used.\<close>

definition take_block :: "u32 \<Rightarrow> u32 \<Rightarrow> words \<Rightarrow> words" where
  "take_block sz b h =
     (let h1 = (if h_size h b \<ge> sz + HEADER_SIZE + MIN_SPLIT
                then let rest = data_of b + sz;
                         h' = write_header rest KHEAP_MAGIC (h_size h b - sz - HEADER_SIZE) 1 (h_next h b) h
                     in h'(b + 4 := sz, b + 12 := rest)
                else h)
      in h1(b + 8 := 0))"

function kmalloc_loop :: "u32 \<Rightarrow> u32 \<Rightarrow> 'a kheap_scheme \<Rightarrow> u32 \<times> 'a kheap_scheme" where
  "kmalloc_loop sz b s =
     (if b = 0 then (0, s)
      else if \<not> header_intact (heap s) b then (0, snd (def_heap_block_ok b s))
      else if h_is_free (heap s) b = 0 \<or> h_size (heap s) b < sz then kmalloc_loop sz (h_next (heap s) b) s
      else (data_of b, s\<lparr>heap := take_block sz b (heap s)\<rparr>))"
  by auto

termination
proof (relation "measure (\<lambda>(sz, b, s). if b = 0 then 0 else 4294967296 - unat b)")
  fix sz b :: u32 and s :: "'a kheap_scheme"
  assume "b \<noteq> 0" and "\<not> \<not> header_intact (heap s) b"
  then have "h_next (heap s) b = 0 \<or> unat b < unat (h_next (heap s) b)"
    by (auto simp: header_intact_def Let_def word_less_nat_alt split: if_splits)
  then show "((sz, h_next (heap s) b, s), sz, b, s) \<in> measure (\<lambda>(sz, b, s). if b = 0 then 0 else 4294967296 - unat b)"
    using \<open>b \<noteq> 0\<close> unat_less_p32 [of "h_next (heap s) b"] unat_less_p32 [of b] by (auto simp: diff_less_mono2)
qed simp

declare kmalloc_loop.simps [simp del]

definition kmalloc :: "u32 \<Rightarrow> 'a kheap_scheme \<Rightarrow> u32 \<times> 'a kheap_scheme" where
  "kmalloc sz s =
     (if sz = 0 \<or> sz > KHEAP_SIZE \<or> heap_start s = 0 then (0, s)
      else kmalloc_loop (round_up sz) (heap_start s) s)"

section \<open>kfree\<close>

text \<open>The loop that merges neighbouring free blocks; \<^const>\<open>None\<close> if it never ends.\<close>

partial_function (option) merge_loop :: "u32 \<Rightarrow> 'a kheap_scheme \<Rightarrow> 'a kheap_scheme option" where
  "merge_loop b s =
     (if b = 0 \<or> h_next (heap s) b = 0 then Some s
      else let nxt = h_next (heap s) b
           in if \<not> header_intact (heap s) nxt then Some (snd (def_heap_block_ok nxt s))
              else if h_is_free (heap s) b \<noteq> 0 \<and> h_is_free (heap s) nxt \<noteq> 0
              then let h = (heap s)(b + 4 := h_size (heap s) b + (HEADER_SIZE + h_size (heap s) nxt))
                   in merge_loop b (s\<lparr>heap := h(b + 12 := h_next h (h_next h b))\<rparr>)
              else merge_loop nxt s)"

text \<open>A loop that never ends runs with interrupts off, which stops the kernel for good.\<close>

definition kfree :: "u32 \<Rightarrow> 'a kheap_scheme \<Rightarrow> 'a kheap_scheme" where
  "kfree p s =
     (if p = 0 then s
      else case def_kfree_ok p s of (ok, s1) \<Rightarrow>
        if \<not> ok then s1
        else case merge_loop (heap_start s1) (s1\<lparr>heap := (heap s1)(p - HEADER_SIZE + 8 := 1)\<rparr>) of
               None \<Rightarrow> s1\<lparr>halted := True\<rparr>
             | Some s2 \<Rightarrow> s2)"

section \<open>Statistics\<close>

record kheap_stats_t =
  blocks_used :: u32
  blocks_free :: u32
  bytes_used :: u32
  bytes_free :: u32
  largest_free :: u32
  corrupted :: bool

definition count_block :: "u32 \<Rightarrow> words \<Rightarrow> kheap_stats_t \<Rightarrow> kheap_stats_t" where
  "count_block b h out =
     (if h_is_free h b \<noteq> 0
      then let out = out\<lparr>blocks_free := blocks_free out + 1, bytes_free := bytes_free out + h_size h b\<rparr>
           in if h_size h b > largest_free out then out\<lparr>largest_free := h_size h b\<rparr> else out
      else out\<lparr>blocks_used := blocks_used out + 1, bytes_used := bytes_used out + h_size h b\<rparr>)"

partial_function (option) stats_loop :: "u32 \<Rightarrow> words \<Rightarrow> kheap_stats_t \<Rightarrow> kheap_stats_t option" where
  "stats_loop b h out =
     (if b = 0 then Some out
      else if h_magic h b \<noteq> KHEAP_MAGIC then Some (out\<lparr>corrupted := True\<rparr>)
      else stats_loop (h_next h b) h (count_block b h out))"

definition kheap_get_stats :: "'a kheap_scheme \<Rightarrow> kheap_stats_t option" where
  "kheap_get_stats s = stats_loop (heap_start s) (heap s)
     \<lparr>blocks_used = 0, blocks_free = 0, bytes_used = 0, bytes_free = 0, largest_free = 0, corrupted = False\<rparr>"

section \<open>The block list\<close>

text \<open>A block is its size and whether it is free. \<open>seg h a bs\<close>: from address \<open>a\<close> on, memory holds the
  blocks \<open>bs\<close>, one after the other.\<close>

type_synonym block = "nat \<times> bool"

abbreviation KS :: nat where "KS \<equiv> 0x01000000"
abbreviation KE :: nat where "KE \<equiv> 0x01800000"

definition link :: "nat \<Rightarrow> u32" where
  "link e = (if e = KE then 0 else of_nat e)"

text \<open>Memory by natural addresses, so that address arithmetic stays free of wrap-around.\<close>

definition rd :: "words \<Rightarrow> nat \<Rightarrow> u32" where
  "rd h a = h (of_nat a)"

definition wr :: "words \<Rightarrow> nat \<Rightarrow> u32 \<Rightarrow> words" where
  "wr h a v = h(of_nat a := v)"

lemma rd_wr:
  "x < 4294967296 \<Longrightarrow> y < 4294967296 \<Longrightarrow> rd (wr h x v) y = (if y = x then v else rd h y)"
  by (simp add: rd_def wr_def of_nat_u32_inject)

lemma header_nat:
  "h_magic h (of_nat a) = rd h a" "h_size h (of_nat a) = rd h (a + 4)"
  "h_is_free h (of_nat a) = rd h (a + 8)" "h_next h (of_nat a) = rd h (a + 12)"
  "h(of_nat a := v) = wr h a v" "h(of_nat a + 4 := v) = wr h (a + 4) v"
  "h(of_nat a + 8 := v) = wr h (a + 8) v" "h(of_nat a + 12 := v) = wr h (a + 12) v"
  by (simp_all add: h_magic_def h_size_def h_is_free_def h_next_def rd_def wr_def)

definition block_at :: "words \<Rightarrow> nat \<Rightarrow> nat \<Rightarrow> bool \<Rightarrow> bool" where
  "block_at h a n f \<longleftrightarrow>
     rd h a = KHEAP_MAGIC \<and> rd h (a + 4) = of_nat n \<and> rd h (a + 8) = of_bool f \<and>
     rd h (a + 12) = link (a + 16 + n) \<and> 8 \<le> n \<and> n mod 8 = 0"

fun end_of :: "nat \<Rightarrow> block list \<Rightarrow> nat" where
  "end_of a [] = a"
| "end_of a ((n, f) # bs) = end_of (a + 16 + n) bs"

fun seg :: "words \<Rightarrow> nat \<Rightarrow> block list \<Rightarrow> bool" where
  "seg h a [] = True"
| "seg h a ((n, f) # bs) \<longleftrightarrow> block_at h a n f \<and> seg h (a + 16 + n) bs"

fun hdr_words :: "nat \<Rightarrow> block list \<Rightarrow> nat set" where
  "hdr_words a [] = {}"
| "hdr_words a ((n, f) # bs) = {a, a + 4, a + 8, a + 12} \<union> hdr_words (a + 16 + n) bs"

definition chain :: "words \<Rightarrow> block list \<Rightarrow> bool" where
  "chain h bs \<longleftrightarrow> seg h KS bs \<and> end_of KS bs = KE"

definition heap_rep :: "'a kheap_scheme \<Rightarrow> block list \<Rightarrow> bool" where
  "heap_rep s bs \<longleftrightarrow> heap_start s = KHEAP_START \<and> chain (heap s) bs"

lemma end_of_append [simp]: "end_of a (xs @ ys) = end_of (end_of a xs) ys"
  by (induction a xs rule: end_of.induct) auto

lemma seg_append [simp]: "seg h a (xs @ ys) \<longleftrightarrow> seg h a xs \<and> seg h (end_of a xs) ys"
  by (induction a xs rule: end_of.induct) auto

lemma end_of_ge: "a \<le> end_of a bs"
  by (induction a bs rule: end_of.induct) auto

lemma end_of_mod: "seg h a bs \<Longrightarrow> a mod 8 = 0 \<Longrightarrow> end_of a bs mod 8 = 0"
proof (induction a bs rule: end_of.induct)
  case (2 a n f bs)
  then show ?case by (simp add: block_at_def mod_add_eq [symmetric])
qed simp

lemma hdr_words_bounds: "w \<in> hdr_words a bs \<Longrightarrow> a \<le> w \<and> w < end_of a bs"
proof (induction a bs rule: end_of.induct)
  case (2 a n f bs)
  then show ?case using end_of_ge [of "a + 16 + n" bs] by fastforce
qed simp

lemma hdr_words_append: "hdr_words a (xs @ ys) = hdr_words a xs \<union> hdr_words (end_of a xs) ys"
  by (induction a xs rule: end_of.induct) auto

lemma seg_frame:
  "(\<And>w. w \<in> hdr_words a bs \<Longrightarrow> rd h' w = rd h w) \<Longrightarrow> seg h' a bs = seg h a bs"
  by (induction a bs rule: end_of.induct) (simp_all add: block_at_def)

text \<open>A word outside the headers can change without changing the block list.\<close>

lemma seg_wr:
  assumes "end_of a bs \<le> KE" and "x < 4294967296" and "x \<notin> hdr_words a bs"
  shows "seg (wr h x v) a bs = seg h a bs"
proof (rule seg_frame)
  fix w assume w: "w \<in> hdr_words a bs"
  then have "w < 4294967296" "w \<noteq> x" using hdr_words_bounds [OF w] assms by auto
  then show "rd (wr h x v) w = rd h w" using assms(2) by (simp add: rd_wr)
qed

lemma seg_wr_below: "end_of a bs \<le> KE \<Longrightarrow> x < a \<Longrightarrow> seg (wr h x v) a bs = seg h a bs"
  using end_of_ge [of a bs] hdr_words_bounds [of x a bs] by (intro seg_wr) auto

lemma seg_wr_above: "end_of a bs \<le> KE \<Longrightarrow> end_of a bs \<le> x \<Longrightarrow> x < 4294967296 \<Longrightarrow> seg (wr h x v) a bs = seg h a bs"
  using hdr_words_bounds [of x a bs] by (intro seg_wr) auto

section \<open>First fit\<close>

lemma round_up_nat:
  assumes "unat n \<le> 8388608"
  shows "unat (round_up n) = (unat n + 7) div 8 * 8"
proof -
  have m: "(ALIGN - 1 :: u32) = mask 3" by (simp add: ALIGN_def mask_eq_exp_minus_1)
  have "x AND NOT (mask 3) = push_bit 3 (drop_bit 3 (x :: u32))" for x
    by (auto simp: bit_eq_iff bit_simps)
  then have "round_up n = (n + 7) div 8 * 8"
    unfolding round_up_def m by (simp add: push_bit_eq_mult drop_bit_eq_div ALIGN_def add.commute)
  moreover have u: "unat (n + 7) = unat n + 7" using assms by (subst unat_add_u32) simp_all
  have "unat ((n + 7) div 8) = (unat n + 7) div 8" by (simp add: unat_div u)
  moreover have "(unat n + 7) div 8 * 8 \<le> unat n + 7" by simp
  ultimately show ?thesis using assms unat_mult_u32 [of "(n + 7) div 8" 8] by simp
qed

text \<open>Which block first fit takes, and what it becomes.\<close>

definition fits :: "nat \<Rightarrow> block \<Rightarrow> bool" where
  "fits n b \<longleftrightarrow> snd b \<and> n \<le> fst b"

definition split_block :: "nat \<Rightarrow> nat \<Rightarrow> block list" where
  "split_block n k = (if n + 32 \<le> k then [(n, False), (k - n - 16, True)] else [(k, False)])"

lemma header_intact_block:
  assumes "block_at h a n f" and "KS \<le> a" and "a + 16 + n \<le> KE"
  shows "header_intact h (of_nat a)"
proof -
  have "(of_nat a :: u32) < of_nat (a + 16 + n)" if "a + 16 + n \<noteq> KE"
    using assms(3) that by (simp add: word_less_nat_alt unat_of_nat_u32 del: of_nat_add)
  moreover have "(of_nat (a + 16 + n) :: u32) < KHEAP_START + KHEAP_SIZE" if "a + 16 + n \<noteq> KE"
    using assms(3) that by (simp add: word_less_nat_alt unat_of_nat_u32 kheap_consts del: of_nat_add)
  ultimately show ?thesis
    using assms(1) by (simp add: header_intact_def header_nat block_at_def link_def Let_def del: of_nat_add)
qed

lemma of_nat_nonzero: "KS \<le> a \<Longrightarrow> a < KE \<Longrightarrow> (of_nat a :: u32) \<noteq> 0"
  using of_nat_u32_inject [of a 0] by simp

lemma link_eq: "a < KE \<Longrightarrow> link a = of_nat a"
  by (simp add: link_def)

lemma kmalloc_loop_first_fit:
  assumes "seg (heap s) a bs" and "end_of a bs = KE" and "KS \<le> a" and "n < 4294967296"
  shows "kmalloc_loop (of_nat n) (link a) s =
     (case List.extract (fits n) bs of
        None \<Rightarrow> (0, s)
      | Some (pre, b, post) \<Rightarrow>
          (of_nat (end_of a pre + 16),
           s\<lparr>heap := take_block (of_nat n) (of_nat (end_of a pre)) (heap s)\<rparr>))"
  using assms
proof (induction bs arbitrary: a)
  case Nil
  then show ?case by (simp add: link_def kmalloc_loop.simps extract_Nil_code)
next
  case (Cons b bs)
  obtain k f where b: "b = (k, f)" by force
  have a: "a + 16 + k \<le> KE" using Cons.prems(2) end_of_ge [of "a + 16 + k" bs] by (simp add: b)
  have blk: "block_at (heap s) a k f" "8 \<le> k" using Cons.prems(1) by (simp_all add: b block_at_def)
  have lt: "a < KE" using a by simp
  have fit: "(h_is_free (heap s) (of_nat a) = 0 \<or> h_size (heap s) (of_nat a) < of_nat n) \<longleftrightarrow> \<not> fits n b"
    using blk a Cons.prems(4)
    by (auto simp: b fits_def header_nat block_at_def word_less_nat_alt unat_of_nat_u32)
  have nxt: "h_next (heap s) (of_nat a) = link (a + 16 + k)"
    using blk by (simp add: header_nat block_at_def)
  note step = kmalloc_loop.simps [of "of_nat n" "of_nat a" s]
  show ?case
  proof (cases "fits n b")
    case True
    then have "kmalloc_loop (of_nat n) (link a) s =
        (data_of (of_nat a), s\<lparr>heap := take_block (of_nat n) (of_nat a) (heap s)\<rparr>)"
      using step fit of_nat_nonzero [OF Cons.prems(3) lt] header_intact_block [OF blk(1) Cons.prems(3) a]
      by (simp add: link_eq [OF lt])
    then show ?thesis using True by (simp add: extract_Cons_code data_of_def HEADER_SIZE_def)
  next
    case False
    then have "kmalloc_loop (of_nat n) (link a) s = kmalloc_loop (of_nat n) (link (a + 16 + k)) s"
      using step fit of_nat_nonzero [OF Cons.prems(3) lt] header_intact_block [OF blk(1) Cons.prems(3) a] nxt
      by (simp add: link_eq [OF lt])
    then show ?thesis
      using Cons.IH [of "a + 16 + k"] Cons.prems False
      by (simp add: b extract_Cons_code split: option.split prod.split)
  qed
qed

lemma take_block_words:
  assumes "block_at h a k True" and "KS \<le> a" and "a + 16 + k \<le> KE" and "n \<le> k" and "0 < n"
  shows "rd (take_block (of_nat n) (of_nat a) h) w =
     (if n + 32 \<le> k
      then rd (wr (wr (wr (wr (wr (wr (wr h (a + 16 + n) KHEAP_MAGIC) (a + 20 + n) (of_nat (k - n - 16)))
             (a + 24 + n) 1) (a + 28 + n) (link (a + 16 + k))) (a + 4) (of_nat n)) (a + 12) (of_nat (a + 16 + n)))
             (a + 8) 0) w
      else rd (wr h (a + 8) 0) w)"
proof -
  have sz: "h_size h (of_nat a) = of_nat k" "h_next h (of_nat a) = link (a + 16 + k)"
    using assms(1) by (simp_all add: header_nat block_at_def)
  have ge: "of_nat n + HEADER_SIZE + MIN_SPLIT \<le> (of_nat k :: u32) \<longleftrightarrow> n + 32 \<le> k"
  proof -
    have "unat (of_nat n + HEADER_SIZE + MIN_SPLIT :: u32) = n + 32"
      using assms unat_of_nat_u32 [of "n + 32"] by (simp add: kheap_consts add.commute)
    then show ?thesis using assms by (simp add: word_le_nat_alt unat_of_nat_u32)
  qed
  have rest: "data_of (of_nat a) + of_nat n = of_nat (a + 16 + n)" by (simp add: data_of_def HEADER_SIZE_def)
  have sub: "(of_nat k :: u32) - of_nat n - HEADER_SIZE = of_nat (k - n - 16)" if "n + 32 \<le> k"
    using that by (simp add: HEADER_SIZE_def of_nat_diff)
  have off: "(of_nat (a + 16 + n) :: u32) + 4 = of_nat (a + 20 + n)" "(of_nat (a + 16 + n) :: u32) + 8 = of_nat (a + 24 + n)"
    "(of_nat (a + 16 + n) :: u32) + 12 = of_nat (a + 28 + n)" by simp_all
  note tb = take_block_def [of "of_nat n" "of_nat a" h] sz ge rest Let_def write_header_def off header_nat(5-8)
  show ?thesis
  proof (cases "n + 32 \<le> k")
    case True
    then show ?thesis unfolding tb sub [OF True] by (simp only: if_True refl)
  next
    case False
    then show ?thesis unfolding tb by (simp only: if_False refl)
  qed
qed

text \<open>Taking the block found turns the list the heap holds into the list first fit makes.\<close>

lemma take_block_seg:
  assumes "seg h KS (pre @ (k, True) # post)" and "end_of KS (pre @ (k, True) # post) = KE"
    and "n \<le> k" and "8 \<le> n" and "n mod 8 = 0"
  defines "a \<equiv> end_of KS pre"
  shows "seg (take_block (of_nat n) (of_nat a) h) KS (pre @ split_block n k @ post)"
    and "end_of KS (pre @ split_block n k @ post) = KE"
    and "w < 4294967296 \<Longrightarrow> w < a \<or> a + 16 + k \<le> w \<Longrightarrow> rd (take_block (of_nat n) (of_nat a) h) w = rd h w"
proof -
  have blk: "block_at h a k True" using assms(1) by (simp add: a_def)
  have a: "KS \<le> a" "a + 16 + k \<le> KE"
    using assms(2) end_of_ge [of KS pre] end_of_ge [of "a + 16 + k" post] by (simp_all add: a_def)
  note words = take_block_words [OF blk a assms(3)]
  show out: "rd (take_block (of_nat n) (of_nat a) h) w = rd h w"
    if "w < 4294967296" "w < a \<or> a + 16 + k \<le> w" for w
    using that a assms(3,4) by (cases "n + 32 \<le> k") (auto simp: words rd_wr)
  let ?h = "take_block (of_nat n) (of_nat a) h"
  have pre: "seg ?h KS pre = seg h KS pre"
    using hdr_words_bounds [of _ KS pre] a by (intro seg_frame out) (fastforce simp: a_def)+
  have post: "seg ?h (a + 16 + k) post = seg h (a + 16 + k) post"
    using hdr_words_bounds [of _ "a + 16 + k" post] assms(2) by (intro seg_frame out) (fastforce simp: a_def)+
  have "a + 16 + n + 16 + (k - n - 16) = a + 16 + k" if "n + 32 \<le> k" using that by simp
  then show "end_of KS (pre @ split_block n k @ post) = KE"
    using assms(2)
    by (cases "n + 32 \<le> k")
       (simp_all only: split_block_def a_def [symmetric] end_of_append end_of.simps append.simps if_True if_False)
  show "seg ?h KS (pre @ split_block n k @ post)"
  proof (cases "n + 32 \<le> k")
    case True
    have "block_at ?h a n False"
      using blk a assms(3-5) True by (simp add: block_at_def words rd_wr link_def)
    moreover have "(k - n - 16) mod 8 = 0"
    proof -
      have "k mod 8 = 0" using blk by (simp add: block_at_def)
      then show ?thesis using assms(5) True by presburger
    qed
    then have "block_at ?h (a + 16 + n) (k - n - 16) True"
      using a assms(3-5) True by (auto simp: block_at_def words rd_wr ac_simps)
    ultimately show ?thesis
      using assms(1) pre post True by (simp add: split_block_def a_def [symmetric] ac_simps)
  next
    case False
    have "block_at ?h a k False"
      using blk a assms(3-5) False by (simp add: block_at_def words rd_wr)
    then show ?thesis
      using assms(1) pre post False by (simp add: split_block_def a_def [symmetric])
  qed
qed

section \<open>Merging and freeing\<close>

fun coalesce :: "block list \<Rightarrow> block list" where
  "coalesce [] = []"
| "coalesce [b] = [b]"
| "coalesce (b # c # bs) =
     (if snd b \<and> snd c then coalesce ((fst b + 16 + fst c, True) # bs) else b # coalesce (c # bs))"

lemma end_of_coalesce: "end_of a (coalesce bs) = end_of a bs"
proof (induction bs arbitrary: a rule: coalesce.induct)
  case (3 b c bs)
  obtain n f m g where "b = (n, f)" "c = (m, g)" by force
  then show ?case using 3 by (auto simp: add.assoc)
qed auto

lemma coalesce_nonempty: "coalesce bs = [] \<longleftrightarrow> bs = []"
  by (induction bs rule: coalesce.induct) auto

text \<open>The words the merge may write: sizes and links of blocks.\<close>

lemma merge_loop_step:
  assumes "seg (heap s) a ((n, f) # (m, g) # bs)" and "end_of a ((n, f) # (m, g) # bs) = KE" and "KS \<le> a"
  shows "merge_loop (of_nat a) s =
     (if f \<and> g
      then merge_loop (of_nat a)
             (s\<lparr>heap := wr (wr (heap s) (a + 4) (of_nat (n + 16 + m))) (a + 12) (link (a + 16 + n + 16 + m))\<rparr>)
      else merge_loop (of_nat (a + 16 + n)) s)"
proof -
  let ?h = "heap s" and ?c = "a + 16 + n"
  have e: "?c + 16 + m \<le> KE" using assms(2) end_of_ge [of "?c + 16 + m" bs] by simp
  have b: "block_at ?h a n f" and c: "block_at ?h ?c m g" using assms(1) by simp_all
  have nz: "(of_nat a :: u32) \<noteq> 0" "(of_nat ?c :: u32) \<noteq> 0"
    using e assms(3) of_nat_nonzero [of a] of_nat_nonzero [of ?c] by (simp_all del: of_nat_add)
  have nxt: "h_next ?h (of_nat a) = of_nat ?c"
    using b e by (simp add: header_nat block_at_def link_def del: of_nat_add)
  have ok: "header_intact ?h (of_nat ?c)" using c assms(3) e by (intro header_intact_block) simp_all
  have free: "h_is_free ?h (of_nat a) \<noteq> 0 \<and> h_is_free ?h (of_nat ?c) \<noteq> 0 \<longleftrightarrow> f \<and> g"
    using b c by (simp add: header_nat block_at_def del: of_nat_add)
  have sz: "h_size ?h (of_nat a) + (HEADER_SIZE + h_size ?h (of_nat ?c)) = of_nat (n + 16 + m)"
    using b c by (simp add: header_nat block_at_def HEADER_SIZE_def del: of_nat_add) simp
  let ?h1 = "wr ?h (a + 4) (of_nat (n + 16 + m))"
  have n1: "h_next ?h1 (of_nat a) = of_nat ?c"
    using nxt e by (simp add: header_nat rd_wr del: of_nat_add)
  have n2: "h_next ?h1 (of_nat ?c) = link (?c + 16 + m)"
    using c e by (simp add: header_nat rd_wr block_at_def del: of_nat_add)
  have step: "merge_loop (of_nat a) s =
     (if f \<and> g
      then merge_loop (of_nat a) (s\<lparr>heap := ?h1(of_nat a + 12 := h_next ?h1 (h_next ?h1 (of_nat a)))\<rparr>)
      else merge_loop (of_nat ?c) s)"
    unfolding merge_loop.simps [of "of_nat a" s] Let_def nxt free sz header_nat(6)
    using nz ok by (simp only: if_False not_not simp_thms)
  show ?thesis unfolding step n1 n2 header_nat(8) by (rule refl)
qed

lemma merge_loop_last:
  assumes "seg (heap s) a [(n, f)]" and "end_of a [(n, f)] = KE"
  shows "merge_loop (of_nat a) s = Some s"
  using assms by (subst merge_loop.simps) (simp add: header_nat block_at_def link_def)

lemma merged_seg:
  assumes "seg h a ((n, True) # (m, True) # bs)" and "end_of a ((n, True) # (m, True) # bs) = KE"
  shows "seg (wr (wr h (a + 4) (of_nat (n + 16 + m))) (a + 12) (link (a + 16 + n + 16 + m))) a ((n + 16 + m, True) # bs)"
proof -
  have e: "a + 16 + n + 16 + m \<le> KE" using assms(2) end_of_ge [of "a + 16 + n + 16 + m" bs] by simp
  have "seg (wr (wr h (a + 4) x) (a + 12) y) (a + 16 + n + 16 + m) bs" for x y
    using assms by (simp add: seg_wr_below)
  moreover have "(n + 16 + m) mod 8 = 0"
  proof -
    have "n mod 8 = 0" "m mod 8 = 0" using assms(1) by (simp_all add: block_at_def)
    then show ?thesis by presburger
  qed
  ultimately show ?thesis
    using assms(1) e by (simp add: block_at_def rd_wr add.assoc)
qed

text \<open>The merge ends, merges exactly the runs of free blocks, and writes only header words.\<close>

lemma merge_loop_coalesce:
  assumes "seg (heap s) a bs" and "end_of a bs = KE" and "KS \<le> a" and "bs \<noteq> []"
  shows "\<exists>h'. merge_loop (of_nat a) s = Some (s\<lparr>heap := h'\<rparr>) \<and> seg h' a (coalesce bs) \<and>
     (\<forall>w < 4294967296. w \<notin> hdr_words a bs \<longrightarrow> rd h' w = rd (heap s) w)"
  using assms
proof (induction bs arbitrary: a s rule: coalesce.induct)
  case (2 b)
  obtain n f where b: "b = (n, f)" by force
  show ?case using 2 merge_loop_last [of s a n f] by (intro exI [of _ "heap s"]) (simp add: b)
next
  case (3 b c bs)
  obtain n f m g where bc: "b = (n, f)" "c = (m, g)" by force
  have e: "a + 16 + n + 16 + m \<le> KE"
    using "3.prems"(2) end_of_ge [of "a + 16 + n + 16 + m" bs] by (simp add: bc)
  note step = merge_loop_step [of s a n f m g bs, folded bc, OF "3.prems"(1-3)]
  show ?case
  proof (cases "f \<and> g")
    case True
    let ?h = "wr (wr (heap s) (a + 4) (of_nat (n + 16 + m))) (a + 12) (link (a + 16 + n + 16 + m))"
    have "seg ?h a ((n + 16 + m, True) # bs)"
      using merged_seg [of "heap s" a n m bs] "3.prems" True by (simp add: bc)
    then obtain h' where h': "merge_loop (of_nat a) (s\<lparr>heap := ?h\<rparr>) = Some (s\<lparr>heap := h'\<rparr>)"
        "seg h' a (coalesce ((n + 16 + m, True) # bs))"
        "\<forall>w < 4294967296. w \<notin> hdr_words a ((n + 16 + m, True) # bs) \<longrightarrow> rd h' w = rd ?h w"
      using "3.IH"(1) [of "s\<lparr>heap := ?h\<rparr>" a] "3.prems" True by (auto simp: bc add.assoc)
    have "rd h' w = rd (heap s) w" if "w < 4294967296" "w \<notin> hdr_words a (b # c # bs)" for w
      using h'(3) that e by (simp add: bc rd_wr add.assoc)
    then show ?thesis using h' step True by (intro exI [of _ h']) (simp add: bc)
  next
    case False
    obtain h' where h': "merge_loop (of_nat (a + 16 + n)) s = Some (s\<lparr>heap := h'\<rparr>)"
        "seg h' (a + 16 + n) (coalesce (c # bs))"
        "\<forall>w < 4294967296. w \<notin> hdr_words (a + 16 + n) (c # bs) \<longrightarrow> rd h' w = rd (heap s) w"
      using "3.IH"(2) [of s "a + 16 + n"] "3.prems" False by (auto simp: bc)
    have same: "rd h' w = rd (heap s) w" if "w < a + 16 + n" for w
      using h'(3) that e hdr_words_bounds [of w "a + 16 + n" "c # bs"] by fastforce
    then have "block_at h' a n f" using "3.prems"(1) by (simp add: bc block_at_def)
    then show ?thesis using h' step False same by (intro exI [of _ h']) (auto simp: bc)
  qed
qed simp

text \<open>A pointer the guard accepts is the data of a used block, or its header lies in the data of a
  block: bytes that look like a header. It is never one of the real headers' words.\<close>

lemma guard_accepts:
  assumes "seg h a bs" and "end_of a bs = KE" and "KS \<le> a" and "a mod 8 = 0"
    and "q mod 8 = 0" and "a \<le> q" and "q + 16 < KE"
    and "rd h q = KHEAP_MAGIC" and "rd h (q + 8) = 0"
  shows "(\<exists>pre n post. bs = pre @ (n, False) # post \<and> q = end_of a pre) \<or> q + 8 \<notin> hdr_words a bs"
  using assms
proof (induction bs arbitrary: a)
  case (Cons b bs)
  obtain n f where b: "b = (n, f)" by force
  have blk: "block_at h a n f" using Cons.prems(1) by (simp add: b)
  have n8: "n mod 8 = 0" using blk by (simp add: block_at_def)
  show ?case
  proof (cases "q < a + 16 + n")
    case False
    have "(a + 16 + n) mod 8 = 0" using Cons.prems(4) n8 by presburger
    then have IH: "(\<exists>pre m post. bs = pre @ (m, False) # post \<and> q = end_of (a + 16 + n) pre) \<or>
        q + 8 \<notin> hdr_words (a + 16 + n) bs"
      using Cons.IH [of "a + 16 + n"] Cons.prems False by (simp add: b)
    show ?thesis
    proof (cases "q + 8 \<in> hdr_words (a + 16 + n) bs")
      case True
      then obtain pre m post where "bs = pre @ (m, False) # post" "q = end_of (a + 16 + n) pre"
        using IH by blast
      then have "b # bs = (b # pre) @ (m, False) # post \<and> q = end_of a (b # pre)" by (simp add: b)
      then show ?thesis by blast
    qed (use False in \<open>simp add: b\<close>)
  next
    case True
    have "q = a \<or> q = a + 8 \<or> a + 16 \<le> q" using Cons.prems(4-6) by presburger
    then consider "q = a" | "q = a + 8" | "a + 16 \<le> q" by blast
    then show ?thesis
    proof cases
      case 1
      then have "f = False" using blk Cons.prems(9) by (simp add: block_at_def)
      then have "b # bs = [] @ (n, False) # bs \<and> q = end_of a []" using 1 by (simp add: b)
      then show ?thesis by blast
    next
      case 2
      then show ?thesis using blk Cons.prems(8) by (cases f) (simp_all add: block_at_def KHEAP_MAGIC_def)
    next
      case 3
      have "q + 8 \<le> a + 16 + n" using True Cons.prems(4,5) n8 by presburger
      moreover have "q + 8 \<noteq> a + 16 + n" if "bs \<noteq> []"
      proof
        assume eq: "q + 8 = a + 16 + n"
        have "rd h (a + 16 + n) = KHEAP_MAGIC"
          using Cons.prems(1) that by (cases bs) (auto simp: b block_at_def)
        then show False using Cons.prems(9) by (simp only: eq) (simp add: KHEAP_MAGIC_def)
      qed
      moreover have "a + 16 + n = KE" if "bs = []" using Cons.prems(2) that by (simp add: b)
      ultimately have "q + 8 < a + 16 + n" using Cons.prems(7) by fastforce
      then show ?thesis using 3 hdr_words_bounds [of "q + 8" "a + 16 + n" bs] by (auto simp: b)
    qed
  qed
qed simp

text \<open>Marking the block at \<open>end_of KS pre\<close> free.\<close>

lemma mark_free_seg:
  assumes "chain h (pre @ (n, False) # post)"
  shows "chain (wr h (end_of KS pre + 8) 1) (pre @ (n, True) # post)"
proof -
  let ?a = "end_of KS pre"
  have e: "?a + 16 + n \<le> KE" "end_of (?a + 16 + n) post = KE"
    using assms end_of_ge [of "?a + 16 + n" post] by (simp_all add: chain_def)
  have "seg (wr h (?a + 8) 1) KS pre" using assms e by (simp add: chain_def seg_wr_above)
  moreover have "seg (wr h (?a + 8) 1) (?a + 16 + n) post" using assms e by (simp add: chain_def seg_wr_below)
  ultimately show ?thesis using assms e by (simp add: chain_def block_at_def rd_wr)
qed

lemma plausible_nat:
  "plausible_block p \<longleftrightarrow> KS + 16 \<le> unat p \<and> unat p < KE \<and> unat p mod 8 = 0"
proof -
  have "p mod 8 = 0 \<longleftrightarrow> unat p mod 8 = 0" by (simp add: word_unat_eq_iff unat_mod)
  then show ?thesis by (auto simp: plausible_block_def kheap_consts word_le_nat_alt word_less_nat_alt)
qed


lemma audit_log_kheap [simp]:
  "heap (audit_log d t s) = heap s" "heap_start (audit_log d t s) = heap_start s"
  "halted (audit_log d t s) = halted s" "mem (audit_log d t s) = mem s"
  "directory (audit_log d t s) = directory s" "paging_on (audit_log d t s) = paging_on s"
  "kheap.more (audit_log d t s) = kheap.more s"
proof -
  have "pmm.more (audit_log d t s) = pmm.more s" by simp
  then show "heap (audit_log d t s) = heap s" "heap_start (audit_log d t s) = heap_start s"
    "halted (audit_log d t s) = halted s" "mem (audit_log d t s) = mem s"
    "directory (audit_log d t s) = directory s" "paging_on (audit_log d t s) = paging_on s"
    "kheap.more (audit_log d t s) = kheap.more s"
    by (cases s; cases "audit_log d t s"; simp)+
qed

definition freed :: "nat \<Rightarrow> block list \<Rightarrow> block list \<Rightarrow> bool" where
  "freed q bs bs' \<longleftrightarrow>
     (\<exists>pre n post. bs = pre @ (n, False) # post \<and> q = end_of KS pre \<and> bs' = pre @ (n, True) # post) \<or>
     (q + 8 \<notin> hdr_words KS bs \<and> bs' = bs)"

lemma freed_chain:
  assumes "chain h bs" and "freed q bs bs'" and "q < KE"
  shows "chain (wr h (q + 8) 1) bs'" and "hdr_words KS bs' = hdr_words KS bs" and "bs' \<noteq> []"
proof -
  have "chain (wr h (q + 8) 1) bs' \<and> hdr_words KS bs' = hdr_words KS bs \<and> bs' \<noteq> []"
    using assms(2) unfolding freed_def
  proof (elim disjE exE conjE)
    fix pre n post
    assume e: "bs = pre @ (n, False) # post" "q = end_of KS pre" "bs' = pre @ (n, True) # post"
    then have "chain (wr h (q + 8) 1) bs'" using mark_free_seg [of h pre n post] assms(1) by simp
    then show ?thesis by (simp add: e hdr_words_append)
  next
    assume "q + 8 \<notin> hdr_words KS bs" and e: "bs' = bs"
    then have "seg (wr h (q + 8) 1) KS bs = seg h KS bs"
      using assms(1,3) by (intro seg_wr) (simp_all add: chain_def)
    moreover have "bs \<noteq> []" using assms(1) by (auto simp: chain_def)
    ultimately show ?thesis using assms(1) by (simp add: chain_def e)
  qed
  then show "chain (wr h (q + 8) 1) bs'" "hdr_words KS bs' = hdr_words KS bs" "bs' \<noteq> []" by blast+
qed

lemma plausible_header:
  assumes "plausible_block p"
  obtains q where "KS \<le> q" and "q + 16 < KE" and "q mod 8 = 0" and "unat p = q + 16"
    and "p - HEADER_SIZE = of_nat q" and "p \<noteq> 0"
proof
  have p: "KS + 16 \<le> unat p" "unat p < KE" "unat p mod 8 = 0" using assms by (simp_all add: plausible_nat)
  then show "KS \<le> unat p - 16" "unat p - 16 + 16 < KE" "unat p = unat p - 16 + 16" "p \<noteq> 0" by auto
  show "(unat p - 16) mod 8 = 0" using p by presburger
  have "unat (p - HEADER_SIZE) = unat p - 16"
    using p by (subst unat_sub) (simp_all add: HEADER_SIZE_def word_le_nat_alt)
  then show "p - HEADER_SIZE = of_nat (unat p - 16)"
    using p by (simp add: unat_eq_iff_of_nat)
qed

lemma kfree_accepted:
  assumes rep: "heap_rep s bs" and p: "plausible_block p" and ok: "header_allows (heap s) (p - HEADER_SIZE)"
  obtains q h' bs' where "unat p = q + 16" and "kfree p s = s\<lparr>heap := h'\<rparr>" and "chain h' (coalesce bs')"
    and "freed q bs bs'"
    and "\<forall>w < 4294967296. w \<notin> hdr_words KS bs \<and> w \<noteq> q + 8 \<longrightarrow> rd h' w = rd (heap s) w"
proof -
  obtain q where q: "KS \<le> q" "q + 16 < KE" "q mod 8 = 0" "unat p = q + 16" "p - HEADER_SIZE = of_nat q" "p \<noteq> 0"
    using plausible_header [OF p] .
  have seg: "seg (heap s) KS bs" "end_of KS bs = KE" "heap_start s = of_nat KS" and ch: "chain (heap s) bs"
    using rep by (simp_all add: heap_rep_def chain_def KHEAP_START_def)
  have words: "rd (heap s) q = KHEAP_MAGIC" "rd (heap s) (q + 8) = 0"
    using ok by (simp_all add: header_allows_def q(5) header_nat)
  obtain bs' where fr: "freed q bs bs'"
    using guard_accepts [OF seg(1,2) _ _ q(3,1,2) words] unfolding freed_def by auto
  let ?h = "wr (heap s) (q + 8) 1"
  have "q < KE" using q(2) by simp
  note f = freed_chain [OF ch fr this]
  obtain h' where h': "merge_loop (of_nat KS) (s\<lparr>heap := ?h\<rparr>) = Some (s\<lparr>heap := h'\<rparr>)" "seg h' KS (coalesce bs')"
      "\<forall>w < 4294967296. w \<notin> hdr_words KS bs' \<longrightarrow> rd h' w = rd ?h w"
    using merge_loop_coalesce [of "s\<lparr>heap := ?h\<rparr>" KS bs'] f(1,3) by (auto simp: chain_def)
  have "kfree p s = s\<lparr>heap := h'\<rparr>"
    using p ok h'(1) seg(3) q(6)
    by (simp add: kfree_def def_kfree_ok_def q(5) header_nat(7) del: of_nat_numeral)
  moreover have "chain h' (coalesce bs')" using h'(2) f(1) by (simp add: chain_def end_of_coalesce)
  moreover have "\<forall>w < 4294967296. w \<notin> hdr_words KS bs \<and> w \<noteq> q + 8 \<longrightarrow> rd h' w = rd (heap s) w"
    using h'(3) q(2) by (simp add: f(2) rd_wr)
  ultimately show thesis using that q(4) fr by blast
qed

section \<open>What the callers hold\<close>

text \<open>The data areas of the blocks in use: start and length.\<close>

fun used_spans :: "nat \<Rightarrow> block list \<Rightarrow> (nat \<times> nat) list" where
  "used_spans a [] = []"
| "used_spans a ((n, f) # bs) =
     (if f then used_spans (a + 16 + n) bs else (a + 16, n) # used_spans (a + 16 + n) bs)"

lemma used_spans_append [simp]: "used_spans a (xs @ ys) = used_spans a xs @ used_spans (end_of a xs) ys"
  by (induction a xs rule: used_spans.induct) auto

lemma used_spans_bounds: "(x, n) \<in> set (used_spans a bs) \<Longrightarrow> a + 16 \<le> x \<and> x + n \<le> end_of a bs"
proof (induction a bs rule: used_spans.induct)
  case (2 a m f bs)
  then show ?case using end_of_ge [of "a + 16 + m" bs] by (auto split: if_splits)
qed simp



definition first_fit :: "nat \<Rightarrow> block list \<Rightarrow> (nat \<times> block list) option" where
  "first_fit n bs =
     (case List.extract (fits n) bs of
        None \<Rightarrow> None
      | Some (pre, b, post) \<Rightarrow> Some (end_of KS pre + 16, pre @ split_block n (fst b) @ post))"

lemma kmalloc_result:
  assumes rep: "heap_rep s bs" and sz: "sz \<noteq> 0" "sz \<le> KHEAP_SIZE"
  defines "n \<equiv> (unat sz + 7) div 8 * 8"
  obtains (none) "List.extract (fits n) bs = None" and "kmalloc sz s = (0, s)"
  | (taken) pre k post h' where "bs = pre @ (k, True) # post" and "n \<le> k"
      and "\<forall>b \<in> set pre. \<not> fits n b" and "List.extract (fits n) bs = Some (pre, (k, True), post)"
      and "kmalloc sz s = (of_nat (end_of KS pre + 16), s\<lparr>heap := h'\<rparr>)"
      and "chain h' (pre @ split_block n k @ post)" and "end_of KS pre + 16 + k \<le> KE"
      and "\<And>w. w < 4294967296 \<Longrightarrow> w < end_of KS pre \<or> end_of KS pre + 16 + k \<le> w \<Longrightarrow> rd h' w = rd (heap s) w"
proof -
  have le: "unat sz \<le> 8388608" using sz(2) by (simp add: KHEAP_SIZE_def word_le_nat_alt)
  then have r: "round_up sz = of_nat n"
    using round_up_nat [OF le] by (simp add: n_def unat_eq_iff_of_nat)
  have n8: "8 \<le> n" "n mod 8 = 0" "n < 4294967296"
    using le sz(1) by (auto simp: n_def unat_eq_zero [symmetric])
  have ch: "seg (heap s) KS bs" "end_of KS bs = KE" using rep by (simp_all add: heap_rep_def chain_def)
  have "kmalloc sz s = kmalloc_loop (of_nat n) (link KS) s"
    using rep sz(1) r leD [OF sz(2)] by (simp add: kmalloc_def heap_rep_def KHEAP_START_def link_def)
  note k = this [unfolded kmalloc_loop_first_fit [OF ch order_refl n8(3)]]
  show thesis
  proof (cases "List.extract (fits n) bs")
    case None
    then show thesis using none k by simp
  next
    case (Some r)
    obtain pre m f post where r: "r = (pre, (m, f), post)" by (cases r) auto
    have e: "bs = pre @ (m, True) # post" "n \<le> m" "\<forall>b \<in> set pre. \<not> fits n b" "f"
      using Some extract_SomeE [of "fits n" bs pre "(m, f)" post] by (auto simp: r fits_def)
    note t = take_block_seg [of "heap s" pre m post n, folded e(1), OF ch e(2) n8(1,2)]
    have "end_of KS pre + 16 + m \<le> KE" using ch(2) end_of_ge [of "end_of KS pre + 16 + m" post] by (simp add: e(1))
    then show thesis
      using taken [of pre m post "take_block (of_nat n) (of_nat (end_of KS pre)) (heap s)"] e k Some t r
      by (simp add: chain_def del: of_nat_add)
  qed
qed

lemma split_spans:
  "n \<le> k \<Longrightarrow> used_spans a (split_block n k) = [(a + 16, if n + 32 \<le> k then n else k)]"
  by (simp add: split_block_def)

lemma chain_first_block: "chain h bs \<Longrightarrow> bs \<noteq> []"
  by (auto simp: chain_def)

lemma split_end: "n \<le> k \<Longrightarrow> end_of a (split_block n k) = a + 16 + k"
  by (simp add: split_block_def)


section \<open>Statistics are exact\<close>

definition free_sizes :: "block list \<Rightarrow> nat list" where
  "free_sizes bs = map fst (filter snd bs)"

definition used_sizes :: "block list \<Rightarrow> nat list" where
  "used_sizes bs = map fst (filter (\<lambda>b. \<not> snd b) bs)"

definition add_stats :: "block list \<Rightarrow> kheap_stats_t \<Rightarrow> kheap_stats_t" where
  "add_stats bs out = out\<lparr>
     blocks_used := blocks_used out + of_nat (length (used_sizes bs)),
     blocks_free := blocks_free out + of_nat (length (free_sizes bs)),
     bytes_used := bytes_used out + of_nat (sum_list (used_sizes bs)),
     bytes_free := bytes_free out + of_nat (sum_list (free_sizes bs)),
     largest_free := of_nat (fold max (free_sizes bs) (unat (largest_free out)))\<rparr>"

lemma count_block_eq:
  assumes "block_at h a n f" and "n < 4294967296"
  shows "count_block (of_nat a) h out = add_stats [(n, f)] out"
proof -
  have "(of_nat n :: u32) > largest_free out \<longleftrightarrow> unat (largest_free out) < n"
    using assms(2) by (simp add: word_less_nat_alt unat_of_nat_u32)
  then show ?thesis
    using assms(1)
    by (cases f) (auto simp: count_block_def header_nat block_at_def add_stats_def free_sizes_def used_sizes_def
        Let_def max_def not_less le_less)
qed

lemma add_stats_append: "unat (largest_free out) < 4294967296 \<Longrightarrow> (\<forall>b \<in> set xs. fst b < 4294967296) \<Longrightarrow>
   add_stats ys (add_stats xs out) = add_stats (xs @ ys) out"
proof -
  assume "\<forall>b \<in> set xs. fst b < 4294967296"
  then have "fold max (free_sizes xs) m < 4294967296" if "m < 4294967296" for m
    using that by (induction xs arbitrary: m) (auto simp: free_sizes_def)
  then have "unat (of_nat (fold max (free_sizes xs) (unat (largest_free out))) :: u32) =
      fold max (free_sizes xs) (unat (largest_free out))"
    by (intro unat_of_nat_u32) simp
  then show ?thesis by (simp add: add_stats_def free_sizes_def used_sizes_def)
qed

lemma stats_loop_seg:
  assumes "seg h a bs" and "end_of a bs = KE" and "KS \<le> a"
  shows "stats_loop (link a) h out = Some (add_stats bs out)"
  using assms
proof (induction bs arbitrary: a out)
  case Nil
  then show ?case by (subst stats_loop.simps) (simp add: link_def add_stats_def free_sizes_def used_sizes_def)
next
  case (Cons b bs)
  obtain n f where b: "b = (n, f)" by force
  have e: "a + 16 + n \<le> KE" using Cons.prems(2) end_of_ge [of "a + 16 + n" bs] by (simp add: b)
  have blk: "block_at h a n f" using Cons.prems(1) by (simp add: b)
  have "stats_loop (link a) h out = stats_loop (link (a + 16 + n)) h (add_stats [(n, f)] out)"
    using blk e count_block_eq [OF blk] of_nat_nonzero [OF Cons.prems(3)] link_eq [of a]
    by (subst stats_loop.simps) (simp add: header_nat block_at_def)
  also have "\<dots> = Some (add_stats bs (add_stats [(n, f)] out))"
    using Cons.IH [of "a + 16 + n"] Cons.prems by (simp add: b)
  also have "\<dots> = Some (add_stats (b # bs) out)"
    using add_stats_append [of out "[(n, f)]" bs] e by (simp add: b)
  finally show ?case .
qed

text \<open>A header whose magic is intact but whose link leads back to itself keeps the walk going for
  ever.\<close>

lemma stats_loop_cycle:
  assumes "stats_loop b h out = Some r"
  shows "\<not> (b \<noteq> 0 \<and> h_magic h b = KHEAP_MAGIC \<and> h_next h b = b)"
proof -
  have "(\<lambda>b h out r. \<not> (b \<noteq> 0 \<and> h_magic h b = KHEAP_MAGIC \<and> h_next h b = b)) b h out r"
    using assms
  proof (rule stats_loop.raw_induct [rotated])
    fix f and b :: u32 and h out r
    assume IH: "\<And>b h out r. f b h out = Some r \<Longrightarrow> \<not> (b \<noteq> 0 \<and> h_magic h b = KHEAP_MAGIC \<and> h_next h b = b)"
      and eq: "(if b = 0 then Some out else if h_magic h b \<noteq> KHEAP_MAGIC then Some (out\<lparr>corrupted := True\<rparr>)
          else f (h_next h b) h (count_block b h out)) = Some r"
    show "\<not> (b \<noteq> 0 \<and> h_magic h b = KHEAP_MAGIC \<and> h_next h b = b)"
      using eq IH [of b h "count_block b h out" r] by (auto split: if_splits)
  qed
  then show ?thesis by simp
qed

section \<open>Setup\<close>

lemma kheap_upd_vmm [simp]:
  "pmm_inv (heap_update f s) = pmm_inv s" "pmm_inv (heap_start_update g s) = pmm_inv s"
  "owned (heap_update f s) = owned s" "owned (heap_start_update g s) = owned s"
  "vmm_inv (heap_update f s) = vmm_inv s" "vmm_inv (heap_start_update g s) = vmm_inv s"
proof -
  show p: "pmm_inv (heap_update f s) = pmm_inv s" "pmm_inv (heap_start_update g s) = pmm_inv s"
    by (simp_all add: pmm_inv_def is_used_def pmm_is_reserved_def)
  show o: "owned (heap_update f s) = owned s" "owned (heap_start_update g s) = owned s"
    by (simp_all add: owned_def frames_ram_def frames_used_def frames_pinned_def is_used_def pmm_is_reserved_def)
  show "vmm_inv (heap_update f s) = vmm_inv s" "vmm_inv (heap_start_update g s) = vmm_inv s"
    by (simp_all add: vmm_inv_def p o pde_def has_table_def table_frame_def)
qed





lemma new_heap_chain:
  "chain (write_header KHEAP_START KHEAP_MAGIC (KHEAP_SIZE - HEADER_SIZE) 1 0 h) [(0x800000 - 16, True)]"
proof -
  have "write_header KHEAP_START KHEAP_MAGIC (KHEAP_SIZE - HEADER_SIZE) 1 0 h =
      wr (wr (wr (wr h KS KHEAP_MAGIC) (KS + 4) 8388592) (KS + 8) 1) (KS + 12) 0"
    by (simp add: write_header_def wr_def kheap_consts)
  then show ?thesis by (simp add: chain_def block_at_def rd_wr link_def)
qed

section \<open>Properties\<close>

text \<open>C7: allocation is first fit. On a heap that holds the blocks \<open>bs\<close>, \<open>kmalloc\<close> returns the data of
  the first free block of at least the rounded size, split when the rest can hold a block of its
  own, and leaves a heap that holds the list first fit makes of \<open>bs\<close>; without such a block, or for
  size 0 or more than the heap, it returns NULL and changes nothing.\<close>

theorem kmalloc_refines_first_fit:
  assumes "heap_rep s bs"
  shows "if sz = 0 \<or> KHEAP_SIZE < sz then kmalloc sz s = (0, s)
     else case first_fit ((unat sz + 7) div 8 * 8) bs of
            None \<Rightarrow> kmalloc sz s = (0, s)
          | Some (p, bs') \<Rightarrow> \<exists>h'. kmalloc sz s = (of_nat p, s\<lparr>heap := h'\<rparr>) \<and> heap_rep (s\<lparr>heap := h'\<rparr>) bs'"
proof (cases "sz = 0 \<or> KHEAP_SIZE < sz")
  case True
  then show ?thesis by (auto simp: kmalloc_def)
next
  case False
  then have sz: "sz \<noteq> 0" "sz \<le> KHEAP_SIZE" by (auto simp: not_less)
  show ?thesis
    using assms sz
  proof (cases rule: kmalloc_result)
    case none
    then show ?thesis using False by (simp add: first_fit_def)
  next
    case (taken pre k post h')
    then show ?thesis
      using False assms by (auto simp: first_fit_def heap_rep_def simp del: of_nat_add)
  qed
qed

text \<open>A fresh heap, for the witnesses.\<close>

definition small_heap :: kheap where
  "small_heap = vmm.extend small_vmm
     (kheap.fields KHEAP_START (write_header KHEAP_START KHEAP_MAGIC (KHEAP_SIZE - HEADER_SIZE) 1 0 (\<lambda>_. 0)))"

lemma small_heap_rep: "heap_rep small_heap [(8388592, True)]"
  using new_heap_chain [of "\<lambda>_. 0"] by (simp add: small_heap_def vmm.defs kheap.defs heap_rep_def)

theorem kmalloc_refines_first_fit_witness: "fst (kmalloc 100 small_heap) = 0x1000010"
  using kmalloc_refines_first_fit [OF small_heap_rep, of 100]
  by (auto simp: first_fit_def KHEAP_SIZE_def extract_Cons_code fits_def split_block_def)

text \<open>C10: a block \<open>kmalloc\<close> returns is the caller's alone. It is 8-byte aligned, lies inside the heap, has
  at least the bytes asked for, overlaps no block in use, and every word of the blocks in use is
  unchanged; exactly this block is added to the blocks in use.\<close>

theorem kmalloc_disjoint:
  assumes "heap_rep s bs" and "kmalloc sz s = (p, s')" and "p \<noteq> 0"
  shows "\<exists>k bs'. unat sz \<le> k \<and> unat p mod 8 = 0 \<and> KS \<le> unat p \<and> unat p + k \<le> KE \<and>
     heap_rep s' bs' \<and>
     set (used_spans KS bs') = insert (unat p, k) (set (used_spans KS bs)) \<and>
     (\<forall>(x, n) \<in> set (used_spans KS bs).
        (x + n \<le> unat p \<or> unat p + k \<le> x) \<and> (\<forall>w. x \<le> w \<and> w < x + n \<longrightarrow> rd (heap s') w = rd (heap s) w))"
proof -
  have sz: "sz \<noteq> 0" "sz \<le> KHEAP_SIZE" using assms(2,3) by (auto simp: kmalloc_def split: if_splits)
  show ?thesis
    using assms(1) sz
  proof (cases rule: kmalloc_result)
    case none
    then show ?thesis using assms(2,3) by simp
  next
    case (taken pre k post h')
    let ?n = "(unat sz + 7) div 8 * 8" and ?a = "end_of KS pre"
    let ?k = "if ?n + 32 \<le> k then ?n else k" and ?bs' = "pre @ split_block ?n k @ post"
    have ch: "seg (heap s) KS bs" "end_of KS bs = KE" using assms(1) by (simp_all add: heap_rep_def chain_def)
    have s': "s' = s\<lparr>heap := h'\<rparr>" "p = of_nat (?a + 16)" using assms(2) taken(5) by simp_all
    have p: "unat p = ?a + 16" using taken(7) by (simp add: s' unat_of_nat_u32 del: of_nat_add)
    have "?a mod 8 = 0" using end_of_mod [of "heap s" KS pre] ch(1) by (simp add: taken(1))
    then have al: "(?a + 16) mod 8 = 0" by presburger
    have sp: "set (used_spans KS ?bs') = insert (?a + 16, ?k) (set (used_spans KS bs))"
      using taken(2) by (auto simp: taken(1) split_spans split_end)
    have apart: "x + n \<le> ?a \<or> ?a + 16 + k \<le> x" if "(x, n) \<in> set (used_spans KS bs)" for x n
      using that used_spans_bounds [of x n KS pre] used_spans_bounds [of x n "?a + 16 + k" post]
      by (auto simp: taken(1))
    have "x + n \<le> KE" if "(x, n) \<in> set (used_spans KS bs)" for x n
      using used_spans_bounds [OF that] ch(2) by simp
    then have keep: "rd h' w = rd (heap s) w" if "(x, n) \<in> set (used_spans KS bs)" "x \<le> w" "w < x + n" for x n w
      using that apart [OF that(1)] by (intro taken(8)) fastforce+
    have "?k \<le> k" "unat sz \<le> ?k" using taken(2) by auto
    then have all: "\<forall>(x, n) \<in> set (used_spans KS bs). (x + n \<le> ?a + 16 \<or> ?a + 16 + ?k \<le> x) \<and>
        (\<forall>w. x \<le> w \<and> w < x + n \<longrightarrow> rd h' w = rd (heap s) w)"
      using apart keep by (fastforce simp del: if_split_asm)
    have "heap_rep s' ?bs'" using assms(1) taken(6) by (simp add: s' heap_rep_def)
    moreover have "KS \<le> ?a + 16" "?a + 16 + ?k \<le> KE"
      using taken(7) end_of_ge [of KS pre] \<open>?k \<le> k\<close> by linarith+
    moreover have "heap s' = h'" by (simp add: s')
    ultimately show ?thesis
      using al sp all \<open>unat sz \<le> ?k\<close> unfolding p by (intro exI [of _ ?k] exI [of _ ?bs'] conjI) simp_all
  qed
qed

lemma heap_span_example: "used_spans KS [(104, False), (8388472, True)] = [(0x1000010, 104)]"
  by simp

lemma small_heap_one: "\<exists>s'. kmalloc 100 small_heap = (0x1000010, s') \<and> heap_rep s' [(104, False), (8388472, True)]"
proof -
  have "(100 :: u32) \<noteq> 0" "100 \<le> KHEAP_SIZE" by (simp_all add: KHEAP_SIZE_def)
  with small_heap_rep show ?thesis
  proof (cases rule: kmalloc_result)
    case none
    then show ?thesis by (simp add: extract_Cons_code fits_def)
  next
    case (taken pre k post h')
    have "pre = []" "k = 8388592" "post = []" using taken(4) by (simp_all add: extract_Cons_code fits_def)
    then show ?thesis using small_heap_rep taken(5,6) by (simp add: split_block_def heap_rep_def)
  qed
qed

theorem kmalloc_disjoint_witness:
  "\<exists>p s' k bs'. kmalloc 8 (snd (kmalloc 100 small_heap)) = (p, s') \<and> 8 \<le> k \<and> heap_rep s' bs' \<and>
     set (used_spans KS bs') = {(unat p, k), (0x1000010, 104)} \<and>
     (0x1000010 + 104 \<le> unat p \<or> unat p + k \<le> 0x1000010)"
proof -
  obtain s1 where s1: "kmalloc 100 small_heap = (0x1000010, s1)" "heap_rep s1 [(104, False), (8388472, True)]"
    using small_heap_one by blast
  obtain p s' where m: "kmalloc 8 s1 = (p, s')" by fastforce
  have "(8 :: u32) \<noteq> 0" "8 \<le> KHEAP_SIZE" by (simp_all add: KHEAP_SIZE_def)
  with s1(2) have "p \<noteq> 0"
  proof (cases rule: kmalloc_result)
    case none
    then show ?thesis by (simp add: extract_Cons_code fits_def)
  next
    case (taken pre k post h')
    have "pre = [(104, False)]" using taken(4) by (simp add: extract_Cons_code extract_Nil_code fits_def)
    then show ?thesis using m taken(5) by simp
  qed
  from kmalloc_disjoint [OF s1(2) m this] show ?thesis
    using m s1(1) by (auto simp: insert_commute)
qed

lemma end_of_eq: "end_of a us = a \<longleftrightarrow> us = []"
proof (cases us)
  case (Cons b bs)
  then show ?thesis using end_of_ge [of "a + 16 + fst b" bs] by (cases b) auto
qed simp

lemma end_of_prefix_unique:
  assumes "xs @ b # bs = ys @ c # cs" and "end_of a xs = end_of a ys"
  shows "xs = ys"
proof -
  have "\<exists>us. xs = ys @ us \<or> ys = xs @ us" using assms(1) by (metis append_eq_append_conv2)
  then show ?thesis using assms(2) by (auto simp: end_of_eq) (metis end_of_eq)
qed

lemma hdr_words_mem: "end_of a pre + 8 \<in> hdr_words a (pre @ (n, f) # post)"
  by (simp add: hdr_words_append)

lemma block_header:
  assumes "heap_rep s (pre @ (n, f) # post)"
  defines "q \<equiv> end_of KS pre"
  shows "plausible_block (of_nat (q + 16))" and "of_nat (q + 16) - HEADER_SIZE = (of_nat q :: u32)"
    and "header_allows (heap s) (of_nat q) \<longleftrightarrow> \<not> f" and "unat (of_nat (q + 16) :: u32) = q + 16"
    and "(of_nat (q + 16) :: u32) \<noteq> 0"
proof -
  have ch: "seg (heap s) KS (pre @ (n, f) # post)" "end_of (q + 16 + n) post = KE"
    using assms(1) by (simp_all add: heap_rep_def chain_def q_def)
  have blk: "block_at (heap s) q n f" using ch(1) by (simp add: q_def)
  have q: "KS \<le> q" "q + 16 + n \<le> KE" "8 \<le> n"
    using end_of_ge [of KS pre] end_of_ge [of "q + 16 + n" post] ch(2) blk by (simp_all add: q_def block_at_def)
  show u: "unat (of_nat (q + 16) :: u32) = q + 16" using q by (intro unat_of_nat_u32) simp
  have "q mod 8 = 0" using end_of_mod [of "heap s" KS pre] ch(1) by (simp add: q_def)
  then have "(q + 16) mod 8 = 0" by presburger
  then show "plausible_block (of_nat (q + 16))" using q unfolding plausible_nat u by simp
  show "of_nat (q + 16) - HEADER_SIZE = (of_nat q :: u32)" by (simp add: HEADER_SIZE_def)
  show "header_allows (heap s) (of_nat q) \<longleftrightarrow> \<not> f"
    using blk by (simp add: header_allows_def header_nat block_at_def)
  show "(of_nat (q + 16) :: u32) \<noteq> 0" using q of_nat_nonzero [of "q + 16"] by simp
qed

text \<open>C14: freeing the pointer of a block in use marks that block free and merges every run of free
  neighbours; freeing the pointer of a free block (a double free) is refused with an audit entry
  and changes nothing.\<close>

theorem kfree_refines:
  assumes "heap_rep s (pre @ (n, f) # post)"
  shows "if f then kfree (of_nat (end_of KS pre + 16)) s =
            audit_log ''heap_guard'' ''kfree refused: not a block start, or already freed'' s
     else heap_rep (kfree (of_nat (end_of KS pre + 16)) s) (coalesce (pre @ (n, True) # post))"
proof -
  define p where "p = (of_nat (end_of KS pre + 16) :: u32)"
  note b = block_header [OF assms, folded p_def]
  show ?thesis
  proof (cases f)
    case True
    then have "\<not> header_allows (heap s) (p - HEADER_SIZE)" using b(2,3) by simp
    then have "kfree p s = audit_log ''heap_guard'' ''kfree refused: not a block start, or already freed'' s"
      using b(1,5) by (simp add: kfree_def def_kfree_ok_def)
    then show ?thesis using True by (simp add: p_def)
  next
    case False
    then have "header_allows (heap s) (p - HEADER_SIZE)" using b(2,3) by simp
    then obtain q h' bs' where k: "unat p = q + 16" "kfree p s = s\<lparr>heap := h'\<rparr>" "chain h' (coalesce bs')"
        "freed q (pre @ (n, f) # post) bs'" 
      by (rule kfree_accepted [OF assms b(1)])
    have q: "q = end_of KS pre" using k(1) b(4) by simp
    obtain pre2 m post2 where d: "pre @ (n, f) # post = pre2 @ (m, False) # post2" "end_of KS pre = end_of KS pre2"
        "bs' = pre2 @ (m, True) # post2"
      using k(4) hdr_words_mem [of KS pre n f post] unfolding freed_def q by (elim disjE exE conjE) auto
    have "pre = pre2" by (rule end_of_prefix_unique [OF d(1,2)])
    then have "bs' = pre @ (n, True) # post" using d(1,3) by simp
    then have "heap_rep (kfree p s) (coalesce (pre @ (n, True) # post))"
      using k(2,3) assms by (simp add: heap_rep_def)
    then show ?thesis using False by (simp add: p_def)
  qed
qed

theorem kfree_refines_witness:
  "heap_rep (kfree 0x1000010 (snd (kmalloc 100 small_heap))) [(8388592, True)]"
proof -
  obtain s1 where s1: "kmalloc 100 small_heap = (0x1000010, s1)" "heap_rep s1 [(104, False), (8388472, True)]"
    using small_heap_one by blast
  then show ?thesis using kfree_refines [of s1 "[]" 104 False "[(8388472, True)]"] by simp
qed





text \<open>C36: the statistics are exact: the counts and the sums of the sizes of the used and of the free
  blocks, and the size of the largest free block.\<close>

theorem kheap_stats_exact:
  assumes "heap_rep s bs"
  shows "kheap_get_stats s = Some \<lparr>
     blocks_used = of_nat (length (used_sizes bs)), blocks_free = of_nat (length (free_sizes bs)),
     bytes_used = of_nat (sum_list (used_sizes bs)), bytes_free = of_nat (sum_list (free_sizes bs)),
     largest_free = of_nat (fold max (free_sizes bs) 0), corrupted = False\<rparr>"
proof -
  have "heap_start s = link KS" using assms by (simp add: heap_rep_def link_def KHEAP_START_def)
  then show ?thesis
    using stats_loop_seg [of "heap s" KS bs] assms
    by (simp add: kheap_get_stats_def heap_rep_def chain_def add_stats_def)
qed

theorem kheap_stats_exact_witness:
  "kheap_get_stats small_heap = Some \<lparr>blocks_used = 0, blocks_free = 1, bytes_used = 0,
     bytes_free = 8388592, largest_free = 8388592, corrupted = False\<rparr>"
  using kheap_stats_exact [OF small_heap_rep] by (simp add: used_sizes_def free_sizes_def)

lemma kheap_stats_hang:
  assumes "heap_start s \<noteq> 0" and "h_magic (heap s) (heap_start s) = KHEAP_MAGIC"
    and "h_next (heap s) (heap_start s) = heap_start s"
  shows "kheap_get_stats s = None"
  using assms stats_loop_cycle unfolding kheap_get_stats_def by (metis not_None_eq)



end
