(* ===== verification/Umem.thy ===== *)
theory Umem
  imports Kheap Limits
begin

text \<open>
  Memory of user programs: pages and regions (memory_management/core/umem/umem.c), the system calls
  mmap, munmap and sbrk with their defences mmap_page_count and mmap_ownership, and the defence
  user_ptr_bounds that checks every address a program passes to the kernel.

  The lemmas show that mapping a range is all or nothing and touches no other page, that every page
  handed out is zeroed and has a frame of its own, that regions are found first fit and never
  overlap, that munmap removes exactly what mmap gave, and that an accepted user range lies in user
  space, byte by byte, on mapped user pages.
\<close>

definition USER_SPACE_START :: u32 where "USER_SPACE_START = 0x08000000"
definition USER_SPACE_END :: u32 where "USER_SPACE_END = 0xC0000000"
definition USER_BRK_START :: u32 where "USER_BRK_START = 0x50000000"
definition USER_BRK_END :: u32 where "USER_BRK_END = 0x60000000"
definition MMAP_START :: u32 where "MMAP_START = 0x60000000"
definition MMAP_END :: u32 where "MMAP_END = 0x80000000"
definition UMEM_MAX_REGIONS :: nat where "UMEM_MAX_REGIONS = 32"
definition MMAP_MAX_BYTES :: u32 where "MMAP_MAX_BYTES = 0x1000000"
definition SBRK_FAILED :: u32 where "SBRK_FAILED = 0xFFFFFFFF"

record region_t =
  r_start :: u32
  r_pages :: u32

record umem = kheap +
  uregions :: "nat \<Rightarrow> region_t"
  brk :: u32

section \<open>Pages\<close>

definition page_of :: "u32 \<Rightarrow> nat \<Rightarrow> u32" where
  "page_of start i = start + of_nat i * PAGE_SIZE"

definition umem_unmap_one :: "u32 \<Rightarrow> nat \<Rightarrow> 'a vmm_scheme \<Rightarrow> 'a vmm_scheme" where
  "umem_unmap_one start i s =
     (case vmm_walk (page_of start i) s of (mapped, w) \<Rightarrow>
        if mapped then pmm_free_block (w_physical w AND NOT (PAGE_SIZE - 1)) (vmm_unmap_page (page_of start i) s)
        else s)"

definition umem_unmap :: "u32 \<Rightarrow> nat \<Rightarrow> 'a vmm_scheme \<Rightarrow> 'a vmm_scheme" where
  "umem_unmap start pages s = fold (umem_unmap_one start) [0..<pages] s"

definition zero_page :: "u32 \<Rightarrow> 'a vmm_scheme \<Rightarrow> 'a vmm_scheme" where
  "zero_page virt s = fold (\<lambda>i. poke virt i 0) [0..<1024] s"

definition umem_map_one :: "u32 \<Rightarrow> nat \<Rightarrow> 'a vmm_scheme \<Rightarrow> bool \<times> 'a vmm_scheme" where
  "umem_map_one start i s =
     (case pmm_alloc_block s of (frame, s1) \<Rightarrow>
        if frame = 0 then (False, umem_unmap start i s1)
        else case vmm_map_page (page_of start i) frame (PAGE_WRITABLE OR PAGE_USER) s1 of (ok, s2) \<Rightarrow>
          if \<not> ok then (False, umem_unmap start i (pmm_free_block frame s2))
          else (True, zero_page (page_of start i) s2))"

fun umem_map_loop :: "u32 \<Rightarrow> nat list \<Rightarrow> 'a vmm_scheme \<Rightarrow> bool \<times> 'a vmm_scheme" where
  "umem_map_loop start [] s = (True, s)"
| "umem_map_loop start (i # is) s =
     (case umem_map_one start i s of (ok, s') \<Rightarrow> if ok then umem_map_loop start is s' else (False, s'))"

definition umem_map :: "u32 \<Rightarrow> nat \<Rightarrow> 'a vmm_scheme \<Rightarrow> bool \<times> 'a vmm_scheme" where
  "umem_map start pages s = umem_map_loop start [0..<pages] s"

section \<open>Regions\<close>

definition region_end :: "region_t \<Rightarrow> u32" where
  "region_end r = r_start r + r_pages r * PAGE_SIZE"

definition blocking_region_end :: "u32 \<Rightarrow> u32 \<Rightarrow> 'a umem_scheme \<Rightarrow> u32" where
  "blocking_region_end start pages s =
     (let stop = start + pages * PAGE_SIZE
      in case find (\<lambda>i. r_start (uregions s i) \<noteq> 0 \<and> start < region_end (uregions s i) \<and>
                     r_start (uregions s i) < stop) [0..<UMEM_MAX_REGIONS] of
           None \<Rightarrow> 0
         | Some i \<Rightarrow> region_end (uregions s i))"

lemma blocking_region_end_less:
  "blocking_region_end addr pages s \<noteq> 0 \<Longrightarrow> addr < blocking_region_end addr pages s"
  by (auto simp: blocking_region_end_def Let_def find_Some_iff split: option.splits)

text \<open>The search for an address: past each region in the way.\<close>

function region_search :: "u32 \<Rightarrow> u32 \<Rightarrow> 'a umem_scheme \<Rightarrow> u32 option" where
  "region_search addr pages s =
     (if addr + pages * PAGE_SIZE \<le> MMAP_END then
        (let blocked = blocking_region_end addr pages s
         in if blocked = 0 then Some addr else region_search blocked pages s)
      else None)"
  by auto

termination
proof (relation "measure (\<lambda>(addr, pages, s). 4294967296 - unat addr)")
  fix addr pages :: u32 and s :: "'a umem_scheme" and x
  assume "x = blocking_region_end addr pages s" and "x \<noteq> 0"
  then have "unat addr < unat x" using blocking_region_end_less [of addr pages s] by (simp add: word_less_nat_alt)
  then show "((x, pages, s), addr, pages, s) \<in> measure (\<lambda>(addr, pages, s). 4294967296 - unat addr)"
    by (simp add: diff_less_mono2)
qed simp

declare region_search.simps [simp del]

definition umem_region_add :: "u32 \<Rightarrow> 'a umem_scheme \<Rightarrow> u32 \<times> 'a umem_scheme" where
  "umem_region_add pages s =
     (case find (\<lambda>i. r_start (uregions s i) = 0) [0..<UMEM_MAX_REGIONS] of
        None \<Rightarrow> (0, s)
      | Some slot \<Rightarrow>
          if pages = 0 \<or> pages > (MMAP_END - MMAP_START) div PAGE_SIZE then (0, s)
          else case region_search MMAP_START pages s of
                 None \<Rightarrow> (0, s)
               | Some addr \<Rightarrow>
                   (addr, s\<lparr>uregions := (uregions s)(slot := \<lparr>r_start = addr, r_pages = pages\<rparr>)\<rparr>))"

definition umem_region_pages :: "u32 \<Rightarrow> 'a umem_scheme \<Rightarrow> u32" where
  "umem_region_pages start s =
     (case find (\<lambda>i. start \<noteq> 0 \<and> r_start (uregions s i) = start) [0..<UMEM_MAX_REGIONS] of
        None \<Rightarrow> 0
      | Some i \<Rightarrow> r_pages (uregions s i))"

definition umem_region_remove :: "u32 \<Rightarrow> 'a umem_scheme \<Rightarrow> 'a umem_scheme" where
  "umem_region_remove start s =
     s\<lparr>uregions := (\<lambda>i. if i < UMEM_MAX_REGIONS \<and> start \<noteq> 0 \<and> r_start (uregions s i) = start
                       then (uregions s i)\<lparr>r_start := 0\<rparr> else uregions s i)\<rparr>"

section \<open>System calls\<close>

definition page_count :: "u32 \<Rightarrow> u32 option" where
  "page_count len =
     (if len = 0 \<or> len > MMAP_MAX_BYTES then None
      else Some (len div PAGE_SIZE + (if len mod PAGE_SIZE \<noteq> 0 then 1 else 0)))"

definition def_mmap_page_count :: "u32 \<Rightarrow> 'a umem_scheme \<Rightarrow> u32 option \<times> 'a umem_scheme" where
  "def_mmap_page_count len s =
     (case page_count len of
        Some pages \<Rightarrow> (Some pages, s)
      | None \<Rightarrow> (None, audit_log ''mmap_page_count'' ''mmap length is 0 or too large'' s))"

definition sys_mmap :: "u32 \<Rightarrow> 'a umem_scheme \<Rightarrow> u32 \<times> 'a umem_scheme" where
  "sys_mmap len s =
     (case def_mmap_page_count len s of
        (None, s1) \<Rightarrow> (0, s1)
      | (Some pages, s1) \<Rightarrow>
          (case umem_region_add pages s1 of (start, s2) \<Rightarrow>
             if start = 0 then (0, s2)
             else case umem_map start (unat pages) s2 of (ok, s3) \<Rightarrow>
               if ok then (start, s3) else (0, umem_region_remove start s3)))"

definition owns_region :: "u32 \<Rightarrow> u32 \<Rightarrow> bool" where
  "owns_region recorded pages \<longleftrightarrow> recorded \<noteq> 0 \<and> recorded = pages"

definition def_munmap_allowed :: "u32 \<Rightarrow> u32 \<Rightarrow> 'a umem_scheme \<Rightarrow> bool \<times> 'a umem_scheme" where
  "def_munmap_allowed start pages s =
     (if owns_region (umem_region_pages start s) pages then (True, s)
      else (False, audit_log ''mmap_ownership'' ''munmap refused: not a region mmap() handed out'' s))"

definition sys_munmap :: "u32 \<Rightarrow> u32 \<Rightarrow> 'a umem_scheme \<Rightarrow> int \<times> 'a umem_scheme" where
  "sys_munmap start len s =
     (case def_mmap_page_count len s of
        (None, s1) \<Rightarrow> (-1, s1)
      | (Some pages, s1) \<Rightarrow>
          (case def_munmap_allowed start pages s1 of (ok, s2) \<Rightarrow>
             if ok then (0, umem_region_remove start (umem_unmap start (unat pages) s2)) else (-1, s2)))"

definition page_up :: "u32 \<Rightarrow> u32" where
  "page_up addr = (addr + PAGE_SIZE - 1) AND NOT (PAGE_SIZE - 1)"

text \<open>\<open>wanted\<close> is computed in 64 bits in the source, so it is an integer here.\<close>

definition sys_sbrk :: "int \<Rightarrow> 'a umem_scheme \<Rightarrow> u32 \<times> 'a umem_scheme" where
  "sys_sbrk increment s =
     (let wanted = uint (brk s) + increment;
          allowed = wanted < uint (brk s) \<or>
                    rlimit_data_ok (current_process s) (word_of_int (wanted - uint USER_BRK_START))
      in if allowed \<and> wanted \<ge> uint USER_BRK_START \<and> wanted \<le> uint USER_BRK_END
         then let new_brk = word_of_int wanted;
                  old_top = page_up (brk s);
                  new_top = page_up new_brk;
                  (ok, s1) =
                    (if new_top > old_top then umem_map old_top (unat ((new_top - old_top) div PAGE_SIZE)) s
                     else if new_top < old_top then (True, umem_unmap new_top (unat ((old_top - new_top) div PAGE_SIZE)) s)
                     else (True, s))
              in if ok then (brk s, s1\<lparr>brk := new_brk\<rparr>) else (SBRK_FAILED, s1)
         else (SBRK_FAILED, s))"

section \<open>Defence user_ptr_bounds\<close>

definition in_user_space :: "u32 \<Rightarrow> u32 \<Rightarrow> bool" where
  "in_user_space start sz =
     (if start < USER_SPACE_START \<or> start \<ge> USER_SPACE_END then False
      else sz \<le> USER_SPACE_END - start)"

definition user_page_mapped :: "u32 \<Rightarrow> 'a vmm_scheme \<Rightarrow> bool" where
  "user_page_mapped addr s =
     (case vmm_walk addr s of (mapped, w) \<Rightarrow>
        mapped \<and> w_pde w AND PAGE_USER \<noteq> 0 \<and> w_pte w AND PAGE_USER \<noteq> 0)"

text \<open>The pages from the first byte's to the last byte's; they end below \<open>USER_SPACE_END\<close>.\<close>

definition range_pages :: "u32 \<Rightarrow> u32 \<Rightarrow> u32 list" where
  "range_pages start sz =
     (let first = start AND NOT (PAGE_SIZE - 1);
          last = (if sz \<noteq> 0 then start + sz - 1 else start) AND NOT (PAGE_SIZE - 1)
      in map (page_of first) [0..<Suc (unat ((last - first) div PAGE_SIZE))])"

definition def_user_range_ok :: "u32 \<Rightarrow> u32 \<Rightarrow> 'a vmm_scheme \<Rightarrow> bool \<times> 'a vmm_scheme" where
  "def_user_range_ok start sz s =
     (if \<not> in_user_space start sz
      then (False, audit_log ''user_ptr_bounds'' ''address range outside user space'' s)
      else if list_all (\<lambda>page. user_page_mapped page s) (range_pages start sz) then (True, s)
      else (False, audit_log ''user_ptr_bounds'' ''user buffer is not mapped'' s))"

definition user_byte :: "u32 \<Rightarrow> 'a vmm_scheme \<Rightarrow> u8" where
  "user_byte addr s =
     ucast (drop_bit (8 * unat (addr mod 4)) (peek addr (unat (addr mod PAGE_SIZE div 4)) s))"

fun user_string_loop :: "u32 \<Rightarrow> nat list \<Rightarrow> 'a vmm_scheme \<Rightarrow> bool \<times> 'a vmm_scheme" where
  "user_string_loop start [] s =
     (False, audit_log ''user_ptr_bounds'' ''string has no end within the limit'' s)"
| "user_string_loop start (i # is) s =
     (let addr = start + of_nat i;
          new_page = (i = 0 \<or> addr AND (PAGE_SIZE - 1) = 0)
      in if new_page \<and> (\<not> in_user_space addr 1 \<or> \<not> user_page_mapped addr s)
         then (False, audit_log ''user_ptr_bounds'' ''string is not in mapped user memory'' s)
         else if user_byte addr s = 0 then (True, s)
         else user_string_loop start is s)"

definition def_user_string_ok :: "u32 \<Rightarrow> u32 \<Rightarrow> 'a vmm_scheme \<Rightarrow> bool \<times> 'a vmm_scheme" where
  "def_user_string_ok start limit s = user_string_loop start [0..<unat limit] s"

section \<open>Pages of user programs and their frames\<close>

definition user_page :: "u32 \<Rightarrow> bool" where
  "user_page v \<longleftrightarrow> v mod PAGE_SIZE = 0 \<and> USER_BRK_START \<le> v \<and> v < MMAP_END"

definition frame_of :: "u32 \<Rightarrow> 'a vmm_scheme \<Rightarrow> u32" where
  "frame_of v s = pte_at v s AND NOT PAGE_FLAGS"

text \<open>Frames somebody owns that are not part of the paging structures.\<close>

definition loose :: "'a vmm_scheme \<Rightarrow> u32 set" where
  "loose s = owned s - table_frames s"

definition user_frames :: "'a vmm_scheme \<Rightarrow> u32 set" where
  "user_frames s = (\<lambda>v. frame_of v s) ` {v. user_page v \<and> pte_at v s \<noteq> 0}"

text \<open>Every page a program has is backed by a frame of its own, which nothing else uses.\<close>

definition umem_inv :: "'a vmm_scheme \<Rightarrow> bool" where
  "umem_inv s \<longleftrightarrow>
     vmm_inv s \<and> paging_on s \<and>
     (\<forall>v. user_page v \<and> pte_at v s \<noteq> 0 \<longrightarrow> pte_at v s AND PAGE_PRESENT \<noteq> 0 \<and> frame_of v s \<in> loose s) \<and>
     inj_on (\<lambda>v. frame_of v s) {v. user_page v \<and> pte_at v s \<noteq> 0}"

lemma user_page_same: "user_page v \<Longrightarrow> user_page w \<Longrightarrow> same_page w v \<longleftrightarrow> w = v"
  by (auto simp: user_page_def aligned_iff same_page_def)

lemma user_page_mappable: "user_page v \<Longrightarrow> mappable v"
  by (rule mappable_below) (auto simp: user_page_def MMAP_END_def intro: less_trans)

lemma user_page_dir: "user_page v \<Longrightarrow> dir_index v < 1023"
  using user_page_mappable by (simp add: mappable_def)

lemma umem_invD:
  assumes "umem_inv s"
  shows "vmm_inv s" "paging_on s" "pmm_inv s"
    "user_page v \<Longrightarrow> pte_at v s \<noteq> 0 \<Longrightarrow> pte_at v s AND PAGE_PRESENT \<noteq> 0"
    "user_page v \<Longrightarrow> pte_at v s \<noteq> 0 \<Longrightarrow> frame_of v s \<in> loose s"
    "user_page v \<Longrightarrow> user_page w \<Longrightarrow> pte_at v s \<noteq> 0 \<Longrightarrow> pte_at w s \<noteq> 0 \<Longrightarrow>
       frame_of v s = frame_of w s \<longleftrightarrow> v = w"
  using assms by (auto simp: umem_inv_def vmm_inv_def inj_on_def)

lemma only_tables_loose: "only_tables s s' \<Longrightarrow> f \<in> loose s \<Longrightarrow> mem s' f = mem s f"
  by (auto simp: only_tables_def loose_def owned_def table_frames_def)

text \<open>What a step that works on the pages \<open>R\<close> leaves alone: every other translation, the contents of
  every other page of the program, and the frames that belong to nobody's page.\<close>

definition only_pages :: "u32 set \<Rightarrow> 'a vmm_scheme \<Rightarrow> 'a vmm_scheme \<Rightarrow> bool" where
  "only_pages R s s' \<longleftrightarrow>
     umem_inv s' \<and> vmm.more s' = vmm.more s \<and>
     (\<forall>w. mappable w \<longrightarrow> (\<forall>v \<in> R. \<not> same_page w v) \<longrightarrow> pte_at w s' = pte_at w s) \<and>
     (\<forall>w. user_page w \<longrightarrow> w \<notin> R \<longrightarrow> pte_at w s \<noteq> 0 \<longrightarrow> mem s' (frame_of w s) = mem s (frame_of w s)) \<and>
     loose s' - user_frames s' = loose s - user_frames s"

lemma only_pages_mem:
  "only_pages R s s' \<Longrightarrow> user_page w \<Longrightarrow> w \<notin> R \<Longrightarrow> pte_at w s \<noteq> 0 \<Longrightarrow>
     mem s' (frame_of w s) = mem s (frame_of w s)"
  by (simp add: only_pages_def)

lemma only_pages_refl: "umem_inv s \<Longrightarrow> only_pages R s s"
  by (simp add: only_pages_def)

lemma only_pages_pte:
  assumes "only_pages R s s'" and "\<And>v. v \<in> R \<Longrightarrow> user_page v" and "user_page w" and "w \<notin> R"
  shows "pte_at w s' = pte_at w s" and "frame_of w s' = frame_of w s"
proof -
  have "\<forall>v \<in> R. \<not> same_page w v" using assms(2-4) user_page_same by blast
  then show "pte_at w s' = pte_at w s"
    using assms(1,3) user_page_mappable by (simp add: only_pages_def)
  then show "frame_of w s' = frame_of w s" by (simp add: frame_of_def)
qed

lemma only_pages_trans:
  assumes "only_pages R s s'" and "only_pages Q s' s''" and "\<And>v. v \<in> R \<union> Q \<Longrightarrow> user_page v"
  shows "only_pages (R \<union> Q) s s''"
proof -
  have "mem s'' (frame_of w s) = mem s (frame_of w s)"
    if w: "user_page w" "w \<notin> R \<union> Q" "pte_at w s \<noteq> 0" for w
  proof -
    have e: "pte_at w s' = pte_at w s" "frame_of w s' = frame_of w s"
      using only_pages_pte [OF assms(1)] assms(3) w by auto
    then have "mem s'' (frame_of w s') = mem s' (frame_of w s')" using only_pages_mem [OF assms(2), of w] w by simp
    also have "\<dots> = mem s (frame_of w s)" using only_pages_mem [OF assms(1), of w] w e by simp
    finally show ?thesis by (simp add: e)
  qed
  then show ?thesis using assms(1,2) by (simp add: only_pages_def)
qed

section \<open>One page\<close>

lemma frame_of_entry:
  "frame mod PAGE_SIZE = 0 \<Longrightarrow> page_entry frame (PAGE_WRITABLE OR PAGE_USER) AND NOT PAGE_FLAGS = frame"
  by (simp add: page_entry_def bit.conj_disj_distrib2 entry_aligned aligned_iff)

lemma page_entry_present: "page_entry frame flags AND PAGE_PRESENT \<noteq> 0"
  by (simp add: page_entry_def or.assoc)

lemma present_entry: "x AND PAGE_PRESENT \<noteq> 0 \<Longrightarrow> x \<noteq> 0"
  by auto

lemma mmu_user_page:
  assumes "paging_on s" and "pte_at v s AND PAGE_PRESENT \<noteq> 0"
  shows "mmu v s = Some (frame_of v s)"
  using assms by (auto simp: mmu_def pte_at_def has_table_def table_frame_def frame_of_def Let_def split: if_splits)

lemma write_loose:
  assumes "vmm_inv s" and "f \<notin> table_frames s"
  shows "dir_index v < 1023 \<Longrightarrow> pte_at v (s\<lparr>mem := (mem s)(f := g)\<rparr>) = pte_at v s"
    and "vmm_inv (s\<lparr>mem := (mem s)(f := g)\<rparr>) "
    and "table_frames (s\<lparr>mem := (mem s)(f := g)\<rparr>) = table_frames s"
proof -
  have d: "((mem s)(f := g)) (directory s) = mem s (directory s)" using assms(2) by (auto simp: table_frames_def)
  note t = mem_upd_dir [of "(mem s)(f := g)" s, OF d]
  show "vmm_inv (s\<lparr>mem := (mem s)(f := g)\<rparr>)" using assms(1) t(5) by simp
  show "table_frames (s\<lparr>mem := (mem s)(f := g)\<rparr>) = table_frames s" by (simp add: table_frames_def t(2,3))
  show "dir_index v < 1023 \<Longrightarrow> pte_at v (s\<lparr>mem := (mem s)(f := g)\<rparr>) = pte_at v s"
    using assms(2) by (auto simp: pte_at_def t(2,3) table_frames_def)
qed

lemma zero_page_eq:
  assumes "vmm_inv s" and "paging_on s" and "dir_index v < 1023" and "pte_at v s AND PAGE_PRESENT \<noteq> 0"
    and "frame_of v s \<notin> table_frames s"
  shows "fold (\<lambda>i. poke v i 0) [0..<n] s =
     s\<lparr>mem := (mem s)(frame_of v s := (\<lambda>j. if j < n then 0 else mem s (frame_of v s) j))\<rparr>"
proof (induction n)
  case (Suc n)
  let ?f = "frame_of v s"
  define m where "m = (mem s)(?f := (\<lambda>j. if j < n then 0 else mem s ?f j))"
  have e: "pte_at v (s\<lparr>mem := m\<rparr>) = pte_at v s" using write_loose(1) [OF assms(1,5)] assms(3) by (simp add: m_def)
  then have "mmu v (s\<lparr>mem := m\<rparr>) = Some ?f"
    using mmu_user_page [of "s\<lparr>mem := m\<rparr>" v] assms(2,4) by (simp add: frame_of_def)
  then have "poke v n 0 (s\<lparr>mem := m\<rparr>) = write_mem ?f n 0 (s\<lparr>mem := m\<rparr>)" by (simp add: poke_def)
  also have "\<dots> = s\<lparr>mem := (mem s)(?f := (\<lambda>j. if j < Suc n then 0 else mem s ?f j))\<rparr>"
    by (auto simp: write_mem_def m_def fun_eq_iff less_Suc_eq intro!: arg_cong2 [where f = "\<lambda>x y. mem_update (\<lambda>_. x) y"])
  finally show ?case by (simp add: Suc.IH m_def del: fun_upd_apply)
qed (simp add: fun_upd_idem)

lemma same_pages:
  assumes "mem t = mem s" and "directory t = directory s"
  shows "table_frames t = table_frames s" and "frame_of v t = frame_of v s" and "user_frames t = user_frames s"
  by (simp_all add: table_frames_def frame_of_def user_frames_def same_tables [OF assms] assms(2))

lemma loose_free: "pmm_inv s \<Longrightarrow> loose (pmm_free_block a s) = loose s - {a}"
  using same_pages(1) [of "pmm_free_block a s" s] by (auto simp: loose_def owned_free)

lemma vmm_inv_tables_owned: "vmm_inv s \<Longrightarrow> table_frames s \<subseteq> owned s"
  by (auto simp: vmm_inv_def table_frames_def)

lemma loose_alloc:
  assumes "vmm_inv s" and "pmm_alloc_block s = (a, t)" and "a \<noteq> 0"
  shows "loose t = insert a (loose s)" and "a \<notin> owned s" and "a mod PAGE_SIZE = 0"
proof -
  have p: "pmm_inv s" using assms(1) by (simp add: vmm_inv_def)
  note o = owned_alloc [OF p assms(2)]
  show "a \<notin> owned s" using o(2) assms(3) by simp
  then have "a \<notin> table_frames s" using vmm_inv_tables_owned [OF assms(1)] by auto
  moreover have "table_frames t = table_frames s"
    using pmm_alloc_vmm [of s] assms(2) by (intro same_pages(1)) simp_all
  ultimately show "loose t = insert a (loose s)" using o(1) assms(3) by (auto simp: loose_def)
  show "a mod PAGE_SIZE = 0" using o(2) assms(3) by (simp add: frames_ram_def)
qed

text \<open>Giving a page back: the translation goes, then the frame.\<close>

lemma unmap_and_free:
  fixes s :: "'a vmm_scheme"
  assumes inv: "umem_inv s" and v: "user_page v" and p: "pte_at v s \<noteq> 0"
  defines "s' \<equiv> pmm_free_block (frame_of v s) (vmm_unmap_page v s)"
  shows "only_pages {v} s s'" and "pte_at v s' = 0"
proof -
  let ?f = "frame_of v s" and ?t = "vmm_unmap_page v s"
  note r = vmm_unmap_page_result [OF umem_invD(1) [OF inv] user_page_dir [OF v]]
  have lt: "loose ?t = loose s" using r(4) by (auto simp: loose_def)
  have f: "?f \<in> loose s" using umem_invD(5) [OF inv v p] .
  have same: "mem s' = mem ?t" "directory s' = directory ?t" by (simp_all add: s'_def)
  have pte: "mappable w \<Longrightarrow> pte_at w s' = (if same_page w v then 0 else pte_at w s)" for w
    using r(3) by (simp add: same_tables [OF same] mappable_def)
  then have upte: "user_page w \<Longrightarrow> pte_at w s' = (if w = v then 0 else pte_at w s)" for w
    using user_page_same [OF v] by (simp add: user_page_mappable)
  then show "pte_at v s' = 0" using v by simp
  have fr: "user_page w \<Longrightarrow> w \<noteq> v \<Longrightarrow> frame_of w s' = frame_of w s" for w by (simp add: frame_of_def upte)
  have pt: "pmm_inv ?t" using r(1) by (simp add: vmm_inv_def)
  have l': "loose s' = loose s - {?f}" using loose_free [OF pt] lt by (simp add: s'_def)
  have "vmm_inv s'" using r(1) f lt by (auto simp: s'_def loose_def intro!: vmm_inv_free)
  moreover have "paging_on s'" using r(2) umem_invD(2) [OF inv] by (simp add: s'_def only_tables_def)
  ultimately have "umem_inv s'"
    using umem_invD(4-6) [OF inv] v p by (auto simp: umem_inv_def upte fr l' inj_on_def split: if_splits)
  moreover have "user_frames s' = user_frames s - {?f}"
    using umem_invD(6) [OF inv _ v _ p] by (auto simp: user_frames_def upte fr image_iff split: if_splits) (metis fr)
  then have "loose s' - user_frames s' = loose s - user_frames s"
    using v p by (auto simp: l' user_frames_def)
  moreover have "mem s' (frame_of w s) = mem s (frame_of w s)" if "user_page w" "pte_at w s \<noteq> 0" for w
    using only_tables_loose [OF r(2)] umem_invD(5) [OF inv that] by (simp add: same)
  moreover have "vmm.more s' = vmm.more s" using r(2) by (simp add: s'_def only_tables_def)
  ultimately show "only_pages {v} s s'" by (simp add: only_pages_def pte)
qed

lemma umem_unmap_one_result:
  assumes inv: "umem_inv s" and v: "user_page (page_of start i)"
  shows "only_pages {page_of start i} s (umem_unmap_one start i s)"
    and "pte_at (page_of start i) (umem_unmap_one start i s) = 0"
proof -
  let ?v = "page_of start i"
  note w = vmm_walk_pte [OF umem_invD(1) [OF inv], of ?v]
  have "umem_unmap_one start i s =
      (if pte_at ?v s = 0 then s else pmm_free_block (frame_of ?v s) (vmm_unmap_page ?v s))"
  proof (cases "pte_at ?v s = 0")
    case True
    then show ?thesis using w(1) by (simp add: umem_unmap_one_def case_prod_beta)
  next
    case False
    then have m: "fst (vmm_walk ?v s)" using umem_invD(4) [OF inv v] w(1) by simp
    have "PAGE_SIZE - 1 = PAGE_FLAGS" by (simp add: PAGE_SIZE_def PAGE_FLAGS_def)
    then have "w_physical (snd (vmm_walk ?v s)) AND NOT (PAGE_SIZE - 1) = frame_of ?v s"
      using w(2) [OF m] by (simp add: frame_of_def bit.conj_disj_distrib2 entry_aligned and.assoc)
    then show ?thesis using m False by (simp add: umem_unmap_one_def case_prod_beta)
  qed
  then show "only_pages {?v} s (umem_unmap_one start i s)" "pte_at ?v (umem_unmap_one start i s) = 0"
    using unmap_and_free [OF inv v] only_pages_refl [OF inv] by simp_all
qed

text \<open>Taking a page: a fresh frame, mapped for the program and cleared.\<close>

lemma only_pages_alloc:
  assumes "umem_inv s" and "pmm_alloc_block s = (a, t)"
  shows "umem_inv t" and "mem t = mem s" and "directory t = directory s" and "vmm.more t = vmm.more s"
    and "a = 0 \<Longrightarrow> loose t = loose s"
proof -
  have t: "t = snd (pmm_alloc_block s)" using assms(2) by simp
  show m: "mem t = mem s" "directory t = directory s" "vmm.more t = vmm.more s" by (simp_all add: t)
  note same = same_tables [OF m(1,2)] same_pages [OF m(1,2)]
  have "loose s \<subseteq> loose t" using owned_alloc(1) [OF umem_invD(3) [OF assms(1)] assms(2)]
    by (auto simp: loose_def same split: if_splits)
  moreover have "vmm_inv t" unfolding t using umem_invD(1) [OF assms(1)] by (rule vmm_inv_alloc)
  moreover have "paging_on t" using assms(1) by (simp add: t umem_inv_def)
  ultimately show "umem_inv t" using assms(1) by (auto simp: umem_inv_def same)
  show "a = 0 \<Longrightarrow> loose t = loose s"
    using owned_alloc(1) [OF umem_invD(3) [OF assms(1)] assms(2)] by (simp add: loose_def same)
qed

lemma only_pages_same:
  assumes "umem_inv t" and "mem t = mem s" and "directory t = directory s" and "vmm.more t = vmm.more s"
    and "loose t = loose s"
  shows "only_pages R s t"
  using assms by (simp add: only_pages_def same_tables [OF assms(2,3)] same_pages [OF assms(2,3)])

text \<open>Mapping an unused, owned frame at a page that has none.\<close>

lemma map_user_page:
  fixes s :: "'a vmm_scheme"
  assumes inv: "umem_inv s" and v: "user_page v" and p: "pte_at v s = 0"
    and f: "f \<in> loose s" "f \<notin> user_frames s" "f mod PAGE_SIZE = 0"
    and m: "vmm_map_page v f (PAGE_WRITABLE OR PAGE_USER) s = (True, s')"
  defines "s'' \<equiv> zero_page v s'"
  shows "umem_inv s''" and "vmm.more s'' = vmm.more s" and "loose s'' = loose s"
    and "user_frames s'' = insert f (user_frames s)" and "frame_of v s'' = f" and "j < 1024 \<Longrightarrow> mem s'' f j = 0"
    and "mappable w \<Longrightarrow>
      pte_at w s'' = (if same_page w v then page_entry f (PAGE_WRITABLE OR PAGE_USER) else pte_at w s)"
    and "g \<in> loose s \<Longrightarrow> g \<noteq> f \<Longrightarrow> mem s'' g = mem s g"
proof -
  obtain inv': "vmm_inv s'" and ot: "only_tables s s'"
    and pte: "\<And>w. dir_index w < 1023 \<Longrightarrow>
        pte_at w s' = (if same_page w v then page_entry f (PAGE_WRITABLE OR PAGE_USER) else pte_at w s)"
    and F: "\<exists>F. F \<inter> frames_used s = {} \<and> owned s' = owned s \<union> F \<and> table_frames s' = table_frames s \<union> F"
    using umem_invD(1) [OF inv] user_page_dir [OF v] m
    by (cases rule: vmm_map_page_cases) (simp_all add: page_entry_def)
  have l': "loose s' = loose s" using F by (auto simp: loose_def owned_def)
  have pv: "pte_at v s' = page_entry f (PAGE_WRITABLE OR PAGE_USER)" using pte user_page_dir [OF v] by simp
  have fv: "frame_of v s' = f" using frame_of_entry [OF f(3)] by (simp add: frame_of_def pv)
  have nt: "f \<notin> table_frames s'" using f(1) l' by (auto simp: loose_def)
  have on: "paging_on s'" using ot umem_invD(2) [OF inv] by (simp add: only_tables_def)
  have s'': "s'' = s'\<lparr>mem := (mem s')(f := (\<lambda>j. if j < 1024 then 0 else mem s' f j))\<rparr>"
    using zero_page_eq [OF inv' on user_page_dir [OF v], unfolded fv, of 1024] page_entry_present nt
    by (simp add: s''_def zero_page_def pv)
  note w' = write_loose [OF inv' nt, where g = "\<lambda>j. if j < 1024 then 0 else mem s' f j", folded s'']
  show pte'': "mappable w \<Longrightarrow>
      pte_at w s'' = (if same_page w v then page_entry f (PAGE_WRITABLE OR PAGE_USER) else pte_at w s)" for w
    using pte w'(1) by (simp add: mappable_def)
  show l'': "loose s'' = loose s" using w'(3) l' by (simp add: loose_def) (simp add: s'' owned_def)
  have upte: "pte_at w s'' = (if w = v then page_entry f (PAGE_WRITABLE OR PAGE_USER) else pte_at w s)"
    if "user_page w" for w
    using pte'' user_page_mappable [OF that] user_page_same [OF v that] by simp
  show fr: "frame_of v s'' = f" using frame_of_entry [OF f(3)] by (simp add: frame_of_def upte [OF v])
  have fo: "user_page w \<Longrightarrow> w \<noteq> v \<Longrightarrow> frame_of w s'' = frame_of w s" for w by (simp add: frame_of_def upte)
  have e0: "page_entry f (PAGE_WRITABLE OR PAGE_USER) \<noteq> 0" by (rule present_entry [OF page_entry_present])
  define D where "D = {w. user_page w \<and> pte_at w s \<noteq> 0}"
  have D'': "{w. user_page w \<and> pte_at w s'' \<noteq> 0} = insert v D"
    using v e0 by (auto simp: D_def upte split: if_splits)
  have vD: "v \<notin> D" using p by (simp add: D_def)
  then have fD: "frame_of w s'' = frame_of w s" if "w \<in> D" for w
    using that fo by (auto simp: D_def)
  then have img: "(\<lambda>w. frame_of w s'') ` D = user_frames s"
    unfolding user_frames_def D_def by (intro image_cong) simp_all
  show uf: "user_frames s'' = insert f (user_frames s)"
    using img D'' unfolding user_frames_def [of s''] by (simp add: fr)
  have "inj_on (\<lambda>w. frame_of w s'') D \<longleftrightarrow> inj_on (\<lambda>w. frame_of w s) D" by (rule inj_on_cong) (rule fD)
  then have "inj_on (\<lambda>w. frame_of w s'') (insert v D)"
    using inv vD img f(2) fr by (simp add: umem_inv_def D_def)
  moreover have "pte_at w s'' AND PAGE_PRESENT \<noteq> 0 \<and> frame_of w s'' \<in> loose s''" if "w \<in> insert v D" for w
  proof (cases "w = v")
    case True
    then show ?thesis using page_entry_present f(1) by (simp add: fr l'' upte [OF v])
  next
    case False
    then have "w \<in> D" using that by simp
    then show ?thesis using umem_invD(4,5) [OF inv, of w] False fD by (simp add: D_def upte l'')
  qed
  then have "\<forall>w. user_page w \<and> pte_at w s'' \<noteq> 0 \<longrightarrow>
      pte_at w s'' AND PAGE_PRESENT \<noteq> 0 \<and> frame_of w s'' \<in> loose s''" using D'' by blast
  moreover have "paging_on s''" using on by (simp add: s'')
  ultimately show "umem_inv s''" using w'(2) unfolding umem_inv_def D'' by blast
  show "vmm.more s'' = vmm.more s" using ot by (simp add: s'' only_tables_def)
  show "j < 1024 \<Longrightarrow> mem s'' f j = 0" by (simp add: s'')
  show "g \<in> loose s \<Longrightarrow> g \<noteq> f \<Longrightarrow> mem s'' g = mem s g" using only_tables_loose [OF ot] by (simp add: s'')
qed

lemma umem_map_one_ok:
  assumes inv: "umem_inv s" and v: "user_page (page_of start i)" and p: "pte_at (page_of start i) s = 0"
    and m: "umem_map_one start i s = (True, s')"
  shows "only_pages {page_of start i} s s'"
    and "pte_at (page_of start i) s' = page_entry (frame_of (page_of start i) s') (PAGE_WRITABLE OR PAGE_USER)"
    and "j < 1024 \<Longrightarrow> mem s' (frame_of (page_of start i) s') j = 0"
proof -
  let ?v = "page_of start i"
  obtain f s1 s2 where a: "pmm_alloc_block s = (f, s1)" "f \<noteq> 0"
    and mp: "vmm_map_page ?v f (PAGE_WRITABLE OR PAGE_USER) s1 = (True, s2)" and s': "s' = zero_page ?v s2"
    using m by (auto simp: umem_map_one_def split: prod.splits if_splits)
  note b = only_pages_alloc [OF inv a(1)] and l = loose_alloc [OF umem_invD(1) [OF inv] a]
  note same = same_tables [OF b(2,3)] same_pages [OF b(2,3)]
  have uf: "user_frames s \<subseteq> loose s" using umem_invD(5) [OF inv] by (auto simp: user_frames_def)
  then have nf: "f \<notin> user_frames s" using l(2) by (auto simp: loose_def)
  have "f \<in> loose s1" "f \<notin> user_frames s1" "pte_at ?v s1 = 0" using l(1) nf p by (simp_all add: same)
  note r = map_user_page [OF b(1) v this(3) this(1,2) l(3) mp, folded s']
  have "mem s' (frame_of w s) = mem s (frame_of w s)" if w: "user_page w" "pte_at w s \<noteq> 0" for w
  proof -
    have "frame_of w s \<in> loose s" using umem_invD(5) [OF inv w] .
    moreover have "frame_of w s \<noteq> f" using nf w by (auto simp: user_frames_def)
    ultimately show ?thesis using r(8) l(1) by (simp add: b(2))
  qed
  moreover have "f \<notin> loose s" using l(2) by (simp add: loose_def)
  then have "loose s' - user_frames s' = loose s - user_frames s"
    unfolding r(3,4) same(6) l(1) by blast
  ultimately show "only_pages {?v} s s'" using r(1,2,7) by (simp add: only_pages_def b(4) same)
  show "pte_at ?v s' = page_entry (frame_of ?v s') (PAGE_WRITABLE OR PAGE_USER)"
    using r(7) [OF user_page_mappable [OF v]] by (simp add: r(5))
  show "j < 1024 \<Longrightarrow> mem s' (frame_of ?v s') j = 0" by (simp add: r(5,6))
qed

text \<open>When it fails, the frame it took is back and only the cleanup of the earlier pages is left.\<close>

lemma umem_map_one_fails:
  assumes inv: "umem_inv s" and v: "user_page (page_of start i)" and m: "umem_map_one start i s = (False, s')"
  obtains t where "only_pages {} s t" and "s' = umem_unmap start i t"
proof -
  let ?v = "page_of start i"
  obtain f s1 where a: "pmm_alloc_block s = (f, s1)" by fastforce
  note b = only_pages_alloc [OF inv a]
  show thesis
  proof (cases "f = 0")
    case True
    then have "only_pages {} s s1" using b by (intro only_pages_same) simp_all
    moreover have "s' = umem_unmap start i s1" using m a True by (simp add: umem_map_one_def)
    ultimately show thesis by (rule that)
  next
    case False
    note l = loose_alloc [OF umem_invD(1) [OF inv] a False]
    obtain ok s2 where mp: "vmm_map_page ?v f (PAGE_WRITABLE OR PAGE_USER) s1 = (ok, s2)" by fastforce
    then have "\<not> ok" "s' = umem_unmap start i (pmm_free_block f s2)"
      using m a False by (auto simp: umem_map_one_def split: if_splits)
    moreover have "s2 = s1"
      using vmm.map_fails [OF umem_invD(1) [OF b(1)] user_page_mappable [OF v]] mp \<open>\<not> ok\<close> by (metis fst_conv snd_conv)
    moreover have "only_pages {} s (pmm_free_block f s1)"
    proof (rule only_pages_same)
      let ?t = "pmm_free_block f s1"
      show m': "mem ?t = mem s" "directory ?t = directory s" "vmm.more ?t = vmm.more s" using b(2-4) by simp_all
      show l': "loose ?t = loose s"
        using loose_free [OF umem_invD(3) [OF b(1)]] l(1,2) by (auto simp: loose_def)
      have "f \<notin> table_frames s1"
        using l(2) vmm_inv_tables_owned [OF umem_invD(1) [OF inv]] by (auto simp: same_pages [OF b(2,3)])
      then have "vmm_inv ?t" by (rule vmm_inv_free [OF umem_invD(1) [OF b(1)]])
      moreover have "paging_on ?t" using umem_invD(2) [OF b(1)] by simp
      ultimately show "umem_inv ?t"
        using inv by (simp add: umem_inv_def l' same_tables [OF m'(1,2)] same_pages [OF m'(1,2)])
    qed
    ultimately show thesis using that by simp
  qed
qed

section \<open>Ranges of pages\<close>

definition pages_of :: "u32 \<Rightarrow> nat \<Rightarrow> u32 set" where
  "pages_of start n = page_of start ` {..<n}"

definition user_span :: "u32 \<Rightarrow> nat \<Rightarrow> bool" where
  "user_span start n \<longleftrightarrow>
     start mod PAGE_SIZE = 0 \<and> USER_BRK_START \<le> start \<and> unat start + n * 4096 \<le> unat MMAP_END"

lemma user_span_page:
  assumes "user_span start n" and "i < n"
  shows "unat (page_of start i) = unat start + i * 4096" and "user_page (page_of start i)"
proof -
  have b: "unat start + i * 4096 < 2147483648" using assms by (simp add: user_span_def MMAP_END_def)
  then have i: "unat (of_nat i * PAGE_SIZE :: u32) = i * 4096"
    by (subst unat_mult_u32) (simp_all add: PAGE_SIZE_def unat_of_nat_u32)
  show u: "unat (page_of start i) = unat start + i * 4096"
    using b by (simp add: page_of_def unat_add_u32 i)
  have "unat start mod 4096 = 0" using assms(1) by (simp add: user_span_def PAGE_SIZE_def word_unat_eq_iff unat_mod)
  then have "page_of start i mod PAGE_SIZE = 0" by (simp add: word_unat_eq_iff unat_mod u) (simp add: PAGE_SIZE_def)
  then show "user_page (page_of start i)"
    using assms b by (simp add: user_page_def word_le_nat_alt word_less_nat_alt u user_span_def MMAP_END_def)
qed

lemma user_span_inj: "user_span start n \<Longrightarrow> i < n \<Longrightarrow> j < n \<Longrightarrow> page_of start i = page_of start j \<longleftrightarrow> i = j"
  by (simp add: word_unat_eq_iff user_span_page(1))

lemma user_span_less: "user_span start n \<Longrightarrow> m \<le> n \<Longrightarrow> user_span start m"
  using mult_le_mono1 [of m n 4096] by (simp add: user_span_def)

lemma pages_of_user: "user_span start n \<Longrightarrow> v \<in> pages_of start n \<Longrightarrow> user_page v"
  by (auto simp: pages_of_def user_span_page(2))

lemma pages_of_Suc: "pages_of start (Suc n) = pages_of start n \<union> {page_of start n}"
  by (auto simp: pages_of_def lessThan_Suc)

lemma page_not_before: "user_span start (Suc n) \<Longrightarrow> page_of start n \<notin> pages_of start n"
  using user_span_inj [of start "Suc n"] by (auto simp: pages_of_def)

lemma umem_unmap_result:
  assumes "umem_inv s" and "user_span start n"
  shows "only_pages (pages_of start n) s (umem_unmap start n s) \<and>
     (\<forall>v \<in> pages_of start n. pte_at v (umem_unmap start n s) = 0)"
  using assms(2)
proof (induction n)
  case 0
  then show ?case using only_pages_refl [OF assms(1)] by (simp add: umem_unmap_def pages_of_def)
next
  case (Suc n)
  let ?t = "umem_unmap start n s" and ?v = "page_of start n"
  have sp: "user_span start n" "user_page ?v" using Suc.prems user_span_less user_span_page(2) by force+
  note IH = Suc.IH [OF sp(1)]
  then have "umem_inv ?t" by (simp add: only_pages_def)
  note o = umem_unmap_one_result [OF this sp(2)]
  have e: "umem_unmap start (Suc n) s = umem_unmap_one start n ?t" by (simp add: umem_unmap_def)
  have "only_pages (pages_of start n \<union> {?v}) s (umem_unmap_one start n ?t)"
    using IH o(1) pages_of_user [OF sp(1)] sp(2) by (intro only_pages_trans) auto
  moreover have "pte_at v (umem_unmap_one start n ?t) = 0" if "v \<in> pages_of start n" for v
    using only_pages_pte(1) [OF o(1), of v] IH that pages_of_user [OF sp(1) that] sp(2) page_not_before [OF Suc.prems]
    by auto
  ultimately show ?case using o(2) by (auto simp: e pages_of_Suc)
qed

text \<open>A page as \<open>umem_map\<close> hands it out: writable, for the program, all zero.\<close>

definition fresh_page :: "u32 \<Rightarrow> 'a vmm_scheme \<Rightarrow> bool" where
  "fresh_page v s \<longleftrightarrow>
     pte_at v s = page_entry (frame_of v s) (PAGE_WRITABLE OR PAGE_USER) \<and> (\<forall>j < 1024. mem s (frame_of v s) j = 0)"

lemma fresh_page_nonzero: "fresh_page v s \<Longrightarrow> pte_at v s \<noteq> 0"
  unfolding fresh_page_def using page_entry_present present_entry by metis

lemma fresh_page_kept:
  assumes "only_pages R s s'" and "\<And>v. v \<in> R \<Longrightarrow> user_page v" and "user_page w" and "w \<notin> R" and "fresh_page w s"
  shows "fresh_page w s'"
  using only_pages_pte [OF assms(1-4)] only_pages_mem [OF assms(1,3,4)] fresh_page_nonzero [OF assms(5)] assms(5)
  by (simp add: fresh_page_def)

definition mapped_so_far :: "u32 \<Rightarrow> nat \<Rightarrow> 'a vmm_scheme \<Rightarrow> 'a vmm_scheme \<Rightarrow> bool" where
  "mapped_so_far start i s s' \<longleftrightarrow>
     only_pages (pages_of start i) s s' \<and> (\<forall>v \<in> pages_of start i. fresh_page v s')"

lemma mapped_so_far_step:
  assumes "mapped_so_far start i s0 s" and sp: "user_span start n" and i: "i < n"
    and free: "\<forall>v \<in> pages_of start n. pte_at v s0 = 0"
    and m: "umem_map_one start i s = (True, s')"
  shows "mapped_so_far start (Suc i) s0 s'"
proof -
  have sp': "user_span start i" "user_span start (Suc i)" "user_page (page_of start i)"
    using user_span_less [OF sp] user_span_page(2) [OF sp] i by simp_all
  have o: "only_pages (pages_of start i) s0 s" and fr: "\<forall>v \<in> pages_of start i. fresh_page v s"
    using assms(1) by (simp_all add: mapped_so_far_def)
  have "page_of start i \<in> pages_of start n" using i by (simp add: pages_of_def)
  then have "pte_at (page_of start i) s = 0"
    using only_pages_pte(1) [OF o pages_of_user [OF sp'(1)] sp'(3) page_not_before [OF sp'(2)]] free by simp
  moreover have "umem_inv s" using o by (simp add: only_pages_def)
  ultimately have r: "only_pages {page_of start i} s s'" "fresh_page (page_of start i) s'"
    using umem_map_one_ok [of s start i s'] sp'(3) m by (simp_all add: fresh_page_def)
  have "fresh_page v s'" if "v \<in> pages_of start i" for v
    using fresh_page_kept [OF r(1), of v] sp'(3) pages_of_user [OF sp'(1) that] fr that page_not_before [OF sp'(2)]
    by auto
  moreover have "only_pages (pages_of start i \<union> {page_of start i}) s0 s'"
    using o r(1) pages_of_user [OF sp'(1)] sp'(3) by (intro only_pages_trans) auto
  ultimately show ?thesis using r(2) by (simp add: mapped_so_far_def pages_of_Suc)
qed

lemma only_pages_mono: "only_pages R s s' \<Longrightarrow> R \<subseteq> Q \<Longrightarrow> only_pages Q s s'"
  unfolding only_pages_def by (meson subsetD)

lemma mapped_so_far_fails:
  assumes "mapped_so_far start i s0 s" and sp: "user_span start n" and i: "i < n"
    and free: "\<forall>v \<in> pages_of start n. pte_at v s0 = 0"
    and m: "umem_map_one start i s = (False, s')"
  shows "only_pages (pages_of start n) s0 s' \<and> (\<forall>v \<in> pages_of start n. pte_at v s' = 0)"
proof -
  let ?R = "pages_of start i"
  have sp': "user_span start i" "user_page (page_of start i)"
    using user_span_less [OF sp] user_span_page(2) [OF sp] i by simp_all
  have o: "only_pages ?R s0 s" and "umem_inv s" using assms(1) by (simp_all add: mapped_so_far_def only_pages_def)
  then obtain t where t: "only_pages {} s t" "s' = umem_unmap start i t"
    using umem_map_one_fails [OF _ sp'(2) m] by blast
  then have "umem_inv t" by (simp add: only_pages_def)
  note u = umem_unmap_result [OF this sp'(1), folded t(2)]
  have "only_pages (?R \<union> {}) s0 t" using o t(1) pages_of_user [OF sp'(1)] by (intro only_pages_trans) auto
  then have all: "only_pages (?R \<union> ?R) s0 s'"
    using u pages_of_user [OF sp'(1)] by (intro only_pages_trans [of _ s0 t]) auto
  have "pte_at v s' = 0" if "v \<in> pages_of start n" for v
  proof (cases "v \<in> ?R")
    case False
    then show ?thesis
      using only_pages_pte(1) [OF all, of v] pages_of_user [OF sp'(1)] pages_of_user [OF sp that] free that by auto
  qed (use u in blast)
  moreover have "?R \<subseteq> pages_of start n" using i by (auto simp: pages_of_def)
  ultimately show ?thesis using all only_pages_mono by auto
qed

lemma umem_map_loop_result:
  assumes "mapped_so_far start i s0 s" and "user_span start n" and "i \<le> n"
    and "\<forall>v \<in> pages_of start n. pte_at v s0 = 0" and "umem_map_loop start [i..<n] s = (ok, s')"
  shows "only_pages (pages_of start n) s0 s' \<and>
     (\<forall>v \<in> pages_of start n. if ok then fresh_page v s' else pte_at v s' = 0)"
  using assms
proof (induction "n - i" arbitrary: i s)
  case 0
  then show ?case by (simp add: mapped_so_far_def)
next
  case (Suc k)
  obtain ok1 s1 where o: "umem_map_one start i s = (ok1, s1)" by fastforce
  have i: "i < n" using Suc.hyps(2) by simp
  show ?case
  proof (cases ok1)
    case True
    then have "mapped_so_far start (Suc i) s0 s1"
      using mapped_so_far_step [OF Suc.prems(1,2) i Suc.prems(4)] o by simp
    moreover have "umem_map_loop start [Suc i..<n] s1 = (ok, s')"
      using Suc.prems(5) True o i by (simp add: upt_conv_Cons)
    ultimately show ?thesis using Suc.hyps(1) [of "Suc i" s1] Suc.hyps(2) Suc.prems(2,4) i by simp
  next
    case False
    then have "\<not> ok" "s' = s1" using Suc.prems(5) o i by (simp_all add: upt_conv_Cons)
    then show ?thesis using mapped_so_far_fails [OF Suc.prems(1,2) i Suc.prems(4)] o False by simp
  qed
qed

lemma umem_map_result:
  assumes "umem_inv s" and "user_span start n" and "\<forall>v \<in> pages_of start n. pte_at v s = 0"
    and "umem_map start n s = (ok, s')"
  shows "only_pages (pages_of start n) s s'"
    and "v \<in> pages_of start n \<Longrightarrow> if ok then fresh_page v s' else pte_at v s' = 0"
proof -
  have "mapped_so_far start 0 s s" using only_pages_refl [OF assms(1)] by (simp add: mapped_so_far_def pages_of_def)
  then show "only_pages (pages_of start n) s s'"
    "v \<in> pages_of start n \<Longrightarrow> if ok then fresh_page v s' else pte_at v s' = 0"
    using umem_map_loop_result [of start 0 s s n ok s'] assms(2-4) by (auto simp: umem_map_def)
qed

section \<open>Regions: first fit without overlap\<close>

definition r_end :: "region_t \<Rightarrow> nat" where
  "r_end r = unat (r_start r) + unat (r_pages r) * 4096"

definition region_ok :: "region_t \<Rightarrow> bool" where
  "region_ok r \<longleftrightarrow> r_start r = 0 \<or>
     (r_start r mod PAGE_SIZE = 0 \<and> MMAP_START \<le> r_start r \<and> r_pages r \<noteq> 0 \<and> r_end r \<le> unat MMAP_END)"

text \<open>Region \<open>r\<close> and \<open>n\<close> pages at byte address \<open>a\<close> have a byte in common.\<close>

definition overlaps :: "region_t \<Rightarrow> nat \<Rightarrow> nat \<Rightarrow> bool" where
  "overlaps r a n \<longleftrightarrow> r_start r \<noteq> 0 \<and> a < r_end r \<and> unat (r_start r) < a + n * 4096"

definition regions_inv :: "'a umem_scheme \<Rightarrow> bool" where
  "regions_inv s \<longleftrightarrow>
     (\<forall>i < UMEM_MAX_REGIONS. region_ok (uregions s i)) \<and>
     (\<forall>i < UMEM_MAX_REGIONS. \<forall>j < UMEM_MAX_REGIONS. i \<noteq> j \<longrightarrow> r_start (uregions s j) \<noteq> 0 \<longrightarrow>
        \<not> overlaps (uregions s i) (unat (r_start (uregions s j))) (unat (r_pages (uregions s j))))"

lemma region_end_nat: "region_ok r \<Longrightarrow> r_start r \<noteq> 0 \<Longrightarrow> unat (region_end r) = r_end r"
proof -
  assume r: "region_ok r" "r_start r \<noteq> 0"
  then have b: "unat (r_start r) + unat (r_pages r) * 4096 < 4294967296"
    by (auto simp: region_ok_def r_end_def MMAP_END_def)
  then have "unat (r_pages r * PAGE_SIZE) = unat (r_pages r) * 4096"
    by (subst unat_mult_u32) (simp_all add: PAGE_SIZE_def)
  then show ?thesis using b by (simp add: region_end_def r_end_def unat_add_u32)
qed

lemma region_end_aligned:
  assumes "region_ok r" and "r_start r \<noteq> 0"
  shows "region_end r mod PAGE_SIZE = 0" and "region_end r \<noteq> 0"
proof -
  have "unat (r_start r) mod 4096 = 0"
    using assms by (simp add: region_ok_def PAGE_SIZE_def word_unat_eq_iff unat_mod)
  then have "r_end r mod 4096 = 0" by (simp add: r_end_def)
  then show "region_end r mod PAGE_SIZE = 0"
    by (simp add: word_unat_eq_iff unat_mod region_end_nat [OF assms]) (simp add: PAGE_SIZE_def)
  have "unat (r_start r) \<noteq> 0" using assms(2) by (simp add: unat_eq_zero)
  then have "r_end r \<noteq> 0" by (simp add: r_end_def)
  then show "region_end r \<noteq> 0" using region_end_nat [OF assms] by auto
qed

lemma span_end_nat:
  assumes "unat a \<le> unat MMAP_END" and "pages \<le> (MMAP_END - MMAP_START) div PAGE_SIZE"
  shows "unat (a + pages * PAGE_SIZE) = unat a + unat pages * 4096"
proof -
  have p: "unat pages \<le> 131072"
    using assms(2) by (simp add: word_le_nat_alt unat_div MMAP_END_def MMAP_START_def PAGE_SIZE_def)
  then have "unat (pages * PAGE_SIZE) = unat pages * 4096" by (subst unat_mult_u32) (simp_all add: PAGE_SIZE_def)
  then show ?thesis using p assms(1) by (simp add: unat_add_u32 MMAP_END_def)
qed

lemma blocking_region:
  assumes ok: "\<forall>i < UMEM_MAX_REGIONS. region_ok (uregions s i)"
    and a: "unat a \<le> unat MMAP_END" and p: "pages \<le> (MMAP_END - MMAP_START) div PAGE_SIZE"
  obtains (none) "blocking_region_end a pages s = 0"
      and "\<And>i. i < UMEM_MAX_REGIONS \<Longrightarrow> \<not> overlaps (uregions s i) (unat a) (unat pages)"
  | (some) i where "i < UMEM_MAX_REGIONS" and "overlaps (uregions s i) (unat a) (unat pages)"
      and "blocking_region_end a pages s = region_end (uregions s i)"
proof -
  let ?P = "\<lambda>i. r_start (uregions s i) \<noteq> 0 \<and> a < region_end (uregions s i) \<and>
    r_start (uregions s i) < a + pages * PAGE_SIZE"
  have o: "?P i \<longleftrightarrow> overlaps (uregions s i) (unat a) (unat pages)" if "i < UMEM_MAX_REGIONS" for i
    using region_end_nat [OF ok [rule_format, OF that]] span_end_nat [OF a p]
    by (auto simp: overlaps_def word_less_nat_alt)
  show thesis
  proof (cases "find ?P [0..<UMEM_MAX_REGIONS]")
    case None
    then have "blocking_region_end a pages s = 0" by (simp add: blocking_region_end_def Let_def)
    moreover have "\<not> overlaps (uregions s i) (unat a) (unat pages)" if "i < UMEM_MAX_REGIONS" for i
      using None o [OF that] that unfolding find_upt_None by blast
    ultimately show thesis by (rule none)
  next
    case (Some i)
    then have i: "i < UMEM_MAX_REGIONS" "?P i" by (auto dest: find_Some_nth_least)
    then show thesis using o [OF i(1)] Some by (intro some [of i]) (simp_all add: blocking_region_end_def Let_def)
  qed
qed

text \<open>The search ends at the lowest address from \<open>a\<close> on where the pages fit, or there is none.\<close>

lemma region_search_result:
  assumes ok: "\<forall>i < UMEM_MAX_REGIONS. region_ok (uregions s i)"
    and p: "pages \<le> (MMAP_END - MMAP_START) div PAGE_SIZE"
    and "unat a \<le> unat MMAP_END" and "a mod PAGE_SIZE = 0"
  shows "case region_search a pages s of
      Some b \<Rightarrow> a \<le> b \<and> b mod PAGE_SIZE = 0 \<and> unat b + unat pages * 4096 \<le> unat MMAP_END \<and>
        (\<forall>i < UMEM_MAX_REGIONS. \<not> overlaps (uregions s i) (unat b) (unat pages)) \<and>
        (\<forall>c. unat a \<le> c \<longrightarrow> c < unat b \<longrightarrow> (\<exists>i < UMEM_MAX_REGIONS. overlaps (uregions s i) c (unat pages)))
    | None \<Rightarrow> (\<forall>c. unat a \<le> c \<longrightarrow> c + unat pages * 4096 \<le> unat MMAP_END \<longrightarrow>
        (\<exists>i < UMEM_MAX_REGIONS. overlaps (uregions s i) c (unat pages)))"
  using assms
proof (induction a pages s rule: region_search.induct)
  case (1 a pages s)
  note ok = "1.prems"(1) and p = "1.prems"(2) and a = "1.prems"(3) and al = "1.prems"(4)
  have e: "unat (a + pages * PAGE_SIZE) = unat a + unat pages * 4096" by (rule span_end_nat [OF a p])
  show ?case
  proof (cases "a + pages * PAGE_SIZE \<le> MMAP_END")
    case False
    then show ?thesis by (subst region_search.simps) (simp add: word_le_nat_alt e)
  next
    case fits: True
    show ?thesis
    proof (cases rule: blocking_region [OF ok a p, case_names none some])
      case none
      have "region_search a pages s = Some a" using fits none(1) by (subst region_search.simps) simp
      then show ?thesis using none(2) al fits e by (simp add: word_le_nat_alt)
    next
      case (some i)
      let ?b = "region_end (uregions s i)"
      have st: "r_start (uregions s i) \<noteq> 0" using some(2) by (simp add: overlaps_def)
      note b = region_end_nat [OF ok [rule_format, OF some(1)] st] and bal = region_end_aligned [OF ok [rule_format, OF some(1)] st]
      have rs: "region_search a pages s = region_search ?b pages s"
        using fits some(3) bal(2) by (subst region_search.simps) (simp add: Let_def)
      have le: "unat ?b \<le> unat MMAP_END" using ok [rule_format, OF some(1)] st by (simp add: b region_ok_def)
      have between: "overlaps (uregions s i) c (unat pages)" if "unat a \<le> c" "c < unat ?b" for c
        using some(2) that by (auto simp: overlaps_def b)
      have ab: "a \<le> ?b" using some(2) by (simp add: overlaps_def b word_le_nat_alt)
      note IH = "1.IH" [OF fits some(3) [symmetric] bal(2) ok p le bal(1)]
      have far: "unat ?b \<le> c" if "unat a \<le> c" "\<not> (\<exists>i < UMEM_MAX_REGIONS. overlaps (uregions s i) c (unat pages))" for c
        using between [of c] some(1) that by (meson not_le)
      show ?thesis
      proof (cases "region_search ?b pages s")
        case None
        then show ?thesis using IH far by (simp add: rs) blast
      next
        case (Some x)
        then show ?thesis using IH far ab by (simp add: rs) (meson order_trans)
      qed
    qed
  qed
qed

text \<open>The regions a program holds, as pairs of a start address and a number of pages.\<close>

definition recorded :: "'a umem_scheme \<Rightarrow> (u32 \<times> u32) set" where
  "recorded s = {(r_start (uregions s i), r_pages (uregions s i)) | i. i < UMEM_MAX_REGIONS \<and> r_start (uregions s i) \<noteq> 0}"

lemma in_pages_of:
  assumes "user_span start n" and "user_page v"
  shows "v \<in> pages_of start n \<longleftrightarrow> unat start \<le> unat v \<and> unat v < unat start + n * 4096"
proof
  assume "v \<in> pages_of start n"
  then show "unat start \<le> unat v \<and> unat v < unat start + n * 4096"
    using user_span_page(1) [OF assms(1)] by (auto simp: pages_of_def)
next
  assume b: "unat start \<le> unat v \<and> unat v < unat start + n * 4096"
  define i where "i = (unat v - unat start) div 4096"
  have "unat start mod 4096 = 0" "unat v mod 4096 = 0"
    using assms by (simp_all add: user_span_def user_page_def PAGE_SIZE_def word_unat_eq_iff unat_mod)
  then have "(unat v - unat start) mod 4096 = 0" unfolding mod_eq_0_iff_dvd by (intro dvd_diff_nat)
  then have "unat v = unat start + i * 4096" using b div_mult_mod_eq [of "unat v - unat start" 4096] by (simp add: i_def)
  moreover from this have "i < n" using b by simp
  ultimately have "v = page_of start i" using user_span_page(1) [OF assms(1)] by (simp add: word_unat_eq_iff)
  then show "v \<in> pages_of start n" using \<open>i < n\<close> by (simp add: pages_of_def)
qed

lemma region_span:
  assumes "region_ok r" and "r_start r \<noteq> 0"
  shows "user_span (r_start r) (unat (r_pages r))"
proof -
  have "USER_BRK_START \<le> MMAP_START" by (simp add: USER_BRK_START_def MMAP_START_def)
  then show ?thesis using assms by (auto simp: region_ok_def r_end_def user_span_def)
qed

lemma recorded_span:
  assumes "regions_inv s" and "(b, q) \<in> recorded s"
  shows "user_span b (unat q)" and "MMAP_START \<le> b" and "q \<noteq> 0"
  using assms region_span by (auto simp: recorded_def regions_inv_def region_ok_def)

lemma not_overlaps_pages:
  assumes "region_ok r" and "r_start r \<noteq> 0" and "user_span a n" and "\<not> overlaps r (unat a) n"
  shows "pages_of (r_start r) (unat (r_pages r)) \<inter> pages_of a n = {}"
proof -
  have False if v: "v \<in> pages_of (r_start r) (unat (r_pages r))" "v \<in> pages_of a n" for v
  proof -
    have "user_page v" using pages_of_user [OF assms(3) v(2)] .
    then have "unat (r_start r) \<le> unat v \<and> unat v < r_end r" "unat a \<le> unat v \<and> unat v < unat a + n * 4096"
      using v in_pages_of region_span [OF assms(1,2)] assms(3) by (simp_all add: r_end_def)
    then show False using assms(2,4) by (simp add: overlaps_def)
  qed
  then show ?thesis by blast
qed

lemma recorded_disjoint:
  assumes inv: "regions_inv s" and "(a, p) \<in> recorded s" and "(b, q) \<in> recorded s" and ne: "(a, p) \<noteq> (b, q)"
  shows "pages_of a (unat p) \<inter> pages_of b (unat q) = {}"
proof -
  obtain i j where i: "i < UMEM_MAX_REGIONS" "r_start (uregions s i) \<noteq> 0" "a = r_start (uregions s i)" "p = r_pages (uregions s i)"
    and j: "j < UMEM_MAX_REGIONS" "r_start (uregions s j) \<noteq> 0" "b = r_start (uregions s j)" "q = r_pages (uregions s j)"
    using assms(2,3) by (auto simp: recorded_def)
  have "i \<noteq> j" using ne i(3,4) j(3,4) by auto
  then have "\<not> overlaps (uregions s i) (unat b) (unat q)" using inv i j by (simp add: regions_inv_def)
  then show ?thesis
    using not_overlaps_pages [of "uregions s i" b "unat q"] recorded_span(1) [OF inv assms(3)] inv i
    by (simp add: regions_inv_def)
qed

lemma recorded_unique:
  assumes "regions_inv s" and "(a, p) \<in> recorded s" and "(a, q) \<in> recorded s"
  shows "p = q"
proof (rule ccontr)
  assume "p \<noteq> q"
  then have "pages_of a (unat p) \<inter> pages_of a (unat q) = {}" using recorded_disjoint [OF assms] by simp
  moreover have "page_of a 0 \<in> pages_of a (unat p) \<inter> pages_of a (unat q)"
    using recorded_span(3) [OF assms(1,2)] recorded_span(3) [OF assms(1,3)] by (simp add: pages_of_def unat_gt_0)
  ultimately show False by blast
qed

lemma umem_region_pages_eq:
  assumes "regions_inv s"
  shows "umem_region_pages start s = pages \<and> pages \<noteq> 0 \<longleftrightarrow> (start, pages) \<in> recorded s"
proof (cases "find (\<lambda>i. start \<noteq> 0 \<and> r_start (uregions s i) = start) [0..<UMEM_MAX_REGIONS]")
  case None
  then have "umem_region_pages start s = 0" by (simp add: umem_region_pages_def)
  moreover have "(start, pages) \<notin> recorded s" using None unfolding find_upt_None recorded_def by auto
  ultimately show ?thesis by auto
next
  case (Some i)
  then have i: "i < UMEM_MAX_REGIONS" "start \<noteq> 0" "r_start (uregions s i) = start"
    by (auto dest: find_Some_nth_least)
  then have "(start, r_pages (uregions s i)) \<in> recorded s" by (auto simp: recorded_def)
  moreover have "umem_region_pages start s = r_pages (uregions s i)" using Some by (simp add: umem_region_pages_def)
  ultimately show ?thesis using recorded_unique [OF assms] recorded_span(3) [OF assms] by metis
qed

lemma umem_region_add_result:
  assumes inv: "regions_inv s" and add: "umem_region_add pages s = (a, s')" and nz: "a \<noteq> 0"
  obtains slot where "slot < UMEM_MAX_REGIONS" "r_start (uregions s slot) = 0"
    "s' = s\<lparr>uregions := (uregions s)(slot := \<lparr>r_start = a, r_pages = pages\<rparr>)\<rparr>"
    "user_span a (unat pages)" "MMAP_START \<le> a" "pages \<noteq> 0"
    "\<forall>i < UMEM_MAX_REGIONS. \<not> overlaps (uregions s i) (unat a) (unat pages)"
    "\<forall>c. unat MMAP_START \<le> c \<longrightarrow> c < unat a \<longrightarrow> (\<exists>i < UMEM_MAX_REGIONS. overlaps (uregions s i) c (unat pages))"
proof -
  have ok: "\<forall>i < UMEM_MAX_REGIONS. region_ok (uregions s i)" using inv by (simp add: regions_inv_def)
  obtain slot where slot: "find (\<lambda>i. r_start (uregions s i) = 0) [0..<UMEM_MAX_REGIONS] = Some slot"
    and p: "pages \<noteq> 0" "pages \<le> (MMAP_END - MMAP_START) div PAGE_SIZE"
    and a: "region_search MMAP_START pages s = Some a"
    and s': "s' = s\<lparr>uregions := (uregions s)(slot := \<lparr>r_start = a, r_pages = pages\<rparr>)\<rparr>"
    using add nz by (auto simp: umem_region_add_def split: option.splits if_splits)
  have "unat MMAP_START \<le> unat MMAP_END" "MMAP_START mod PAGE_SIZE = 0"
    by (simp_all add: MMAP_START_def MMAP_END_def PAGE_SIZE_def)
  note r = region_search_result [OF ok p(2) this, unfolded a option.case]
  have "USER_BRK_START \<le> MMAP_START" by (simp add: USER_BRK_START_def MMAP_START_def)
  then have "user_span a (unat pages)" using r by (auto simp: user_span_def)
  then show thesis using that [of slot] find_Some_nth_least(1,2) [OF slot] s' p(1) r by simp
qed

lemma umem_region_add_fails:
  assumes "regions_inv s" and "umem_region_add pages s = (0, s')"
  shows "s' = s"
proof (rule ccontr)
  assume ne: "s' \<noteq> s"
  then have a: "region_search MMAP_START pages s = Some 0" "pages \<le> (MMAP_END - MMAP_START) div PAGE_SIZE"
    using assms(2) by (auto simp: umem_region_add_def split: option.splits if_splits)
  have "\<forall>i < UMEM_MAX_REGIONS. region_ok (uregions s i)" using assms(1) by (simp add: regions_inv_def)
  from region_search_result [OF this a(2), of MMAP_START] have "MMAP_START \<le> 0"
    by (simp add: a(1)) (simp add: MMAP_START_def MMAP_END_def PAGE_SIZE_def)
  then show False by (simp add: MMAP_START_def)
qed

lemma umem_region_add_inv:
  assumes inv: "regions_inv s" and add: "umem_region_add pages s = (a, s')" and nz: "a \<noteq> 0"
  shows "regions_inv s'" and "recorded s' = insert (a, pages) (recorded s)" and "(a, pages) \<notin> recorded s"
    and "(b, q) \<in> recorded s \<Longrightarrow> pages_of b (unat q) \<inter> pages_of a (unat pages) = {}"
proof -
  obtain slot where r: "slot < UMEM_MAX_REGIONS" "r_start (uregions s slot) = 0"
    "s' = s\<lparr>uregions := (uregions s)(slot := \<lparr>r_start = a, r_pages = pages\<rparr>)\<rparr>"
    "user_span a (unat pages)" "MMAP_START \<le> a" "pages \<noteq> 0"
    "\<forall>i < UMEM_MAX_REGIONS. \<not> overlaps (uregions s i) (unat a) (unat pages)"
    using umem_region_add_result [OF assms] by metis
  have ok: "region_ok (uregions s i)" if "i < UMEM_MAX_REGIONS" for i using inv that by (simp add: regions_inv_def)
  have new: "region_ok \<lparr>r_start = a, r_pages = pages\<rparr>"
    using r(4,5,6) by (simp add: region_ok_def user_span_def r_end_def)
  have other: "\<not> overlaps \<lparr>r_start = a, r_pages = pages\<rparr> (unat (r_start (uregions s i))) (unat (r_pages (uregions s i)))"
    if "i < UMEM_MAX_REGIONS" "r_start (uregions s i) \<noteq> 0" for i
    using r(7) that by (auto simp: overlaps_def r_end_def)
  show "regions_inv s'"
    using inv new ok other r(7) by (auto simp: regions_inv_def r(3))
  show "recorded s' = insert (a, pages) (recorded s)"
    using r(1,2) nz by (auto simp: recorded_def r(3))
  show d: "pages_of b (unat q) \<inter> pages_of a (unat pages) = {}" if "(b, q) \<in> recorded s" for b q
    using that r(7) ok not_overlaps_pages [OF _ _ r(4)] by (auto simp: recorded_def)
  have "page_of a 0 \<in> pages_of a (unat pages)" using r(6) by (simp add: pages_of_def unat_gt_0)
  then show "(a, pages) \<notin> recorded s" using d by auto
qed

lemma umem_region_remove_inv:
  assumes "regions_inv s" and "start \<noteq> 0"
  shows "regions_inv (umem_region_remove start s)"
    and "recorded (umem_region_remove start s) = {x \<in> recorded s. fst x \<noteq> start}"
  using assms by (auto simp: regions_inv_def recorded_def umem_region_remove_def region_ok_def overlaps_def r_end_def)

section \<open>The layout of a program's memory\<close>

text \<open>The predicates on pages look at the frame allocator's bitmap and at the tables only.\<close>

definition same_memory :: "'a vmm_scheme \<Rightarrow> 'a vmm_scheme \<Rightarrow> bool" where
  "same_memory s t \<longleftrightarrow>
     bitmap t = bitmap s \<and> total_frames t = total_frames s \<and> used_frames t = used_frames s \<and>
     reserved t = reserved s \<and> reserved_count t = reserved_count s \<and> directory t = directory s \<and>
     mem t = mem s \<and> paging_on t = paging_on s \<and> halted t = halted s"

lemma same_memory_sym: "same_memory s t \<Longrightarrow> same_memory t s"
  by (simp add: same_memory_def)

lemma same_memoryD:
  assumes "same_memory s t"
  shows "umem_inv t = umem_inv s" and "pte_at v t = pte_at v s" and "frame_of v t = frame_of v s"
    and "loose t = loose s" and "user_frames t = user_frames s" and "mem t = mem s" and "vmm_walk v t = vmm_walk v s"
proof -
  have f: "mem t = mem s" "directory t = directory s" using assms by (simp_all add: same_memory_def)
  show "mem t = mem s" by (rule f(1))
  note same = same_tables [OF f] same_pages [OF f] pde_cong [OF f]
  show "pte_at v t = pte_at v s" "frame_of v t = frame_of v s" "user_frames t = user_frames s" by (simp_all add: same)
  have p: "pmm_inv t = pmm_inv s" "owned t = owned s"
    using assms by (simp_all add: same_memory_def pmm_inv_def owned_def frames_ram_def frames_used_def frames_pinned_def
        is_used_def pmm_is_reserved_def)
  then show "loose t = loose s" by (simp add: loose_def same)
  then show "umem_inv t = umem_inv s"
    using assms p by (simp add: umem_inv_def vmm_inv_def same) (simp add: same_memory_def)
  have "paging_on t = paging_on s" using assms by (simp add: same_memory_def)
  then show "vmm_walk v t = vmm_walk v s"
    by (simp add: vmm_walk_def table_at_def peek_def mmu_def same f Let_def)
qed

lemma same_memory_updates [simp]:
  "same_memory s (uregions_update f s)" "same_memory s (brk_update g s)" "same_memory s (audit_log d r s)"
  "same_memory s s"
  by (simp_all add: same_memory_def pmm_more_vmm [OF audit_log_pmm(9)])

lemma vmm_more_umem:
  assumes "vmm.more s = vmm.more (t :: 'a umem_scheme)"
  shows "uregions s = uregions t" "brk s = brk t"
  using assms by (cases s; cases t; simp)+

lemma audit_log_umem [simp]: "uregions (audit_log d r s) = uregions s" "brk (audit_log d r s) = brk s"
  by (rule vmm_more_umem, simp add: pmm_more_vmm [OF audit_log_pmm(9)])+

definition keeps_pages :: "u32 set \<Rightarrow> 'a vmm_scheme \<Rightarrow> 'a vmm_scheme \<Rightarrow> bool" where
  "keeps_pages R s s' \<longleftrightarrow>
     (\<forall>w. mappable w \<longrightarrow> (\<forall>v \<in> R. \<not> same_page w v) \<longrightarrow> pte_at w s' = pte_at w s) \<and>
     (\<forall>w. user_page w \<longrightarrow> w \<notin> R \<longrightarrow> pte_at w s \<noteq> 0 \<longrightarrow> mem s' (frame_of w s) = mem s (frame_of w s)) \<and>
     loose s' - user_frames s' = loose s - user_frames s"

lemma only_pages_keeps: "only_pages R s s' \<Longrightarrow> keeps_pages R s s'"
  by (simp add: only_pages_def keeps_pages_def)

lemma keeps_same_memory: "keeps_pages R s s' \<Longrightarrow> same_memory s t \<Longrightarrow> same_memory s' t' \<Longrightarrow> keeps_pages R t t'"
  by (simp add: keeps_pages_def same_memoryD)

lemma keeps_pages_refl [simp]: "same_memory s t \<Longrightarrow> keeps_pages R s t"
  by (simp add: keeps_pages_def same_memoryD)

lemma keeps_pages_trans:
  assumes "keeps_pages R s t" and "keeps_pages R t u" and "\<And>v. v \<in> R \<Longrightarrow> user_page v"
  shows "keeps_pages R s u"
proof -
  have "mem u (frame_of w s) = mem s (frame_of w s)" if w: "user_page w" "w \<notin> R" "pte_at w s \<noteq> 0" for w
  proof -
    have "\<forall>v \<in> R. \<not> same_page w v" using assms(3) w user_page_same by blast
    then have e: "pte_at w t = pte_at w s" "frame_of w t = frame_of w s"
      using assms(1) user_page_mappable [OF w(1)] by (simp_all add: keeps_pages_def frame_of_def)
    have "mem u (frame_of w t) = mem t (frame_of w t)"
      using assms(2) w e(1) unfolding keeps_pages_def by presburger
    then show ?thesis using assms(1) w e(2) by (simp add: keeps_pages_def)
  qed
  then show ?thesis using assms(1,2) by (simp add: keeps_pages_def)
qed

text \<open>The pages a program has are those below its break and those of its regions, no others.\<close>

definition memory_layout :: "'a umem_scheme \<Rightarrow> bool" where
  "memory_layout s \<longleftrightarrow>
     umem_inv s \<and> regions_inv s \<and> USER_BRK_START \<le> brk s \<and> brk s \<le> USER_BRK_END \<and>
     (\<forall>v. user_page v \<longrightarrow>
        (pte_at v s \<noteq> 0 \<longleftrightarrow> v < page_up (brk s) \<or> (\<exists>(a, n) \<in> recorded s. v \<in> pages_of a (unat n))))"

lemma recorded_cong: "uregions t = uregions s \<Longrightarrow> recorded t = recorded s"
  by (simp add: recorded_def)

lemma regions_inv_cong: "uregions t = uregions s \<Longrightarrow> regions_inv t = regions_inv s"
  by (simp add: regions_inv_def)

lemma memory_layout_same:
  "same_memory s t \<Longrightarrow> uregions t = uregions s \<Longrightarrow> brk t = brk s \<Longrightarrow> memory_layout t = memory_layout s"
  using recorded_cong [of t s] regions_inv_cong [of t s] by (simp add: memory_layout_def same_memoryD)

lemma audit_log_layout [simp]:
  "recorded (audit_log d r s) = recorded s" "memory_layout (audit_log d r s) = memory_layout s"
  by (rule recorded_cong, simp) (rule memory_layout_same, simp_all)

lemma pages_for:
  assumes "0 < n" and "n \<le> (16777216 :: nat)"
  shows "0 < n div 4096 + (if n mod 4096 \<noteq> 0 then 1 else 0) \<and> n div 4096 + (if n mod 4096 \<noteq> 0 then 1 else 0) \<le> 4096"
proof (cases "n mod 4096 = 0")
  case True
  then have "4096 \<le> n" using assms(1) by (metis mod_less not_le not_gr_zero)
  then show ?thesis using True assms(2) by (simp add: div_greater_zero_iff div_le_mono [of _ 16777216 4096, simplified])
next
  case False
  then have "n \<noteq> 16777216" by auto
  then have "n div 4096 < 4096" using assms(2) by (simp add: div_less_iff_less_mult)
  then show ?thesis using False by simp
qed

lemma page_count_bounds:
  assumes "page_count len = Some pages"
  shows "pages \<noteq> 0" and "unat pages \<le> 4096"
proof -
  have len: "len \<noteq> 0" "unat len \<le> 16777216" and
    p: "pages = len div PAGE_SIZE + (if len mod PAGE_SIZE \<noteq> 0 then 1 else 0)"
    using assms by (auto simp: page_count_def MMAP_MAX_BYTES_def word_less_nat_alt split: if_splits)
  have d: "unat (len div PAGE_SIZE) = unat len div 4096" "unat (len mod PAGE_SIZE) = unat len mod 4096"
    by (simp_all add: unat_div unat_mod PAGE_SIZE_def)
  have "unat len div 4096 \<le> 4096" using len(2) by (simp add: div_le_mono [of _ 16777216 4096, simplified])
  then have "unat pages = unat len div 4096 + (if unat len mod 4096 \<noteq> 0 then 1 else 0)"
    unfolding p by (subst unat_add_u32) (auto simp: d word_unat_eq_iff)
  moreover have "unat len \<noteq> 0" using len(1) by (simp add: unat_eq_zero)
  ultimately have "0 < unat pages \<and> unat pages \<le> 4096" using pages_for [OF _ len(2)] by simp
  then show "pages \<noteq> 0" and "unat pages \<le> 4096" by auto
qed

lemma page_up_nat:
  assumes "b \<le> USER_BRK_END"
  shows "unat (page_up b) = (unat b + 4095) div 4096 * 4096"
proof -
  have "unat b \<le> 0x60000000" using assms by (simp add: word_le_nat_alt USER_BRK_END_def)
  then have "unat (b + 4095) = unat b + 4095" by (subst unat_add_u32) simp_all
  moreover have "page_up b = (b + 4095) AND NOT PAGE_FLAGS"
    by (simp add: page_up_def PAGE_SIZE_def PAGE_FLAGS_def add.commute)
  ultimately show ?thesis by (simp add: unat_page)
qed

lemma page_up_bounds:
  assumes "USER_BRK_START \<le> b" and "b \<le> USER_BRK_END"
  shows "page_up b mod PAGE_SIZE = 0" and "USER_BRK_START \<le> page_up b" and "page_up b \<le> USER_BRK_END"
    and "unat b \<le> unat (page_up b)"
proof -
  note u = page_up_nat [OF assms(2)]
  have bd: "0x50000000 \<le> unat b" "unat b \<le> 0x60000000"
    using assms by (simp_all add: word_le_nat_alt USER_BRK_START_def USER_BRK_END_def)
  show "page_up b mod PAGE_SIZE = 0" by (simp add: page_up_def aligned_iff) (simp add: PAGE_SIZE_def PAGE_FLAGS_def and.assoc)
  have "unat b + 4095 = (unat b + 4095) div 4096 * 4096 + (unat b + 4095) mod 4096"
    "(unat b + 4095) mod 4096 < 4096" by (rule div_mult_mod_eq [symmetric]) simp
  then show le: "unat b \<le> unat (page_up b)" unfolding u by linarith
  then show "USER_BRK_START \<le> page_up b" using assms(1) by (simp add: word_le_nat_alt)
  have "(unat b + 4095) div 4096 \<le> (0x60000000 + 4095) div 4096" using bd(2) by (intro div_le_mono) simp
  then show "page_up b \<le> USER_BRK_END" by (simp add: word_le_nat_alt u USER_BRK_END_def)
qed

lemma below_break:
  assumes "memory_layout s" and "MMAP_START \<le> v"
  shows "\<not> v < page_up (brk s)"
proof -
  have "page_up (brk s) \<le> USER_BRK_END" using assms(1) page_up_bounds(3) by (simp add: memory_layout_def)
  moreover have "USER_BRK_END = MMAP_START" by (simp add: USER_BRK_END_def MMAP_START_def)
  ultimately show ?thesis using assms(2) by auto
qed

lemma span_above:
  assumes "user_span a n" and "MMAP_START \<le> a" and "v \<in> pages_of a n"
  shows "MMAP_START \<le> v"
  using in_pages_of [OF assms(1) pages_of_user [OF assms(1,3)]] assms(2,3) by (simp add: word_le_nat_alt)

lemma memory_layoutD:
  assumes "memory_layout s"
  shows "umem_inv s" "regions_inv s" "USER_BRK_START \<le> brk s" "brk s \<le> USER_BRK_END"
    and "user_page v \<Longrightarrow>
      pte_at v s \<noteq> 0 \<longleftrightarrow> v < page_up (brk s) \<or> (\<exists>(a, n) \<in> recorded s. v \<in> pages_of a (unat n))"
  using assms by (simp_all add: memory_layout_def)

text \<open>A new region: recorded, mapped page by page, or taken back.\<close>

lemma mmap_region:
  fixes s :: "'a umem_scheme"
  assumes lay: "memory_layout s" and add: "umem_region_add pages s = (a, s1)" and nz: "a \<noteq> 0"
    and m: "umem_map a (unat pages) s1 = (ok, s2)"
  defines "s' \<equiv> if ok then s2 else umem_region_remove a s2"
  shows "memory_layout s'" and "brk s' = brk s" and "keeps_pages (pages_of a (unat pages)) s s'"
    and "recorded s' = (if ok then insert (a, pages) (recorded s) else recorded s)"
    and "v \<in> pages_of a (unat pages) \<Longrightarrow> if ok then fresh_page v s' else pte_at v s' = 0 \<and> pte_at v s = 0"
proof -
  let ?R = "pages_of a (unat pages)"
  note inv = memory_layoutD(1,2) [OF lay]
  obtain slot where r: "s1 = s\<lparr>uregions := (uregions s)(slot := \<lparr>r_start = a, r_pages = pages\<rparr>)\<rparr>"
    "user_span a (unat pages)" "MMAP_START \<le> a"
    using umem_region_add_result [OF inv(2) add nz] by metis
  note reg = umem_region_add_inv [OF inv(2) add nz]
  have sm: "same_memory s s1" by (simp add: r(1))
  note same = same_memoryD [OF sm]
  have free: "\<forall>v \<in> ?R. pte_at v s = 0"
  proof
    fix v assume v: "v \<in> ?R"
    have "\<not> v < page_up (brk s)" using below_break [OF lay span_above [OF r(2,3) v]] .
    moreover have "\<not> (\<exists>(b, q) \<in> recorded s. v \<in> pages_of b (unat q))" using reg(4) v by blast
    ultimately show "pte_at v s = 0" using memory_layoutD(5) [OF lay pages_of_user [OF r(2) v]] by blast
  qed
  note mp = umem_map_result [OF _ r(2) _ m]
  have o: "only_pages ?R s1 s2" using mp(1) inv(1) free by (simp add: same)
  have res: "v \<in> ?R \<Longrightarrow> if ok then fresh_page v s2 else pte_at v s2 = 0" for v
    using mp(2) inv(1) free by (simp add: same)
  have more: "uregions s2 = uregions s1" "brk s2 = brk s"
    using vmm_more_umem [of s2 s1] o by (simp_all add: only_pages_def r(1))
  have sm': "same_memory s2 s'" by (simp add: s'_def umem_region_remove_def)
  note same' = same_memoryD [OF sm']
  show b: "brk s' = brk s" using more(2) by (simp add: s'_def umem_region_remove_def)
  show kp: "keeps_pages ?R s s'"
    using only_pages_keeps [OF o] same_memory_sym [OF sm] sm' by (rule keeps_same_memory)
  have ri: "regions_inv s2" "recorded s2 = insert (a, pages) (recorded s)"
    using reg(1,2) regions_inv_cong [OF more(1)] recorded_cong [OF more(1)] by simp_all
  have "fst x \<noteq> a" if "x \<in> recorded s" for x
    using recorded_unique [OF ri(1), of a "snd x" pages] that reg(3) by (cases x) (auto simp: ri(2))
  then show rec: "recorded s' = (if ok then insert (a, pages) (recorded s) else recorded s)"
    using umem_region_remove_inv(2) [OF ri(1) nz] by (auto simp: s'_def ri(2))
  have ri': "regions_inv s'" using ri(1) umem_region_remove_inv(1) [OF ri(1) nz] by (simp add: s'_def)
  show fr: "if ok then fresh_page v s' else pte_at v s' = 0 \<and> pte_at v s = 0" if "v \<in> ?R" for v
    using res [OF that] free that by (auto simp: same' fresh_page_def)
  have "pte_at v s' \<noteq> 0 \<longleftrightarrow> v < page_up (brk s) \<or> (\<exists>(a, n) \<in> recorded s'. v \<in> pages_of a (unat n))"
    if v: "user_page v" for v
  proof (cases "v \<in> ?R")
    case True
    then show ?thesis using fr [OF True] memory_layoutD(5) [OF lay v] fresh_page_nonzero by (auto simp: rec split: if_splits)
  next
    case False
    have "pte_at v s' = pte_at v s"
      using only_pages_pte(1) [OF o pages_of_user [OF r(2)] v False] by (simp add: same same')
    then show ?thesis using memory_layoutD(5) [OF lay v] False by (simp add: rec)
  qed
  moreover have "umem_inv s'" using o by (simp add: same' only_pages_def)
  ultimately show "memory_layout s'" using lay ri' b by (simp add: memory_layout_def)
qed

text \<open>A step on pages that had no translation before and have none after it changed nothing.\<close>

lemma keeps_pages_none:
  assumes "keeps_pages R s s'" and "\<And>v. v \<in> R \<Longrightarrow> pte_at v s' = 0 \<and> pte_at v s = 0"
  shows "keeps_pages {} s s'"
proof -
  have "pte_at w s' = pte_at w s" if "mappable w" for w
  proof (cases "\<exists>v \<in> R. same_page w v")
    case True
    then obtain v where v: "v \<in> R" "same_page w v" by blast
    then have "pte_at w t = pte_at v t" for t :: "'a vmm_scheme" by (simp add: same_page_iff pte_at_def)
    then show ?thesis using assms(2) [OF v(1)] by simp
  next
    case False
    then show ?thesis using assms(1) that by (simp add: keeps_pages_def)
  qed
  moreover have "w \<notin> R" if "pte_at w s \<noteq> 0" for w using assms(2) that by blast
  ultimately show ?thesis using assms(1) by (simp add: keeps_pages_def)
qed

lemma sys_mmap_result:
  assumes lay: "memory_layout s" and m: "sys_mmap len s = (a, s')"
  obtains (refused) "a = 0" and "memory_layout s'" and "brk s' = brk s" and "recorded s' = recorded s"
      and "keeps_pages {} s s'"
  | (mapped) pages where "a \<noteq> 0" and "page_count len = Some pages" and "memory_layout s'" and "brk s' = brk s"
      and "recorded s' = insert (a, pages) (recorded s)" and "(a, pages) \<notin> recorded s"
      and "keeps_pages (pages_of a (unat pages)) s s'" and "\<forall>v \<in> pages_of a (unat pages). fresh_page v s'"
      and "umem_region_add pages s = (a, snd (umem_region_add pages s))"
proof (cases "page_count len")
  case None
  then have "a = 0" "s' = audit_log ''mmap_page_count'' ''mmap length is 0 or too large'' s"
    using m by (simp_all add: sys_mmap_def def_mmap_page_count_def)
  then show thesis
    using lay by (intro refused) simp_all
next
  case (Some pages)
  obtain b s1 where add: "umem_region_add pages s = (b, s1)" by fastforce
  have e: "sys_mmap len s = (if b = 0 then (0, s1) else case umem_map b (unat pages) s1 of (ok, s3) \<Rightarrow>
      if ok then (b, s3) else (0, umem_region_remove b s3))"
    using Some add by (simp add: sys_mmap_def def_mmap_page_count_def)
  show thesis
  proof (cases "b = 0")
    case True
    then have "s1 = s" using umem_region_add_fails [OF memory_layoutD(2) [OF lay]] add by simp
    then show thesis using e True m lay by (intro refused) simp_all
  next
    case False
    obtain ok s2 where mp: "umem_map b (unat pages) s1 = (ok, s2)" by fastforce
    note r = mmap_region [OF lay add False mp]
    show thesis
    proof (cases ok)
      case True
      then have "a = b" "s' = s2" using e False m mp by simp_all
      then show thesis
        using r True Some add False umem_region_add_inv(3) [OF memory_layoutD(2) [OF lay] add False]
        by (intro mapped [of pages]) simp_all
    next
      case nok: False
      then have a: "a = 0" "s' = umem_region_remove b s2" using e False m mp by simp_all
      have "keeps_pages {} s s'" using r(3,5) nok by (intro keeps_pages_none [of _ s s']) (auto simp: a)
      then show thesis using r(1,2,4) nok a by (intro refused) simp_all
    qed
  qed
qed

lemma sys_munmap_result:
  assumes lay: "memory_layout s" and m: "sys_munmap start len s = (r, s')"
  obtains (refused) "r = -1" and "memory_layout s'" and "brk s' = brk s" and "recorded s' = recorded s"
      and "keeps_pages {} s s'" and "\<And>pages. page_count len = Some pages \<Longrightarrow> (start, pages) \<notin> recorded s"
  | (removed) pages where "r = 0" and "page_count len = Some pages" and "(start, pages) \<in> recorded s"
      and "memory_layout s'" and "brk s' = brk s" and "recorded s' = recorded s - {(start, pages)}"
      and "keeps_pages (pages_of start (unat pages)) s s'" and "\<forall>v \<in> pages_of start (unat pages). pte_at v s' = 0"
proof (cases "page_count len")
  case None
  then show thesis using m lay by (intro refused) (auto simp: sys_munmap_def def_mmap_page_count_def)
next
  case (Some pages)
  show thesis
  proof (cases "(start, pages) \<in> recorded s")
    case False
    then have "\<not> owns_region (umem_region_pages start s) pages"
      using umem_region_pages_eq [OF memory_layoutD(2) [OF lay]] by (auto simp: owns_region_def)
    then show thesis
      using Some m lay False by (intro refused) (auto simp: sys_munmap_def def_mmap_page_count_def def_munmap_allowed_def)
  next
    case True
    let ?R = "pages_of start (unat pages)" and ?t = "umem_unmap start (unat pages) s"
    note inv = memory_layoutD(1,2) [OF lay] and sp = recorded_span [OF memory_layoutD(2) [OF lay] True]
    have "owns_region (umem_region_pages start s) pages"
      using True umem_region_pages_eq [OF inv(2), of start pages] by (auto simp: owns_region_def)
    then have rs: "r = 0" "s' = umem_region_remove start ?t"
      using Some m by (simp_all add: sys_munmap_def def_mmap_page_count_def def_munmap_allowed_def)
    note u = umem_unmap_result [OF inv(1) sp(1)]
    have nz: "start \<noteq> 0" using sp(2) by (auto simp: MMAP_START_def)
    have more: "uregions ?t = uregions s" "brk ?t = brk s"
      using vmm_more_umem [of ?t s] u by (simp_all add: only_pages_def)
    have ri: "regions_inv ?t" "recorded ?t = recorded s"
      using inv(2) regions_inv_cong [OF more(1)] recorded_cong [OF more(1)] by simp_all
    have sm: "same_memory ?t s'" by (simp add: rs(2) umem_region_remove_def)
    note same = same_memoryD [OF sm]
    have only: "q = pages" if "(start, q) \<in> recorded s" for q using recorded_unique [OF inv(2) that True] .
    have "recorded s' = {x \<in> recorded s. fst x \<noteq> start}"
      using umem_region_remove_inv(2) [OF ri(1) nz] by (simp add: rs(2) ri(2))
    also have "\<dots> = recorded s - {(start, pages)}" by (auto dest: only)
    finally have rec: "recorded s' = recorded s - {(start, pages)}" .
    have b: "brk s' = brk s" using more(2) by (simp add: rs(2) umem_region_remove_def)
    have "pte_at v s' \<noteq> 0 \<longleftrightarrow> v < page_up (brk s) \<or> (\<exists>(a, n) \<in> recorded s'. v \<in> pages_of a (unat n))"
      if v: "user_page v" for v
    proof (cases "v \<in> ?R")
      case R: True
      have "\<not> v < page_up (brk s)" using below_break [OF lay span_above [OF sp(1,2) R]] .
      moreover have "v \<notin> pages_of b (unat q)" if "(b, q) \<in> recorded s'" for b q
        using recorded_disjoint [OF inv(2) True, of b q] that R by (auto simp: rec)
      ultimately show ?thesis using u R by (auto simp: same)
    next
      case False
      have "pte_at v s' = pte_at v s"
        using only_pages_pte(1) [OF conjunct1 [OF u] pages_of_user [OF sp(1)] v False] by (simp add: same)
      then show ?thesis using memory_layoutD(5) [OF lay v] False by (auto simp: rec)
    qed
    moreover have "umem_inv s'" using u by (simp add: same only_pages_def)
    moreover have "regions_inv s'" using umem_region_remove_inv(1) [OF ri(1) nz] by (simp add: rs(2))
    ultimately have "memory_layout s'" using lay b by (simp add: memory_layout_def)
    moreover have "keeps_pages ?R s s'"
      using only_pages_keeps [OF conjunct1 [OF u]] same_memory_updates(4) sm by (rule keeps_same_memory)
    moreover have "\<forall>v \<in> ?R. pte_at v s' = 0" using u by (simp add: same)
    ultimately show thesis using rs(1) Some True b rec by (intro removed)
  qed
qed

text \<open>The pages between two breaks.\<close>

lemma break_span:
  assumes "lo mod PAGE_SIZE = 0" and "hi mod PAGE_SIZE = 0" and "USER_BRK_START \<le> lo" and "lo \<le> hi" and "hi \<le> USER_BRK_END"
  defines "n \<equiv> unat ((hi - lo) div PAGE_SIZE)"
  shows "user_span lo n" and "pages_of lo n = {v. user_page v \<and> lo \<le> v \<and> v < hi}"
proof -
  have al: "unat lo mod 4096 = 0" "unat hi mod 4096 = 0"
    using assms(1,2) by (simp_all add: PAGE_SIZE_def word_unat_eq_iff unat_mod)
  have le: "unat lo \<le> unat hi" "unat hi \<le> 0x60000000"
    using assms(4,5) by (simp_all add: word_le_nat_alt USER_BRK_END_def)
  have "(unat hi - unat lo) mod 4096 = 0" using al unfolding mod_eq_0_iff_dvd by (intro dvd_diff_nat)
  then have "(unat hi - unat lo) div 4096 * 4096 = unat hi - unat lo"
    using div_mult_mod_eq [of "unat hi - unat lo" 4096] by simp
  then have n: "unat lo + n * 4096 = unat hi"
    using le(1) assms(4) by (simp add: n_def unat_div unat_sub_u32 PAGE_SIZE_def)
  then show sp: "user_span lo n" using assms(1,3) le(2) by (simp add: user_span_def MMAP_END_def)
  show "pages_of lo n = {v. user_page v \<and> lo \<le> v \<and> v < hi}"
    using in_pages_of [OF sp] pages_of_user [OF sp] n by (auto simp: word_le_nat_alt word_less_nat_alt)
qed

definition break_pages :: "u32 \<Rightarrow> u32 \<Rightarrow> u32 set" where
  "break_pages a b = {v. user_page v \<and> page_up a \<le> v \<and> v < page_up b}"

text \<open>Moving the break once the pages between the old and the new one are mapped or unmapped.\<close>

lemma break_moved:
  assumes lay: "memory_layout s" and nb: "USER_BRK_START \<le> nb" "nb \<le> USER_BRK_END"
    and o: "only_pages (break_pages (brk s) nb \<union> break_pages nb (brk s)) s s1"
    and up: "\<And>v. v \<in> break_pages (brk s) nb \<Longrightarrow> pte_at v s1 \<noteq> 0"
    and down: "\<And>v. v \<in> break_pages nb (brk s) \<Longrightarrow> pte_at v s1 = 0"
  shows "memory_layout (s1\<lparr>brk := nb\<rparr>)" and "recorded (s1\<lparr>brk := nb\<rparr>) = recorded s"
proof -
  let ?R = "break_pages (brk s) nb \<union> break_pages nb (brk s)"
  have more: "uregions s1 = uregions s" using vmm_more_umem(1) [of s1 s] o by (simp add: only_pages_def)
  have ri: "regions_inv (s1\<lparr>brk := nb\<rparr>)" and rec: "recorded (s1\<lparr>brk := nb\<rparr>) = recorded s"
    using memory_layoutD(2) [OF lay] regions_inv_cong [of "s1\<lparr>brk := nb\<rparr>" s] recorded_cong [of "s1\<lparr>brk := nb\<rparr>" s] more
    by simp_all
  show "recorded (s1\<lparr>brk := nb\<rparr>) = recorded s" by (rule rec)
  note same = same_memoryD [of s1 "s1\<lparr>brk := nb\<rparr>", simplified]
  have top: "page_up b \<le> MMAP_START" if "USER_BRK_START \<le> b" "b \<le> USER_BRK_END" for b
    using page_up_bounds(3) [OF that] by (simp add: USER_BRK_END_def MMAP_START_def)
  have out: "v \<notin> pages_of a (unat n)" if "(a, n) \<in> recorded s" "v \<in> ?R" for a n v
  proof
    assume "v \<in> pages_of a (unat n)"
    then have "MMAP_START \<le> v"
      using recorded_span [OF memory_layoutD(2) [OF lay] that(1)] span_above by blast
    then show False
      using that(2) top [OF nb] top [OF memory_layoutD(3,4) [OF lay]] by (auto simp: break_pages_def)
  qed
  have "pte_at v s1 \<noteq> 0 \<longleftrightarrow> v < page_up nb \<or> (\<exists>(a, n) \<in> recorded s. v \<in> pages_of a (unat n))"
    if v: "user_page v" for v
  proof (cases "v \<in> ?R")
    case True
    then show ?thesis using up down out by (auto simp: break_pages_def)
  next
    case False
    have "pte_at v s1 = pte_at v s"
      using only_pages_pte(1) [OF o _ v False] by (auto simp: break_pages_def)
    moreover have "v < page_up nb \<longleftrightarrow> v < page_up (brk s)" using False v by (auto simp: break_pages_def)
    ultimately show ?thesis using memory_layoutD(5) [OF lay v] by simp
  qed
  then show "memory_layout (s1\<lparr>brk := nb\<rparr>)"
    using ri nb o by (simp add: memory_layout_def same rec only_pages_def)
qed

lemma sbrk_step:
  assumes lay: "memory_layout s" and nb: "USER_BRK_START \<le> nb" "nb \<le> USER_BRK_END"
  defines "lo \<equiv> page_up (brk s)" and "hi \<equiv> page_up nb"
  assumes m: "(if hi > lo then umem_map lo (unat ((hi - lo) div PAGE_SIZE)) s
     else if hi < lo then (True, umem_unmap hi (unat ((lo - hi) div PAGE_SIZE)) s) else (True, s)) = (ok, s1)"
  shows "only_pages (break_pages (brk s) nb \<union> break_pages nb (brk s)) s s1"
    and "v \<in> break_pages (brk s) nb \<Longrightarrow> if ok then fresh_page v s1 else pte_at v s1 = 0 \<and> pte_at v s = 0"
    and "v \<in> break_pages nb (brk s) \<Longrightarrow> pte_at v s1 = 0"
    and "\<not> ok \<Longrightarrow> break_pages nb (brk s) = {}"
proof -
  note inv = memory_layoutD(1) [OF lay]
  note pl = page_up_bounds [OF memory_layoutD(3,4) [OF lay], folded lo_def]
  note ph = page_up_bounds [OF nb, folded hi_def]
  have bp: "break_pages (brk s) nb = {v. user_page v \<and> lo \<le> v \<and> v < hi}"
    "break_pages nb (brk s) = {v. user_page v \<and> hi \<le> v \<and> v < lo}" by (simp_all add: break_pages_def lo_def hi_def)
  consider (grow) "lo < hi" | (shrink) "hi < lo" | (same) "hi = lo" by fastforce
  then have "only_pages (break_pages (brk s) nb \<union> break_pages nb (brk s)) s s1 \<and>
    (\<forall>v \<in> break_pages (brk s) nb. if ok then fresh_page v s1 else pte_at v s1 = 0 \<and> pte_at v s = 0) \<and>
    (\<forall>v \<in> break_pages nb (brk s). pte_at v s1 = 0) \<and> (\<not> ok \<longrightarrow> break_pages nb (brk s) = {})"
  proof cases
    case grow
    note sp = break_span [OF pl(1) ph(1) pl(2) less_imp_le [OF grow] ph(3)]
    have e: "break_pages nb (brk s) = {}" using grow by (auto simp: bp)
    have free: "\<forall>v \<in> break_pages (brk s) nb. pte_at v s = 0"
    proof
      fix v assume v: "v \<in> break_pages (brk s) nb"
      have "\<not> MMAP_START \<le> v" using v ph(3) by (auto simp: bp USER_BRK_END_def MMAP_START_def)
      then have "\<not> (\<exists>(a, n) \<in> recorded s. v \<in> pages_of a (unat n))"
        using recorded_span [OF memory_layoutD(2) [OF lay]] span_above by blast
      then show "pte_at v s = 0" using memory_layoutD(5) [OF lay, of v] v by (auto simp: bp lo_def)
    qed
    have mp: "umem_map lo (unat ((hi - lo) div PAGE_SIZE)) s = (ok, s1)" using m grow by simp
    note r = umem_map_result [OF inv sp(1) _ mp, unfolded sp(2), folded bp(1), OF free]
    show ?thesis using r free by (auto simp: e)
  next
    case shrink
    note sp = break_span [OF ph(1) pl(1) ph(2) less_imp_le [OF shrink] pl(3)]
    have "break_pages (brk s) nb = {}" using shrink by (auto simp: bp)
    moreover have "ok" "s1 = umem_unmap hi (unat ((lo - hi) div PAGE_SIZE)) s" using m shrink by (simp_all add: less_not_sym)
    ultimately show ?thesis using umem_unmap_result [OF inv sp(1), unfolded sp(2), folded bp(2)] by simp
  next
    case same
    then have "break_pages (brk s) nb = {}" "break_pages nb (brk s) = {}" by (auto simp: bp)
    moreover have "s1 = s" "ok" using m same by simp_all
    ultimately show ?thesis using only_pages_refl [OF inv] by simp
  qed
  then show "only_pages (break_pages (brk s) nb \<union> break_pages nb (brk s)) s s1"
    "v \<in> break_pages (brk s) nb \<Longrightarrow> if ok then fresh_page v s1 else pte_at v s1 = 0 \<and> pte_at v s = 0"
    "v \<in> break_pages nb (brk s) \<Longrightarrow> pte_at v s1 = 0" "\<not> ok \<Longrightarrow> break_pages nb (brk s) = {}" by auto
qed

lemma sys_sbrk_result:
  assumes lay: "memory_layout s" and m: "sys_sbrk inc s = (r, s')"
  obtains (failed) "r = SBRK_FAILED" and "memory_layout s'" and "brk s' = brk s" and "keeps_pages {} s s'"
  | (moved) "r = brk s" and "memory_layout s'" and "uint (brk s') = uint (brk s) + inc"
      and "keeps_pages (break_pages (brk s) (brk s') \<union> break_pages (brk s') (brk s)) s s'"
      and "\<And>v. v \<in> break_pages (brk s) (brk s') \<Longrightarrow> fresh_page v s'"
proof (cases "(uint (brk s) + inc < uint (brk s) \<or>
      rlimit_data_ok (current_process s) (word_of_int (uint (brk s) + inc - uint USER_BRK_START))) \<and>
      uint (brk s) + inc \<ge> uint USER_BRK_START \<and> uint (brk s) + inc \<le> uint USER_BRK_END")
  case False
  then have "r = SBRK_FAILED" "s' = s" using m by (auto simp: sys_sbrk_def Let_def split: if_splits)
  then show thesis using lay by (intro failed) simp_all
next
  case True
  define nb where "nb = (word_of_int (uint (brk s) + inc) :: u32)"
  have "0 \<le> w \<Longrightarrow> w < 2 ^ 32 \<Longrightarrow> uint (word_of_int w :: u32) = w" for w
    by (simp add: unsigned_of_int take_bit_int_eq_self)
  moreover have "0 \<le> uint (brk s) + inc" "uint (brk s) + inc < 2 ^ 32"
    using True by (simp_all add: USER_BRK_START_def USER_BRK_END_def)
  ultimately have nb: "uint nb = uint (brk s) + inc" unfolding nb_def by blast
  then have b: "USER_BRK_START \<le> nb" "nb \<le> USER_BRK_END" using True by (simp_all add: word_le_def)
  let ?lo = "page_up (brk s)" and ?hi = "page_up nb"
  obtain ok s1 where st: "(if ?hi > ?lo then umem_map ?lo (unat ((?hi - ?lo) div PAGE_SIZE)) s
     else if ?hi < ?lo then (True, umem_unmap ?hi (unat ((?lo - ?hi) div PAGE_SIZE)) s) else (True, s)) = (ok, s1)"
    by fastforce
  note r = sbrk_step [OF lay b st]
  have e: "sys_sbrk inc s = (if ok then (brk s, s1\<lparr>brk := nb\<rparr>) else (SBRK_FAILED, s1))"
    using True unfolding sys_sbrk_def Let_def nb_def [symmetric] st by simp
  show thesis
  proof (cases ok)
    case True
    then have rs: "r = brk s" "s' = s1\<lparr>brk := nb\<rparr>" using e m by simp_all
    have sm: "same_memory s1 s'" by (simp add: rs)
    show thesis
    proof (rule moved)
      show "memory_layout s'"
        unfolding rs using r(2,3) True fresh_page_nonzero by (intro break_moved(1) [OF lay b r(1)]) auto
      show "keeps_pages (break_pages (brk s) (brk s') \<union> break_pages (brk s') (brk s)) s s'"
        using keeps_same_memory [OF only_pages_keeps [OF r(1)] same_memory_updates(4) sm] by (simp add: rs)
      show "fresh_page v s'" if "v \<in> break_pages (brk s) (brk s')" for v
        using r(2) [of v] that True same_memoryD [OF sm] by (simp add: rs(2) fresh_page_def)
    qed (use rs nb in simp_all)
  next
    case False
    then have rs: "r = SBRK_FAILED" "s' = s1" using e m by simp_all
    have e: "break_pages nb (brk s) = {}" using r(4) False .
    have k: "keeps_pages {} s s1"
      using only_pages_keeps [OF r(1)] by (rule keeps_pages_none) (use r(2) False e in auto)
    have "brk s1 = brk s" "uregions s1 = uregions s" using vmm_more_umem [of s1 s] r(1) by (simp_all add: only_pages_def)
    moreover have "umem_inv s1" using r(1) by (simp add: only_pages_def)
    moreover have "pte_at v s1 = pte_at v s" if "user_page v" for v
      using k user_page_mappable [OF that] by (simp add: keeps_pages_def)
    ultimately have "memory_layout s1"
      using lay recorded_cong [of s1 s] regions_inv_cong [of s1 s] by (simp add: memory_layout_def)
    then show thesis using rs k \<open>brk s1 = brk s\<close> by (intro failed) simp_all
  qed
qed

section \<open>Addresses programs pass to the kernel\<close>

lemma user_page_mapped_same: "same_page v w \<Longrightarrow> user_page_mapped v s = user_page_mapped w s"
  by (simp add: user_page_mapped_def vmm_walk_def same_page_iff Let_def)

lemma in_user_space_byte:
  assumes "in_user_space start sz" and "k < unat sz"
  shows "unat (start + of_nat k) = unat start + k" and "USER_SPACE_START \<le> start + of_nat k"
    and "start + of_nat k < USER_SPACE_END"
proof -
  have b: "USER_SPACE_START \<le> start" "start < USER_SPACE_END" "sz \<le> USER_SPACE_END - start"
    using assms(1) by (auto simp: in_user_space_def split: if_splits)
  have "unat (USER_SPACE_END - start) = unat USER_SPACE_END - unat start" using b(2) by (simp add: unat_sub_u32)
  then have k: "unat start + k < unat USER_SPACE_END" using b(2,3) assms(2) by (simp add: word_le_nat_alt word_less_nat_alt)
  then have "unat start + k < 4294967296" by (simp add: USER_SPACE_END_def)
  then show u: "unat (start + of_nat k) = unat start + k" by (subst unat_add_u32) (simp_all add: unat_of_nat_u32)
  show "USER_SPACE_START \<le> start + of_nat k" "start + of_nat k < USER_SPACE_END"
    using b(1) k by (simp_all add: word_le_nat_alt word_less_nat_alt u)
qed

lemma range_pages_byte:
  assumes ok: "in_user_space start sz" and k: "k < unat sz"
  obtains p where "p \<in> set (range_pages start sz)" and "same_page (start + of_nat k) p"
proof -
  define a z where "a = unat start" and "z = unat start + (unat sz - 1)"
  have nz: "sz \<noteq> 0" using k by auto
  have "unat sz - 1 < unat sz" using k by simp
  from in_user_space_byte [OF ok this] have zz: "unat (start + of_nat (unat sz - 1)) = z" and zl: "z < 0xC0000000"
    by (simp_all add: z_def word_less_nat_alt USER_SPACE_END_def)
  have "start + of_nat (unat sz - 1) = start + sz - 1" using k by (simp add: of_nat_diff)
  then have last: "unat (start + sz - 1) = z" using zz by metis
  let ?first = "start AND NOT (PAGE_SIZE - 1)" and ?last = "(start + sz - 1) AND NOT (PAGE_SIZE - 1)"
  have flags: "PAGE_SIZE - 1 = PAGE_FLAGS" by (simp add: PAGE_SIZE_def PAGE_FLAGS_def)
  have uf: "unat ?first = a div 4096 * 4096" "unat ?last = z div 4096 * 4096"
    by (simp_all add: flags unat_page last a_def)
  have az: "a div 4096 \<le> z div 4096" by (simp add: a_def z_def div_le_mono)
  define n where "n = unat ((?last - ?first) div PAGE_SIZE)"
  have "unat (?last - ?first) = z div 4096 * 4096 - a div 4096 * 4096"
    using az uf by (subst unat_sub_u32) (simp_all add: word_le_nat_alt)
  moreover have "unat PAGE_SIZE = 4096" by (simp add: PAGE_SIZE_def)
  ultimately have n: "n = z div 4096 - a div 4096"
    by (simp add: n_def unat_div diff_mult_distrib [symmetric])
  define i where "i = (a + k) div 4096 - a div 4096"
  have "a + k \<le> z" using k by (simp add: a_def z_def)
  then have m: "a div 4096 \<le> (a + k) div 4096" "(a + k) div 4096 \<le> z div 4096" by (simp_all add: div_le_mono)
  then have i: "i < Suc n" unfolding i_def n by (intro le_imp_less_Suc diff_le_mono)
  have zk: "(a + k) div 4096 * 4096 < 4294967296"
    using div_times_less_eq_dividend [of "a + k" 4096] \<open>a + k \<le> z\<close> zl by linarith
  have il: "i * 4096 < 4294967296"
    using zk by (rule le_less_trans [rotated]) (simp add: i_def)
  have "unat (of_nat i * PAGE_SIZE :: u32) = i * 4096"
    using il by (subst unat_mult_u32) (simp_all add: PAGE_SIZE_def unat_of_nat_u32)
  moreover have "(a + k) div 4096 * 4096 = a div 4096 * 4096 + i * 4096"
    using m(1) by (simp add: i_def diff_mult_distrib)
  moreover note zk
  ultimately have "unat (page_of ?first i) = (a + k) div 4096 * 4096"
    by (simp add: page_of_def uf unat_add_u32)
  moreover have "unat ((start + of_nat k) AND NOT PAGE_FLAGS) = (a + k) div 4096 * 4096"
    using in_user_space_byte(1) [OF ok k] by (simp add: unat_page a_def)
  ultimately have "same_page (start + of_nat k) (page_of ?first i)"
    by (simp add: same_page_def word_unat_eq_iff unat_page)
  moreover have "page_of ?first i \<in> set (range_pages start sz)"
    using nz i by (simp add: range_pages_def Let_def n_def [symmetric] del: upt_Suc)
  ultimately show thesis using that by blast
qed

section \<open>Properties\<close>

text \<open>A machine with paging on whose program has no memory yet, for the witnesses.\<close>

definition small_umem :: umem where
  "small_umem = kheap.extend small_heap (umem.fields (\<lambda>_. \<lparr>r_start = 0, r_pages = 0\<rparr>) USER_BRK_START)"

lemma small_umem_fields [simp]:
  "bitmap small_umem = bitmap small_vmm" "total_frames small_umem = 16" "used_frames small_umem = 3"
  "reserved small_umem = (\<lambda>_. (0, 2))" "reserved_count small_umem = 1" "directory small_umem = 0x2000"
  "paging_on small_umem" "\<not> halted small_umem" "mem small_umem = mem small_vmm"
  "brk small_umem = USER_BRK_START" "uregions small_umem = (\<lambda>_. \<lparr>r_start = 0, r_pages = 0\<rparr>)"
  by (simp_all add: small_umem_def small_heap_def vmm.defs kheap.defs umem.defs)

lemma small_umem_layout: "memory_layout small_umem"
proof -
  have sm: "pmm_inv small_umem = pmm_inv small_vmm" "owned small_umem = owned small_vmm"
    "pde d small_umem = pde d small_vmm" for d
    by (simp_all add: pmm_inv_def owned_def frames_ram_def frames_used_def frames_pinned_def is_used_def
        pmm_is_reserved_def pde_def)
  have none: "\<not> has_table d small_umem" if "d < 1023" for d
    using that by (simp add: has_table_def pde_def)
  have vi: "vmm_inv small_umem" using small_vmm_inv by (simp add: vmm_inv_def has_table_def table_frame_def sm)
  have p0: "pte_at v small_umem = 0" "\<not> v < USER_BRK_START" if "user_page v" for v
    using none user_page_dir [OF that] that by (auto simp: pte_at_def user_page_def)
  have e: "{v. user_page v \<and> pte_at v small_umem \<noteq> 0} = {}" using p0 by blast
  have "umem_inv small_umem" unfolding umem_inv_def e using vi p0(1) by simp
  moreover have "page_up USER_BRK_START = USER_BRK_START"
    by (simp add: page_up_def USER_BRK_START_def PAGE_SIZE_def)
  ultimately show ?thesis using p0
    by (simp add: memory_layout_def regions_inv_def region_ok_def overlaps_def recorded_def)
      (simp add: USER_BRK_START_def USER_BRK_END_def)
qed

text \<open>C8: the three system calls keep the layout of the program's memory: the pages that are mapped
  are exactly those below the break and those of the recorded regions, every one has a frame of its
  own that is neither a page table nor another page's frame, and the regions never overlap.\<close>

theorem memory_layout_kept:
  assumes "memory_layout s"
  shows "memory_layout (snd (sys_mmap len s)) \<and> memory_layout (snd (sys_munmap start len s)) \<and>
     memory_layout (snd (sys_sbrk inc s))"
proof -
  have "memory_layout (snd (sys_mmap len s))"
    by (rule sys_mmap_result [OF assms prod.collapse [symmetric]]) simp_all
  moreover have "memory_layout (snd (sys_munmap start len s))"
    by (rule sys_munmap_result [OF assms prod.collapse [symmetric]]) simp_all
  moreover have "memory_layout (snd (sys_sbrk inc s))"
    by (rule sys_sbrk_result [OF assms prod.collapse [symmetric]]) simp_all
  ultimately show ?thesis by blast
qed

theorem memory_layout_kept_witness:
  "memory_layout (snd (sys_mmap 5000 small_umem)) \<and> memory_layout (snd (sys_munmap 0x60000000 5000 small_umem)) \<and>
   memory_layout (snd (sys_sbrk 100 small_umem))"
  by (rule memory_layout_kept [OF small_umem_layout])

text \<open>C13: mmap gives the lowest free place in its area, every page of it zeroed, writable and open to
  the program, and touches no other page; when it returns 0, no translation, no page and no region
  has changed and no frame is lost.\<close>

theorem mmap_all_or_nothing:
  assumes "memory_layout s" and "sys_mmap len s = (a, s')"
  shows "if a = 0 then keeps_pages {} s s' \<and> recorded s' = recorded s
     else \<exists>pages. page_count len = Some pages \<and> user_span a (unat pages) \<and> MMAP_START \<le> a \<and>
       keeps_pages (pages_of a (unat pages)) s s' \<and> (\<forall>v \<in> pages_of a (unat pages). fresh_page v s') \<and>
       (\<forall>c. unat MMAP_START \<le> c \<longrightarrow> c < unat a \<longrightarrow>
          (\<exists>i < UMEM_MAX_REGIONS. overlaps (uregions s i) c (unat pages)))"
  using assms
proof (cases rule: sys_mmap_result)
  case (mapped pages)
  from umem_region_add_result [OF memory_layoutD(2) [OF assms(1)] mapped(9) mapped(1)]
  have "user_span a (unat pages) \<and> MMAP_START \<le> a \<and>
      (\<forall>c. unat MMAP_START \<le> c \<longrightarrow> c < unat a \<longrightarrow>
          (\<exists>i < UMEM_MAX_REGIONS. overlaps (uregions s i) c (unat pages)))" by metis
  then show ?thesis using mapped by auto
qed simp

theorem mmap_all_or_nothing_witness:
  "fst (sys_mmap 0 small_umem) = 0 \<and> keeps_pages {} small_umem (snd (sys_mmap 0 small_umem))"
proof -
  have "fst (sys_mmap 0 small_umem) = 0" by (simp add: sys_mmap_def def_mmap_page_count_def page_count_def)
  then show ?thesis using mmap_all_or_nothing [OF small_umem_layout prod.collapse [symmetric], of 0] by simp
qed

text \<open>C23: munmap takes back exactly what mmap gave: it succeeds on the address and length of the
  mmap, and then every translation, every other page and the set of regions are as before the mmap.\<close>

theorem mmap_munmap_roundtrip:
  assumes "memory_layout s" and "sys_mmap len s = (a, s1)" and "a \<noteq> 0"
  shows "fst (sys_munmap a len s1) = 0 \<and> recorded (snd (sys_munmap a len s1)) = recorded s \<and>
     keeps_pages {} s (snd (sys_munmap a len s1))"
  using assms(1,2)
proof (cases rule: sys_mmap_result)
  case refused
  then show ?thesis using assms(3) by simp
next
  case m: (mapped pages)
  obtain r s2 where u: "sys_munmap a len s1 = (r, s2)" by fastforce
  have sp: "user_span a (unat pages)" "MMAP_START \<le> a"
    using recorded_span [OF memory_layoutD(2) [OF m(3)]] m(5) by auto
  have R: "pte_at v s = 0" if v: "v \<in> pages_of a (unat pages)" for v
  proof -
    have "\<not> v < page_up (brk s)" using below_break [OF assms(1) span_above [OF sp v]] .
    moreover have "v \<notin> pages_of b (unat q)" if bq: "(b, q) \<in> recorded s" for b q
      using recorded_disjoint [OF memory_layoutD(2) [OF m(3)], of a pages b q] bq m(5,6) v by auto
    ultimately show ?thesis using memory_layoutD(5) [OF assms(1) pages_of_user [OF sp(1) v]] by auto
  qed
  show ?thesis
    using m(3) u
  proof (cases rule: sys_munmap_result)
    case refused
    then show ?thesis using m(2,5) by auto
  next
    case un: (removed p)
    then have p: "p = pages" using m(2) by simp
    have "keeps_pages {} s s2"
    proof (rule keeps_pages_none)
      show "keeps_pages (pages_of a (unat pages)) s s2"
        using m(7) un(7) pages_of_user [OF sp(1)] by (intro keeps_pages_trans [of _ s s1 s2]) (simp_all add: p)
    qed (use un(8) R p in simp)
    moreover have "recorded s2 = recorded s" using un(6) m(5,6) p by auto
    ultimately show ?thesis using un(1) u by simp
  qed
qed

lemma small_umem_mmap: "fst (sys_mmap 4096 small_umem) = 0x60000000"
proof -
  define s1 where "s1 = small_umem\<lparr>uregions := (uregions small_umem)(0 := \<lparr>r_start = 0x60000000, r_pages = 1\<rparr>)\<rparr>"
  have "find (\<lambda>i. r_start (uregions small_umem i) = 0) [0..<UMEM_MAX_REGIONS] = Some 0"
    by (simp add: UMEM_MAX_REGIONS_def upt_conv_Cons)
  moreover have "blocking_region_end MMAP_START 1 small_umem = 0"
    using find_None_iff [of "\<lambda>_. False" "[0..<UMEM_MAX_REGIONS]"] by (simp add: blocking_region_end_def)
  then have "region_search MMAP_START 1 small_umem = Some MMAP_START"
    by (subst region_search.simps) (simp add: MMAP_START_def MMAP_END_def PAGE_SIZE_def)
  ultimately have add: "umem_region_add 1 small_umem = (0x60000000, s1)"
    by (simp add: umem_region_add_def s1_def) (simp add: MMAP_START_def MMAP_END_def PAGE_SIZE_def)
  obtain f s2 where a: "pmm_alloc_block s1 = (f, s2)" by fastforce
  have sm: "same_memory small_umem s1" by (simp add: s1_def)
  then have inv: "umem_inv s1" using memory_layoutD(1) [OF small_umem_layout] by (simp add: same_memoryD)
  have used: "is_used i s1 \<longleftrightarrow> i < 3" for i
    using small_vmm_used [of i] by (simp add: s1_def is_used_def)
  have room: "frames_ram s1 - frames_used s1 \<supseteq> {0x3000, 0x4000}"
    by (simp add: frames_ram_def frames_used_def used) (simp add: s1_def PAGE_SIZE_def)
  have f: "f \<noteq> 0" using pmm.alloc_full [OF umem_invD(3) [OF inv]] a room by fastforce
  have fu: "frames_used s2 = insert f (frames_used s1)" "frames_ram s2 = frames_ram s1"
    using pmm.alloc_frame [OF umem_invD(3) [OF inv] a f] pmm.alloc_const [OF umem_invD(3) [OF inv]] a by auto
  have "\<not> frames_ram s2 \<subseteq> frames_used s2" 
  proof
    assume "frames_ram s2 \<subseteq> frames_used s2"
    then have "(0x3000 :: u32) = f" "(0x4000 :: u32) = f" using room unfolding fu by blast+
    then have "(0x3000 :: u32) = 0x4000" by (rule trans [OF _ sym])
    then show False by simp
  qed
  then have "fst (vmm_map_page (page_of 0x60000000 0) f (PAGE_WRITABLE OR PAGE_USER) s2)"
    using vmm_map_page_cases [OF umem_invD(1) [OF only_pages_alloc(1) [OF inv a]] _ prod.collapse [symmetric],
        of "page_of 0x60000000 0"] mappable_below [of "page_of 0x60000000 0"]
    by (auto simp: page_of_def mappable_def)
  then have "fst (umem_map 0x60000000 1 s1)"
    using a f by (auto simp: umem_map_def umem_map_one_def split: prod.split)
  then show ?thesis
    using add by (auto simp: sys_mmap_def def_mmap_page_count_def page_count_def MMAP_MAX_BYTES_def PAGE_SIZE_def
        split: prod.split)
qed

theorem mmap_munmap_roundtrip_witness:
  "fst (sys_munmap 0x60000000 4096 (snd (sys_mmap 4096 small_umem))) = 0"
  using mmap_munmap_roundtrip [OF small_umem_layout, of 4096 "0x60000000" "snd (sys_mmap 4096 small_umem)"]
    small_umem_mmap by (simp add: prod_eq_iff)

text \<open>C25: sbrk keeps the break inside its area. It either returns the old break and moves it by
  exactly the increment, every new page zeroed and no page outside the two breaks touched, or it
  returns the error value and nothing has changed.\<close>

theorem sbrk_bounds:
  assumes "memory_layout s" and "sys_sbrk inc s = (r, s')"
  shows "USER_BRK_START \<le> brk s' \<and> brk s' \<le> USER_BRK_END \<and>
     (r = brk s \<and> uint (brk s') = uint (brk s) + inc \<and>
        keeps_pages (break_pages (brk s) (brk s') \<union> break_pages (brk s') (brk s)) s s' \<and>
        (\<forall>v \<in> break_pages (brk s) (brk s'). fresh_page v s')
      \<or> r = SBRK_FAILED \<and> brk s' = brk s \<and> keeps_pages {} s s')"
  using assms
proof (cases rule: sys_sbrk_result)
  case failed
  then show ?thesis using memory_layoutD(3,4) [OF failed(2)] by simp
next
  case moved
  then show ?thesis using memory_layoutD(3,4) [OF moved(2)] by simp
qed

theorem sbrk_bounds_witness:
  "fst (sys_sbrk (-1) small_umem) = SBRK_FAILED \<and> brk (snd (sys_sbrk (-1) small_umem)) = USER_BRK_START"
proof -
  have "fst (sys_sbrk (-1) small_umem) = SBRK_FAILED" by (simp add: sys_sbrk_def Let_def)
  then show ?thesis
    using sbrk_bounds [OF small_umem_layout prod.collapse [symmetric], of "-1"]
    by (auto simp: SBRK_FAILED_def USER_BRK_START_def)
qed

text \<open>C15: a buffer the defence user_ptr_bounds accepts is safe to use. No byte of it wraps around the
  address space or lies outside user space, and every byte is on a page that is mapped for the
  program; accepting changes nothing.\<close>

theorem user_range_safe:
  assumes "def_user_range_ok start sz s = (True, s')" and "k < unat sz"
  shows "s' = s \<and> unat (start + of_nat k) = unat start + k \<and> USER_SPACE_START \<le> start + of_nat k \<and>
     start + of_nat k < USER_SPACE_END \<and> user_page_mapped (start + of_nat k) s"
proof -
  have ok: "in_user_space start sz" "\<forall>p \<in> set (range_pages start sz). user_page_mapped p s" "s' = s"
    using assms(1) by (auto simp: def_user_range_ok_def list_all_iff split: if_splits)
  obtain p where p: "p \<in> set (range_pages start sz)" "same_page (start + of_nat k) p"
    using range_pages_byte [OF ok(1) assms(2)] .
  then have "user_page_mapped (start + of_nat k) s" using ok(2) user_page_mapped_same by blast
  then show ?thesis using in_user_space_byte [OF ok(1) assms(2)] ok(3) by simp
qed

theorem user_range_safe_witness:
  "user_page_mapped 0x60000005
     (small_vmm\<lparr>mem := (\<lambda>f i. if f = 0x2000 \<and> i = 384 then 0x3007 else if f = 0x3000 \<and> i = 0 then 0x4007
        else mem small_vmm f i)\<rparr>)"
proof -
  let ?s = "small_vmm\<lparr>mem := (\<lambda>f i. if f = 0x2000 \<and> i = 384 then 0x3007 else if f = 0x3000 \<and> i = 0 then 0x4007
        else mem small_vmm f i)\<rparr>"
  have "user_page_mapped 0x60000000 ?s"
    by (simp add: user_page_mapped_def vmm_walk_def Let_def pde_def peek_def mmu_def table_at_def dir_index_def
        table_index_def PAGE_PRESENT_def PAGE_USER_def PAGE_FLAGS_def PAGE_TABLES_VIRT_def PAGE_SIZE_def)
  moreover have "range_pages 0x60000000 8 = [0x60000000]"
    by (simp add: range_pages_def page_of_def PAGE_SIZE_def)
  moreover have "in_user_space 0x60000000 8"
    by (simp add: in_user_space_def USER_SPACE_START_def USER_SPACE_END_def)
  ultimately have "def_user_range_ok 0x60000000 8 ?s = (True, ?s)" by (simp add: def_user_range_ok_def)
  from user_range_safe [OF this, of 5] show ?thesis by simp
qed

end
