(* ===== verification/Sched.thy ===== *)
theory Sched
  imports Umem
begin

text \<open>
  Which process gets the CPU, and for how long: the scheduling policies
  (cpu_management/core/policy/policy.c), the power profile (core/power/power.c), nice values, ranks,
  time slices and real-time throttling (core/priority/priority.c), the CPU mask
  (core/affinity/affinity.c), CPU accounting (core/accounting/cpu_account.c, core/loadavg/loadavg.c)
  and the defences aging and priority_bounds that the scheduler calls.

  A pointer to a PCB is the number of its slot. The cycle counter of the processor is the field
  \<open>tsc\<close>, whatever it shows. Messages on the screen and the samples of \<open>perf record\<close> are not modelled.

  The lemmas show that the choice is a runnable process of the highest rank, the first one after the
  current process in the order of the slots; that a process that has waited long enough is chosen
  within one round whatever the others do; and that no user call gives a process a rank the
  defences do not allow.
\<close>

datatype power_profile_t = POWER_PERFORMANCE | POWER_BALANCED | POWER_SAVER

record cpu_load_t =
  l_busy :: u32
  l_user :: u32
  l_nice :: u32
  l_kernel :: u32
  l_idle :: u32

record cpu_ticks_t =
  t_user :: u32
  t_nice :: u32
  t_system :: u32
  t_idle :: u32

record cpu_second_t =
  uptime_s :: u32
  s_load :: cpu_load_t
  s_interrupts :: u32
  s_switches :: u32
  s_runnable :: u32

definition CPU_HISTORY_SECONDS :: nat where "CPU_HISTORY_SECONDS = 60"

text \<open>The static variables of priority.c, power.c, def_aging.c, scheduler.c, cpu_account.c and
  loadavg.c; \<open>tss_esp0\<close> is what \<open>set_kernel_stack\<close> stores, \<open>irq_counts\<close> the interrupt counters
  of arch/x86/isr.\<close>

record sched = umem +
  rt_period_ticks :: u32
  rt_used_ticks :: u32
  rt_throttle_count :: u32
  rt_throttled :: bool
  profile :: power_profile_t
  polls :: u32
  halts :: u32
  aging_last :: u32
  idle_proc :: "nat option"
  started :: bool
  tss_esp0 :: u32
  tsc :: u64
  irq_counts :: u32
  load :: cpu_load_t
  window_length :: u32
  window_user :: u32
  window_nice :: u32
  window_kernel :: u32
  window_idle :: u32
  window_switches :: u32
  window_irqs_at_start :: u32
  totals :: cpu_ticks_t
  switches :: u32
  history :: "nat \<Rightarrow> cpu_second_t"
  history_next :: nat
  history_used :: nat
  averages :: "nat \<Rightarrow> u32"
  load_ticks :: u32

section \<open>Power profile\<close>

definition CPU_SLICE_TICKS :: u32 where "CPU_SLICE_TICKS = 5"

definition power_profile_name :: "power_profile_t \<Rightarrow> string" where
  "power_profile_name p = (case p of
      POWER_PERFORMANCE \<Rightarrow> ''performance'' | POWER_BALANCED \<Rightarrow> ''balanced'' | POWER_SAVER \<Rightarrow> ''power-saver'')"

definition power_set_profile :: "power_profile_t \<Rightarrow> 'a sched_scheme \<Rightarrow> 'a sched_scheme" where
  "power_set_profile p s = s\<lparr>profile := p\<rparr>"

definition power_profile_find :: "string \<Rightarrow> int" where
  "power_profile_find name =
     (if strcmp ''performance'' name = 0 then 0
      else if strcmp ''balanced'' name = 0 then 1
      else if strcmp ''power-saver'' name = 0 then 2
      else -1)"

definition power_slice_ticks :: "'a sched_scheme \<Rightarrow> u32" where
  "power_slice_ticks s = (if profile s = POWER_SAVER then 2 * CPU_SLICE_TICKS else CPU_SLICE_TICKS)"

definition power_idle :: "'a sched_scheme \<Rightarrow> 'a sched_scheme" where
  "power_idle s = (if profile s = POWER_PERFORMANCE then s\<lparr>polls := polls s + 1\<rparr> else s\<lparr>halts := halts s + 1\<rparr>)"

definition power_idle_state :: "'a sched_scheme \<Rightarrow> string" where
  "power_idle_state s = (if profile s = POWER_PERFORMANCE then ''POLL'' else ''C1'')"

definition power_idle_entries :: "bool \<Rightarrow> 'a sched_scheme \<Rightarrow> u32" where
  "power_idle_entries hlt s = (if hlt then halts s else polls s)"

section \<open>Policies\<close>

definition SCHED_OTHER :: int where "SCHED_OTHER = 0"
definition SCHED_FIFO :: int where "SCHED_FIFO = 1"
definition SCHED_RR :: int where "SCHED_RR = 2"
definition SCHED_BATCH :: int where "SCHED_BATCH = 3"
definition SCHED_IDLE :: int where "SCHED_IDLE = 5"
definition SCHED_DEADLINE :: int where "SCHED_DEADLINE = 6"
definition RT_PRIORITY_MIN :: int where "RT_PRIORITY_MIN = 1"
definition RT_PRIORITY_MAX :: int where "RT_PRIORITY_MAX = 99"
definition RR_SLICE_TICKS :: u32 where "RR_SLICE_TICKS = 10"
definition RT_RUNTIME_PERCENT :: u32 where "RT_RUNTIME_PERCENT = 95"

lemmas sched_consts = SCHED_OTHER_def SCHED_FIFO_def SCHED_RR_def SCHED_BATCH_def SCHED_IDLE_def SCHED_DEADLINE_def

definition policies :: "(int \<times> string \<times> string \<times> string) list" where
  "policies =
     [(SCHED_OTHER, ''SCHED_OTHER'', ''other'', ''TS''),
      (SCHED_FIFO, ''SCHED_FIFO'', ''fifo'', ''FF''),
      (SCHED_RR, ''SCHED_RR'', ''rr'', ''RR''),
      (SCHED_BATCH, ''SCHED_BATCH'', ''batch'', ''B''),
      (SCHED_IDLE, ''SCHED_IDLE'', ''idle'', ''IDL'')]"

definition index_of :: "int \<Rightarrow> int" where
  "index_of policy =
     (case find (\<lambda>i. fst (policies ! i) = policy) [0..<length policies] of None \<Rightarrow> -1 | Some i \<Rightarrow> int i)"

definition policy_valid :: "int \<Rightarrow> bool" where
  "policy_valid policy \<longleftrightarrow> index_of policy \<ge> 0"

definition policy_is_realtime :: "int \<Rightarrow> bool" where
  "policy_is_realtime policy \<longleftrightarrow> policy = SCHED_FIFO \<or> policy = SCHED_RR"

definition policy_priority_min :: "int \<Rightarrow> int" where
  "policy_priority_min policy =
     (if \<not> policy_valid policy then -1 else if policy_is_realtime policy then RT_PRIORITY_MIN else 0)"

definition policy_priority_max :: "int \<Rightarrow> int" where
  "policy_priority_max policy =
     (if \<not> policy_valid policy then -1 else if policy_is_realtime policy then RT_PRIORITY_MAX else 0)"

definition policy_name :: "int \<Rightarrow> string" where
  "policy_name policy = (let i = index_of policy in if i \<ge> 0 then fst (snd (policies ! nat i)) else ''?'')"

definition policy_short :: "int \<Rightarrow> string" where
  "policy_short policy = (let i = index_of policy in if i \<ge> 0 then snd (snd (snd (policies ! nat i))) else ''?'')"

definition policy_find :: "string \<Rightarrow> int" where
  "policy_find name =
     (case find (\<lambda>(_, n, w, _). strcmp name n = 0 \<or> strcmp name w = 0) policies of
        None \<Rightarrow> -1 | Some (number, _) \<Rightarrow> number)"

definition policy_slice_ticks :: "process_t \<Rightarrow> 'a sched_scheme \<Rightarrow> u32" where
  "policy_slice_ticks p s =
     (if policy_is_realtime (p_policy p) \<and> \<not> rt_throttled s
      then (if p_policy p = SCHED_FIFO then 0 else RR_SLICE_TICKS)
      else power_slice_ticks s)"

section \<open>Nice values and levels\<close>

definition PRIORITY_IDLE :: int where "PRIORITY_IDLE = 0"
definition PRIORITY_MIN :: int where "PRIORITY_MIN = 1"
definition PRIORITY_DEFAULT :: int where "PRIORITY_DEFAULT = 4"
definition PRIORITY_MAX :: int where "PRIORITY_MAX = 7"
definition NICE_MIN :: int where "NICE_MIN = -20"
definition NICE_MAX :: int where "NICE_MAX = 19"
definition NICE_DEFAULT :: int where "NICE_DEFAULT = 0"

lemmas level_consts = PRIORITY_IDLE_def PRIORITY_MIN_def PRIORITY_DEFAULT_def PRIORITY_MAX_def
  NICE_MIN_def NICE_MAX_def NICE_DEFAULT_def

definition nice_of_level :: "int list" where
  "nice_of_level = [19, 19, 13, 7, 0, -6, -13, -20]"

definition priority_level_of_nice :: "int \<Rightarrow> int" where
  "priority_level_of_nice nice =
     (let n = (if nice < NICE_MIN then NICE_MIN else nice);
          n = (if n > NICE_MAX then NICE_MAX else n)
      in (NICE_MAX - n) * PRIORITY_MAX div 40 + 1)"

definition priority_nice_of_level :: "int \<Rightarrow> int" where
  "priority_nice_of_level level =
     (let l = (if level < PRIORITY_MIN then PRIORITY_MIN else level);
          l = (if l > PRIORITY_MAX then PRIORITY_MAX else l)
      in nice_of_level ! nat l)"

section \<open>Defence aging\<close>

definition AGING_TICKS :: u32 where "AGING_TICKS = 10"
definition NOTE_EVERY_TICKS :: u32 where "NOTE_EVERY_TICKS = 100"

definition aged :: "int \<Rightarrow> u32 \<Rightarrow> int" where
  "aged base waited =
     (if base \<le> PRIORITY_IDLE then base
      else let level = word_of_int base + waited div AGING_TICKS
           in if uint level > PRIORITY_MAX then PRIORITY_MAX else uint level)"

definition def_aging_effective :: "int \<Rightarrow> u32 \<Rightarrow> int" where
  "def_aging_effective base waited = aged base waited"

definition def_aging_note_rescue :: "'a sched_scheme \<Rightarrow> 'a sched_scheme" where
  "def_aging_note_rescue s =
     (if aging_last s \<noteq> 0 \<and> timer_ticks s - aging_last s < NOTE_EVERY_TICKS then s
      else audit_log ''aging'' ''a starving process got the CPU''
             (s\<lparr>aging_last := (if timer_ticks s \<noteq> 0 then timer_ticks s else 1)\<rparr>))"

section \<open>Ranks and the choice\<close>

definition RANK_REALTIME :: int where "RANK_REALTIME = 100"
definition RANK_PER_LEVEL :: int where "RANK_PER_LEVEL = 10"
definition RANK_SCHED_IDLE :: int where "RANK_SCHED_IDLE = 5"

definition runnable :: "process_t \<Rightarrow> bool" where
  "runnable p \<longleftrightarrow> p_state p = PROCESS_STATE_READY \<or> p_state p = PROCESS_STATE_RUNNING"

definition priority_effective :: "process_t \<Rightarrow> int" where
  "priority_effective p = def_aging_effective (p_priority p) (waited_ticks p)"

definition rank_of :: "process_t \<Rightarrow> bool \<Rightarrow> 'a sched_scheme \<Rightarrow> int" where
  "rank_of p aging s =
     (if policy_is_realtime (p_policy p) \<and> \<not> rt_throttled s then RANK_REALTIME + rt_priority p
      else if p_policy p = SCHED_IDLE then RANK_SCHED_IDLE
      else (if aging then priority_effective p else p_priority p) * RANK_PER_LEVEL)"

definition priority_rank :: "process_t \<Rightarrow> 'a sched_scheme \<Rightarrow> int" where
  "priority_rank p s = rank_of p True s"

text \<open>One round of the loop in \<open>choose_process\<close>: the best slot so far with its rank, and the best rank
  without aging.\<close>

definition choose_step :: "'a sched_scheme \<Rightarrow> nat \<Rightarrow> nat option \<times> int \<times> int \<Rightarrow> nat option \<times> int \<times> int" where
  "choose_step s i acc =
     (case acc of (best, best_rank, top_base) \<Rightarrow>
        if \<not> runnable (table s i) then acc
        else let rank = rank_of (table s i) True s;
                 (best, best_rank) = (if rank > best_rank then (Some i, rank) else (best, best_rank));
                 base = rank_of (table s i) False s
             in (best, best_rank, if base > top_base then base else top_base))"

definition round_from :: "nat option \<Rightarrow> nat list" where
  "round_from cur =
     (let start = (case cur of Some c \<Rightarrow> c | None \<Rightarrow> 0)
      in map (\<lambda>i. (start + i) mod MAX_PROCESSES) [1..<Suc MAX_PROCESSES])"

definition choose_process :: "nat option \<Rightarrow> 'a sched_scheme \<Rightarrow> nat option \<times> bool" where
  "choose_process cur s =
     (case fold (choose_step s) (round_from cur) (None, -1, -1) of (best, best_rank, top_base) \<Rightarrow>
        (best, case best of None \<Rightarrow> False | Some b \<Rightarrow> rank_of (table s b) False s < top_base))"

definition priority_pick_next :: "nat option \<Rightarrow> 'a sched_scheme \<Rightarrow> nat option \<times> 'a sched_scheme" where
  "priority_pick_next cur s =
     (case choose_process cur s of (next, rescued) \<Rightarrow> (next, if rescued then def_aging_note_rescue s else s))"

section \<open>Ticks and turns\<close>

definition rt_throttle_tick :: "nat option \<Rightarrow> 'a sched_scheme \<Rightarrow> bool \<times> 'a sched_scheme" where
  "rt_throttle_tick cur s =
     (let hz = timer_frequency s;
          rt = (case cur of None \<Rightarrow> False | Some c \<Rightarrow>
                  p_state (table s c) = PROCESS_STATE_RUNNING \<and> policy_is_realtime (p_policy (table s c)) \<and> \<not> rt_throttled s);
          s1 = (if rt then s\<lparr>rt_used_ticks := rt_used_ticks s + 1\<rparr> else s);
          s2 = s1\<lparr>rt_period_ticks := rt_period_ticks s1 + 1\<rparr>
      in if rt_period_ticks s2 \<ge> hz
         then (False, s2\<lparr>rt_period_ticks := 0, rt_used_ticks := 0, rt_throttled := False\<rparr>)
         else if \<not> rt_throttled s2 \<and> rt_used_ticks s2 \<ge> hz * RT_RUNTIME_PERCENT div 100
         then (True, s2\<lparr>rt_throttled := True, rt_throttle_count := rt_throttle_count s2 + 1\<rparr>)
         else (False, s2))"

text \<open>Rule 3: a timed turn gets one tick shorter.\<close>

definition slice_tick :: "nat \<Rightarrow> 'a sched_scheme \<Rightarrow> 'a sched_scheme" where
  "slice_tick c s =
     (if policy_slice_ticks (table s c) s \<noteq> 0 \<and> slice_left (table s c) > 0
      then upd_proc c (\<lambda>p. p\<lparr>slice_left := slice_left p - 1\<rparr>) s else s)"

text \<open>Rule 4: somebody better is waiting, and not a batch process.\<close>

definition better_waits :: "nat \<Rightarrow> 'a sched_scheme \<Rightarrow> bool" where
  "better_waits c s =
     (case fst (choose_process (Some c) s) of
        None \<Rightarrow> False
      | Some n \<Rightarrow> p_policy (table s n) \<noteq> SCHED_BATCH \<and> priority_rank (table s n) s > priority_rank (table s c) s)"

definition turn_over :: "nat option \<Rightarrow> 'a sched_scheme \<Rightarrow> bool \<times> 'a sched_scheme" where
  "turn_over cur s =
     (case rt_throttle_tick cur s of (throttled, s1) \<Rightarrow>
        if throttled then (True, s1)
        else case cur of
          None \<Rightarrow> (True, s1)
        | Some c \<Rightarrow>
            if p_state (table s1 c) \<noteq> PROCESS_STATE_RUNNING then (True, s1)
            else let s2 = slice_tick c s1
                 in if policy_slice_ticks (table s1 c) s1 \<noteq> 0 \<and> slice_left (table s2 c) = 0 then (True, s2)
                    else (better_waits c s2, s2))"

definition wait_one_tick :: "nat option \<Rightarrow> nat option \<Rightarrow> nat \<Rightarrow> 'a sched_scheme \<Rightarrow> 'a sched_scheme" where
  "wait_one_tick cur next i s =
     (if Some i \<noteq> cur \<and> Some i \<noteq> next \<and> p_state (table s i) = PROCESS_STATE_READY
      then upd_proc i (\<lambda>p. p\<lparr>waited_ticks := waited_ticks p + 1, ready_ticks := ready_ticks p + 1\<rparr>) s
      else s)"

definition priority_tick :: "nat option \<Rightarrow> 'a sched_scheme \<Rightarrow> bool \<times> 'a sched_scheme" where
  "priority_tick cur s =
     (case turn_over cur s of (switch_now, s1) \<Rightarrow>
        let next = (if switch_now then fst (choose_process cur s1) else cur)
        in (switch_now, fold (wait_one_tick cur next) [0..<MAX_PROCESSES] s1))"

definition priority_start_turn :: "nat \<Rightarrow> 'a sched_scheme \<Rightarrow> 'a sched_scheme" where
  "priority_start_turn i s =
     upd_proc i (\<lambda>p. p\<lparr>slice_left := policy_slice_ticks (table s i) s, waited_ticks := 0\<rparr>) s"

section \<open>Defence priority_bounds\<close>

definition nice_allowed :: "int \<Rightarrow> bool \<Rightarrow> bool \<Rightarrow> u32 \<Rightarrow> u32 \<Rightarrow> int \<Rightarrow> u32 \<Rightarrow> bool" where
  "nice_allowed nice target_exists target_is_system caller_uid target_uid now nice_limit =
     (if nice < NICE_MIN \<or> nice > NICE_MAX then False
      else if \<not> target_exists \<or> target_is_system then False
      else if caps_has caller_uid CAP_PRIORITY then True
      else if caller_uid \<noteq> target_uid then False
      else nice \<ge> now \<or> (nice_limit \<le> 40 \<and> nice \<ge> 20 - uint nice_limit))"

definition policy_allowed :: "int \<Rightarrow> int \<Rightarrow> bool \<Rightarrow> bool \<Rightarrow> u32 \<Rightarrow> u32 \<Rightarrow> u32 \<Rightarrow> bool" where
  "policy_allowed policy rt target_exists target_is_system caller_uid target_uid rt_limit =
     (if \<not> policy_valid policy then False
      else if rt < policy_priority_min policy \<or> rt > policy_priority_max policy then False
      else if \<not> target_exists \<or> target_is_system then False
      else if caps_has caller_uid CAP_PRIORITY then True
      else if caller_uid \<noteq> target_uid then False
      else \<not> policy_is_realtime policy \<or> word_of_int rt \<le> rt_limit)"

definition uid_of :: "process_t option \<Rightarrow> u32" where
  "uid_of p = (case p of None \<Rightarrow> 0 | Some q \<Rightarrow> uid q)"

definition def_nice_change_allowed ::
  "process_t option \<Rightarrow> process_t option \<Rightarrow> int \<Rightarrow> 'a audit_scheme \<Rightarrow> bool \<times> 'a audit_scheme" where
  "def_nice_change_allowed caller target nice s =
     (let limit = (case caller of None \<Rightarrow> RLIM_INFINITY | Some c \<Rightarrow> rlim_cur c (nat RLIMIT_NICE))
      in if nice_allowed nice (target \<noteq> None) (case target of None \<Rightarrow> False | Some t \<Rightarrow> is_system t) (uid_of caller)
           (uid_of target) (case target of None \<Rightarrow> 0 | Some t \<Rightarrow> p_nice t) limit then (True, s)
         else if nice < NICE_MIN \<or> nice > NICE_MAX
         then (False, audit_log ''priority_bounds'' ''nice refused: not a value from -20 to 19'' s)
         else (False, audit_log ''priority_bounds''
                 ''nice refused: system process, not yours, or lower than allowed'' s))"

definition def_policy_change_allowed ::
  "process_t option \<Rightarrow> process_t option \<Rightarrow> int \<Rightarrow> int \<Rightarrow> 'a audit_scheme \<Rightarrow> bool \<times> 'a audit_scheme" where
  "def_policy_change_allowed caller target policy rt s =
     (let limit = (case caller of None \<Rightarrow> RLIM_INFINITY | Some c \<Rightarrow> rlim_cur c (nat RLIMIT_RTPRIO))
      in if policy_allowed policy rt (target \<noteq> None) (case target of None \<Rightarrow> False | Some t \<Rightarrow> is_system t)
           (uid_of caller) (uid_of target) limit then (True, s)
         else (False, audit_log ''priority_bounds''
                 ''policy refused: unknown, out of range, system, not yours, or real-time without the right'' s))"

definition priority_set_nice :: "process_t option \<Rightarrow> u32 \<Rightarrow> int \<Rightarrow> 'a sched_scheme \<Rightarrow> bool \<times> 'a sched_scheme" where
  "priority_set_nice caller n nice s =
     (let target = process_get_by_pid n s
      in case def_nice_change_allowed caller (map_option (table s) target) nice s of (ok, s1) \<Rightarrow>
           if \<not> ok then (False, s1)
           else (True, upd_proc (the target) (\<lambda>p. p\<lparr>p_nice := nice, p_priority := priority_level_of_nice nice\<rparr>) s1))"

definition policy_set ::
  "process_t option \<Rightarrow> u32 \<Rightarrow> int \<Rightarrow> int \<Rightarrow> bool \<Rightarrow> 'a sched_scheme \<Rightarrow> bool \<times> 'a sched_scheme" where
  "policy_set caller n policy rt reset s =
     (let target = process_get_by_pid n s
      in case def_policy_change_allowed caller (map_option (table s) target) policy rt s of (ok, s1) \<Rightarrow>
           if \<not> ok then (False, s1)
           else (True, upd_proc (the target) (\<lambda>p. p\<lparr>p_policy := policy, rt_priority := rt, reset_on_fork := reset\<rparr>) s1))"

section \<open>The choice is the first process of the highest rank\<close>

text \<open>What \<open>choose_process\<close> promises of the slots it looked at, in order: nothing there can run, or the
  best is a runnable one whose rank nobody exceeds and nobody before it reaches.\<close>

definition best_of :: "'a sched_scheme \<Rightarrow> nat list \<Rightarrow> nat option \<Rightarrow> int \<Rightarrow> bool" where
  "best_of s xs best r =
     (case best of
        None \<Rightarrow> r = -1 \<and> (\<forall>j \<in> set xs. runnable (table s j) \<longrightarrow> priority_rank (table s j) s \<le> -1)
      | Some b \<Rightarrow> r = priority_rank (table s b) s \<and> runnable (table s b) \<and> -1 < r \<and>
          (\<forall>j \<in> set xs. runnable (table s j) \<longrightarrow> priority_rank (table s j) s \<le> r) \<and>
          (\<exists>ys zs. xs = ys @ b # zs \<and> (\<forall>j \<in> set ys. runnable (table s j) \<longrightarrow> priority_rank (table s j) s < r)))"

lemma best_of_Nil: "best_of s [] None (-1)"
  by (simp add: best_of_def)

lemma best_of_snoc:
  assumes "best_of s xs b r" and "choose_step s i (b, r, t) = (b', r', t')"
  shows "best_of s (xs @ [i]) b' r'"
proof (cases "runnable (table s i) \<and> priority_rank (table s i) s > r")
  case True
  then have "b' = Some i" "r' = priority_rank (table s i) s"
    using assms(2) by (auto simp: choose_step_def priority_rank_def Let_def)
  moreover have "\<forall>j \<in> set xs. runnable (table s j) \<longrightarrow> priority_rank (table s j) s < priority_rank (table s i) s"
    using assms(1) True by (auto simp: best_of_def split: option.splits)
  moreover have "-1 < priority_rank (table s i) s"
    using assms(1) True by (auto simp: best_of_def split: option.splits)
  ultimately show ?thesis using True by (fastforce simp: best_of_def)
next
  case False
  then have "b' = b" "r' = r"
    using assms(2) by (auto simp: choose_step_def priority_rank_def Let_def split: if_splits)
  then show ?thesis using assms(1) False by (fastforce simp: best_of_def split: option.splits)
qed

lemma best_of_fold:
  "fold (choose_step s) xs (None, -1, -1) = (b, r, t) \<Longrightarrow> best_of s xs b r"
proof (induction xs arbitrary: b r t rule: rev_induct)
  case Nil
  then show ?case using best_of_Nil by auto
next
  case (snoc i xs)
  obtain b0 r0 t0 where f: "fold (choose_step s) xs (None, -1, -1) = (b0, r0, t0)" by (metis prod_cases3)
  then have "best_of s xs b0 r0" by (rule snoc.IH)
  with snoc.prems f show ?case by (auto intro: best_of_snoc)
qed

lemma choose_best:
  "\<exists>r. best_of s (round_from cur) (fst (choose_process cur s)) r"
  using best_of_fold [of s "round_from cur"]
  by (auto simp: choose_process_def split: prod.splits)

lemma cyclic_reach:
  fixes j c :: nat
  assumes "j < n"
  defines "i \<equiv> if c mod n < j then j - c mod n else j + n - c mod n"
  shows "(c + i) mod n = j" and "1 \<le> i" and "i \<le> n"
proof -
  have lt: "c mod n < n" using assms by simp
  have "c mod n + i = j \<or> c mod n + i = j + n"
    using lt by (cases "c mod n < j"; simp only: i_def if_True if_False; arith)
  then have "(c mod n + i) mod n = j" using assms(1) by auto
  then show "(c + i) mod n = j" by (simp add: mod_add_left_eq)
  show "1 \<le> i" "i \<le> n"
    using lt assms(1) by (cases "c mod n < j"; simp only: i_def if_True if_False; arith)+
qed

lemma set_round_from [simp]: "set (round_from cur) = {..<MAX_PROCESSES}"
proof -
  have "j \<in> (\<lambda>i. (c + i) mod 64) ` {1..<65}" if "j < 64" for c j :: nat
    using cyclic_reach [OF that, of c] by (intro image_eqI [OF sym]) auto
  then have "(\<lambda>i. (c + i) mod 64) ` {1..<65} = {..<64}" for c :: nat by auto
  then show ?thesis by (simp add: round_from_def MAX_PROCESSES_def Let_def)
qed

lemma round_nth: "k < MAX_PROCESSES \<Longrightarrow> round_from (Some c) ! k = (c + k + 1) mod MAX_PROCESSES"
  by (simp add: round_from_def Let_def del: upt_Suc)

lemma length_round [simp]: "length (round_from cur) = MAX_PROCESSES"
  by (simp add: round_from_def Let_def)

text \<open>How many slots lie between two places of the ring.\<close>

definition slots_to :: "nat \<Rightarrow> nat \<Rightarrow> nat" where
  "slots_to c q = (q + (MAX_PROCESSES - 1) - c) mod MAX_PROCESSES"

lemma mod64: "x < 128 \<Longrightarrow> x mod 64 = (if x < 64 then x else x - 64)" for x :: nat
  by (simp add: mod_if)

lemma ring_nth:
  assumes "c < MAX_PROCESSES" and "q < MAX_PROCESSES"
  shows "slots_to c q < MAX_PROCESSES" and "round_from (Some c) ! slots_to c q = q"
proof -
  show "slots_to c q < MAX_PROCESSES" by (simp add: slots_to_def MAX_PROCESSES_def)
  then show "round_from (Some c) ! slots_to c q = q"
    using assms by (simp only: round_nth) (simp add: slots_to_def MAX_PROCESSES_def mod64)
qed

lemma ring_step:
  assumes "c < MAX_PROCESSES" and "q < MAX_PROCESSES" and "L < slots_to c q"
  shows "slots_to ((c + L + 1) mod MAX_PROCESSES) q < slots_to c q"
  using assms by (simp add: slots_to_def MAX_PROCESSES_def mod64 split: if_splits) arith+

lemma closer:
  assumes "c < MAX_PROCESSES" and "q < MAX_PROCESSES" and "round_from (Some c) = ys @ b # zs"
    and "q \<notin> set ys" and "b \<noteq> q"
  shows "slots_to b q < slots_to c q"
proof -
  let ?xs = "round_from (Some c)"
  have L: "length ys < MAX_PROCESSES"
    using assms(3) length_round [of "Some c"] by simp
  have b: "?xs ! length ys = b" by (simp add: assms(3))
  note q = ring_nth [OF assms(1,2)]
  have "\<not> slots_to c q < length ys"
    using q(2) assms(3,4) by (metis nth_append nth_mem)
  moreover have "slots_to c q \<noteq> length ys" using b q(2) assms(5) by auto
  ultimately have "slots_to ((c + length ys + 1) mod MAX_PROCESSES) q < slots_to c q"
    using assms(1,2) by (intro ring_step) auto
  then show ?thesis using b L by (simp add: round_nth)
qed

lemma choose_Some:
  assumes "fst (choose_process cur s) = Some b"
  shows "b < MAX_PROCESSES" and "runnable (table s b)"
    and "j < MAX_PROCESSES \<Longrightarrow> runnable (table s j) \<Longrightarrow> priority_rank (table s j) s \<le> priority_rank (table s b) s"
proof -
  obtain r where r: "best_of s (round_from cur) (Some b) r" using choose_best [of s cur] assms by auto
  then have "b \<in> set (round_from cur)" unfolding best_of_def by (auto simp del: set_round_from)
  then show "b < MAX_PROCESSES" by simp
  show "runnable (table s b)" using r by (simp add: best_of_def)
  show "priority_rank (table s j) s \<le> priority_rank (table s b) s"
    if "j < MAX_PROCESSES" "runnable (table s j)" using r that by (auto simp: best_of_def)
qed

lemma choose_not_None:
  assumes "q < MAX_PROCESSES" and "runnable (table s q)" and "0 \<le> priority_rank (table s q) s"
  shows "fst (choose_process cur s) \<noteq> None"
  using choose_best [of s cur] assms by (cases "fst (choose_process cur s)") (auto simp: best_of_def)

lemma choose_closer:
  assumes "c < MAX_PROCESSES" and "q < MAX_PROCESSES" and "runnable (table s q)"
    and "\<forall>j < MAX_PROCESSES. runnable (table s j) \<longrightarrow> priority_rank (table s j) s \<le> priority_rank (table s q) s"
    and "fst (choose_process (Some c) s) = Some b" and "b \<noteq> q"
  shows "slots_to b q < slots_to c q"
proof -
  obtain r where "best_of s (round_from (Some c)) (Some b) r"
    using choose_best [of s "Some c"] assms(5) by auto
  then obtain ys zs where x: "round_from (Some c) = ys @ b # zs"
    and lt: "\<forall>j \<in> set ys. runnable (table s j) \<longrightarrow> priority_rank (table s j) s < priority_rank (table s b) s"
    by (auto simp: best_of_def)
  have "b < MAX_PROCESSES" "runnable (table s b)" using choose_Some [OF assms(5)] by auto
  then have "priority_rank (table s b) s \<le> priority_rank (table s q) s" using assms(4) by blast
  then have "q \<notin> set ys" using lt assms(3) by fastforce
  then show ?thesis using closer [OF assms(1,2) x] assms(6) by blast
qed

section \<open>Levels, aging and what a user may ask for\<close>

lemma level_range: "PRIORITY_MIN \<le> priority_level_of_nice n \<and> priority_level_of_nice n \<le> PRIORITY_MAX"
  by (auto simp: priority_level_of_nice_def level_consts Let_def)

lemma level_of_nice_of_level:
  assumes "PRIORITY_MIN \<le> l" and "l \<le> PRIORITY_MAX"
  shows "priority_level_of_nice (priority_nice_of_level l) = l"
proof -
  have "l \<in> {1, 2, 3, 4, 5, 6, 7}" using assms by (auto simp: level_consts)
  then show ?thesis
    by (auto simp: priority_level_of_nice_def priority_nice_of_level_def nice_of_level_def level_consts)
qed

lemma aged_value:
  assumes "0 \<le> base" and "base \<le> PRIORITY_MAX"
  shows "aged base waited = (if base = 0 then 0 else min PRIORITY_MAX (base + uint waited div 10))"
proof (cases "base = 0")
  case False
  have w: "uint (waited div AGING_TICKS) = uint waited div 10"
    by (simp add: AGING_TICKS_def uint_div)
  have b: "uint (word_of_int base :: u32) = base"
    using assms by (simp add: unsigned_of_int take_bit_int_eq_self level_consts)
  have "uint waited < 2 ^ 32" using uint_bounded [of waited] by simp
  then have "uint (word_of_int base + waited div AGING_TICKS) = base + uint waited div 10"
    using assms w b by (simp add: uint_plus_if_size word_size level_consts)
  then show ?thesis using False assms by (auto simp: aged_def level_consts min_def)
qed (simp add: aged_def level_consts)

text \<open>The scheduling parameters every process has: a level from 0 to 7, a nice value from -20 to 19, a
  known policy, and a real-time priority in the range of that policy.\<close>

definition params_ok :: "process_t \<Rightarrow> bool" where
  "params_ok p \<longleftrightarrow> PRIORITY_IDLE \<le> p_priority p \<and> p_priority p \<le> PRIORITY_MAX \<and>
     NICE_MIN \<le> p_nice p \<and> p_nice p \<le> NICE_MAX \<and> policy_valid (p_policy p) \<and>
     policy_priority_min (p_policy p) \<le> rt_priority p \<and> rt_priority p \<le> policy_priority_max (p_policy p)"

definition params_inv :: "'a kernel_scheme \<Rightarrow> bool" where
  "params_inv s \<longleftrightarrow> (\<forall>i < MAX_PROCESSES. p_state (table s i) \<noteq> PROCESS_STATE_FREE \<longrightarrow> params_ok (table s i))"

lemma policy_valid_iff: "policy_valid p \<longleftrightarrow> p \<in> {SCHED_OTHER, SCHED_FIFO, SCHED_RR, SCHED_BATCH, SCHED_IDLE}"
  by (auto simp: policy_valid_def index_of_def policies_def sched_consts upt_rec)

lemma rank_bounds:
  assumes "params_ok p"
  shows "0 \<le> priority_rank p s" and "\<not> (policy_is_realtime (p_policy p) \<and> \<not> rt_throttled s) \<Longrightarrow> priority_rank p s \<le> 70"
    and "policy_is_realtime (p_policy p) \<and> \<not> rt_throttled s \<Longrightarrow> 101 \<le> priority_rank p s"
proof -
  have w: "0 \<le> uint (waited_ticks p) div 10" by (simp add: pos_imp_zdiv_nonneg_iff)
  then have a: "0 \<le> priority_effective p" "priority_effective p \<le> 7"
    using assms by (auto simp: params_ok_def priority_effective_def def_aging_effective_def aged_value level_consts)
  have rt: "policy_is_realtime (p_policy p) \<Longrightarrow> 1 \<le> rt_priority p"
    using assms by (auto simp: params_ok_def policy_priority_min_def RT_PRIORITY_MIN_def split: if_splits)
  show "0 \<le> priority_rank p s"
    using a rt by (auto simp: priority_rank_def rank_of_def RANK_REALTIME_def RANK_SCHED_IDLE_def RANK_PER_LEVEL_def)
  show "priority_rank p s \<le> 70" if "\<not> (policy_is_realtime (p_policy p) \<and> \<not> rt_throttled s)"
    using a that by (auto simp: priority_rank_def rank_of_def RANK_SCHED_IDLE_def RANK_PER_LEVEL_def)
  show "101 \<le> priority_rank p s" if "policy_is_realtime (p_policy p) \<and> \<not> rt_throttled s"
    using rt that by (auto simp: priority_rank_def rank_of_def RANK_REALTIME_def)
qed

lemma find_first: "xs = ys @ b # zs \<Longrightarrow> P b \<Longrightarrow> \<forall>y \<in> set ys. \<not> P y \<Longrightarrow> find P xs = Some b"
  by (induction ys arbitrary: xs) auto

definition top_ranked :: "'a sched_scheme \<Rightarrow> nat \<Rightarrow> bool" where
  "top_ranked s i \<longleftrightarrow> runnable (table s i) \<and>
     (\<forall>j < MAX_PROCESSES. runnable (table s j) \<longrightarrow> priority_rank (table s j) s \<le> priority_rank (table s i) s)"

text \<open>C11: the scheduler's one pass over the table finds what its rules say: the first process, counting
  from the slot after the current one, that can run and whose rank no process that can run exceeds.
  The reference definition looks at the whole table for each candidate.\<close>

theorem choose_is_first_best:
  assumes "params_inv s"
  shows "fst (choose_process cur s) = find (top_ranked s) (round_from cur)"
proof -
  obtain r where r: "best_of s (round_from cur) (fst (choose_process cur s)) r" using choose_best by blast
  show ?thesis
  proof (cases "fst (choose_process cur s)")
    case None
    have "\<not> runnable (table s j)" if "j < MAX_PROCESSES" for j
      using r None that assms rank_bounds(1) [of "table s j" s]
      by (auto simp: best_of_def params_inv_def runnable_def)
    then have "find (top_ranked s) (round_from cur) = None" by (simp add: find_None_iff top_ranked_def)
    then show ?thesis using None by simp
  next
    case (Some b)
    with r obtain ys zs where x: "round_from cur = ys @ b # zs"
      and lt: "\<forall>j \<in> set ys. runnable (table s j) \<longrightarrow> priority_rank (table s j) s < priority_rank (table s b) s"
      by (auto simp: best_of_def)
    have b: "b < MAX_PROCESSES" "runnable (table s b)" using choose_Some [OF Some] by auto
    have "find (top_ranked s) (round_from cur) = Some b"
      using b lt choose_Some(3) [OF Some] by (intro find_first [OF x]) (fastforce simp: top_ranked_def)+
    then show ?thesis using Some by simp
  qed
qed

section \<open>No process starves\<close>

text \<open>Who gets the CPU at each turn: from the process that has it, one call of \<open>priority_pick_next\<close> per
  turn. Between two turns anything may happen to the processes, so each turn has a state of its own.\<close>

fun turns :: "(nat \<Rightarrow> 'a sched_scheme) \<Rightarrow> nat \<Rightarrow> nat \<Rightarrow> nat option" where
  "turns S c 0 = Some c"
| "turns S c (Suc k) = fst (priority_pick_next (turns S c k) (S k))"

lemma pick_choose: "fst (priority_pick_next cur s) = fst (choose_process cur s)"
  by (simp add: priority_pick_next_def split: prod.splits)

text \<open>A process that can run, is not SCHED_IDLE, and has waited ten ticks for every level below the
  highest, while no unthrottled real-time process can run.\<close>

definition aged_out :: "nat \<Rightarrow> 'a sched_scheme \<Rightarrow> bool" where
  "aged_out q s \<longleftrightarrow> params_inv s \<and> runnable (table s q) \<and> PRIORITY_MIN \<le> p_priority (table s q) \<and>
     p_policy (table s q) \<noteq> SCHED_IDLE \<and>
     10 * (PRIORITY_MAX - p_priority (table s q)) \<le> uint (waited_ticks (table s q)) \<and>
     (\<forall>i < MAX_PROCESSES. runnable (table s i) \<longrightarrow> policy_is_realtime (p_policy (table s i)) \<longrightarrow> rt_throttled s)"

lemma aged_out_top:
  assumes "aged_out q s" and "q < MAX_PROCESSES"
  shows "priority_rank (table s q) s = 70"
    and "\<forall>j < MAX_PROCESSES. runnable (table s j) \<longrightarrow> priority_rank (table s j) s \<le> priority_rank (table s q) s"
proof -
  have ok: "params_ok (table s j)" if "j < MAX_PROCESSES" "runnable (table s j)" for j
    using assms(1) that by (auto simp: aged_out_def params_inv_def runnable_def)
  have q: "runnable (table s q)" using assms(1) by (simp add: aged_out_def)
  have "priority_effective (table s q) = 7"
    using ok [OF assms(2) q] assms(1)
    by (auto simp: aged_out_def params_ok_def priority_effective_def def_aging_effective_def aged_value level_consts min_def)
  then show seven: "priority_rank (table s q) s = 70"
    using assms q by (auto simp: aged_out_def priority_rank_def rank_of_def RANK_PER_LEVEL_def)
  show "\<forall>j < MAX_PROCESSES. runnable (table s j) \<longrightarrow> priority_rank (table s j) s \<le> priority_rank (table s q) s"
    using rank_bounds(2) ok assms(1) unfolding seven by (auto simp: aged_out_def)
qed

lemma turns_closer:
  assumes "q < MAX_PROCESSES" and "c < MAX_PROCESSES" and "\<forall>i < n. aged_out q (S i)"
    and "k \<le> n" and "\<forall>i. 1 \<le> i \<and> i \<le> k \<longrightarrow> turns S c i \<noteq> Some q"
  shows "\<exists>b < MAX_PROCESSES. turns S c k = Some b \<and> slots_to b q + k \<le> slots_to c q"
  using assms(4,5)
proof (induction k)
  case 0
  then show ?case using assms(2) by simp
next
  case (Suc k)
  then obtain b where b: "b < MAX_PROCESSES" "turns S c k = Some b" "slots_to b q + k \<le> slots_to c q" by auto
  have a: "aged_out q (S k)" using assms(3) Suc.prems(1) by simp
  then have q: "runnable (table (S k) q)" by (simp add: aged_out_def)
  obtain d where d: "fst (choose_process (Some b) (S k)) = Some d"
    using choose_not_None [OF assms(1) q] aged_out_top(1) [OF a assms(1)] by fastforce
  then have t: "turns S c (Suc k) = Some d" using b(2) by (simp add: pick_choose)
  then have "d \<noteq> q" using Suc.prems(2) by (metis le_refl less_eq_Suc_le not_less_eq_eq One_nat_def Suc_le_mono zero_le)
  then have "slots_to d q < slots_to b q"
    by (rule choose_closer [OF b(1) assms(1) q aged_out_top(2) [OF a assms(1)] d])
  then show ?case using t b(3) choose_Some(1) [OF d] by auto
qed

lemma turns_reach:
  assumes "q < MAX_PROCESSES" and "c < MAX_PROCESSES" and "\<forall>i < MAX_PROCESSES. aged_out q (S i)"
  shows "\<exists>k. 1 \<le> k \<and> k \<le> MAX_PROCESSES \<and> turns S c k = Some q"
proof (rule ccontr)
  assume "\<not> ?thesis"
  then obtain b where "slots_to b q + MAX_PROCESSES \<le> slots_to c q"
    using turns_closer [OF assms, of MAX_PROCESSES] by blast
  then show False using ring_nth(1) [OF assms(2,1)] by simp
qed

text \<open>C3: no process starves: one that has waited ten ticks for each level below the highest gets the
  CPU within 64 turns (one per slot of the table), whichever process has the CPU at the start and
  whatever else happens between the turns, as long as it stays runnable and no unthrottled real-time
  process competes. The scheduler never returns "nobody" on the way.\<close>

theorem no_starvation:
  assumes "q < MAX_PROCESSES" and "c < MAX_PROCESSES" and "\<forall>i < MAX_PROCESSES. aged_out q (S i)"
  shows "(\<exists>k. 1 \<le> k \<and> k \<le> MAX_PROCESSES \<and> turns S c k = Some q) \<and>
    (\<forall>k. (\<forall>i. 1 \<le> i \<and> i \<le> k \<longrightarrow> turns S c i \<noteq> Some q) \<longrightarrow> turns S c k \<noteq> None)"
proof (intro conjI allI impI)
  show reach: "\<exists>k. 1 \<le> k \<and> k \<le> MAX_PROCESSES \<and> turns S c k = Some q" by (rule turns_reach [OF assms])
  fix k assume k: "\<forall>i. 1 \<le> i \<and> i \<le> k \<longrightarrow> turns S c i \<noteq> Some q"
  then have "k \<le> MAX_PROCESSES" using reach by (meson le_trans linear)
  then show "turns S c k \<noteq> None" using turns_closer [OF assms _ k] by auto
qed

section \<open>A tick\<close>

lemma wait_one_tick_fold:
  assumes "distinct xs"
  shows "table (fold (wait_one_tick cur next) xs s) j =
     (if j \<in> set xs \<and> Some j \<noteq> cur \<and> Some j \<noteq> next \<and> p_state (table s j) = PROCESS_STATE_READY
      then (table s j)\<lparr>waited_ticks := waited_ticks (table s j) + 1, ready_ticks := ready_ticks (table s j) + 1\<rparr>
      else table s j)"
  using assms by (induction xs arbitrary: s) (auto simp: wait_one_tick_def)

lemma rt_throttle_table [simp]: "table (snd (rt_throttle_tick cur s)) = table s"
  by (auto simp: rt_throttle_tick_def Let_def)

lemma slice_tick_table:
  "table (slice_tick c s) j = table s j \<or>
   (j = c \<and> table (slice_tick c s) j = (table s j)\<lparr>slice_left := slice_left (table s j) - 1\<rparr>)"
  by (simp add: slice_tick_def)

lemma turn_over_table:
  "table (snd (turn_over cur s)) j = table s j \<or>
   (Some j = cur \<and> table (snd (turn_over cur s)) j = (table s j)\<lparr>slice_left := slice_left (table s j) - 1\<rparr>)"
proof -
  obtain th s1 where f: "rt_throttle_tick cur s = (th, s1)" by fastforce
  then have t: "table s1 = table s" using rt_throttle_table [of cur s] by simp
  then show ?thesis
    unfolding turn_over_def f using slice_tick_table [of "the cur" s1 j] by (cases cur) (auto simp: Let_def)
qed


lemma priority_tick_state:
  "priority_tick cur s = (sw, s') \<Longrightarrow> p_state (table s' j) = p_state (table s j)"
  using turn_over_table [of cur s j]
  by (cases "turn_over cur s") (auto simp: priority_tick_def Let_def wait_one_tick_fold)


section \<open>Real-time bandwidth\<close>






section \<open>Calls that change nice values and policies\<close>

lemma nice_change_table [simp]:
  "table (snd (def_nice_change_allowed caller target nice s)) = table s"
  "table (snd (def_policy_change_allowed caller target policy rt s)) = table s"
  by (simp_all add: def_nice_change_allowed_def def_policy_change_allowed_def Let_def)

lemma nice_change_ok:
  "fst (def_nice_change_allowed caller target nice s) \<longleftrightarrow>
     nice_allowed nice (target \<noteq> None) (case target of None \<Rightarrow> False | Some t \<Rightarrow> is_system t) (uid_of caller)
       (uid_of target) (case target of None \<Rightarrow> 0 | Some t \<Rightarrow> p_nice t)
       (case caller of None \<Rightarrow> RLIM_INFINITY | Some c \<Rightarrow> rlim_cur c (nat RLIMIT_NICE))"
  "fst (def_policy_change_allowed caller target policy rt s) \<longleftrightarrow>
     policy_allowed policy rt (target \<noteq> None) (case target of None \<Rightarrow> False | Some t \<Rightarrow> is_system t)
       (uid_of caller) (uid_of target)
       (case caller of None \<Rightarrow> RLIM_INFINITY | Some c \<Rightarrow> rlim_cur c (nat RLIMIT_RTPRIO))"
  by (simp_all add: def_nice_change_allowed_def def_policy_change_allowed_def Let_def)

lemma not_allowed_nobody [simp]:
  "\<not> nice_allowed nice False sy cu tu now lim" "\<not> policy_allowed policy rt False sy cu tu lim"
  by (simp_all add: nice_allowed_def policy_allowed_def)

lemma uid_of_Some [simp]: "uid_of (Some p) = uid p"
  by (simp add: uid_of_def)

lemma set_nice_result:
  assumes "priority_set_nice caller n nice s = (ok, s')"
  shows "if ok then \<exists>i. process_get_by_pid n s = Some i \<and>
       nice_allowed nice True (is_system (table s i)) (uid_of caller) (uid (table s i)) (p_nice (table s i))
         (case caller of None \<Rightarrow> RLIM_INFINITY | Some c \<Rightarrow> rlim_cur c (nat RLIMIT_NICE)) \<and>
       table s' = (table s)(i := (table s i)\<lparr>p_nice := nice, p_priority := priority_level_of_nice nice\<rparr>)
     else table s' = table s"
proof -
  let ?t = "process_get_by_pid n s"
  obtain b s1 where f: "def_nice_change_allowed caller (map_option (table s) ?t) nice s = (b, s1)" by fastforce
  then have t: "table s1 = table s"
    using nice_change_table(1) [of caller "map_option (table s) ?t" nice s] by simp
  show ?thesis
  proof (cases b)
    case True
    then have "nice_allowed nice (?t \<noteq> None) (case map_option (table s) ?t of None \<Rightarrow> False | Some t \<Rightarrow> is_system t)
       (uid_of caller) (uid_of (map_option (table s) ?t)) (case map_option (table s) ?t of None \<Rightarrow> 0 | Some t \<Rightarrow> p_nice t)
       (case caller of None \<Rightarrow> RLIM_INFINITY | Some c \<Rightarrow> rlim_cur c (nat RLIMIT_NICE))"
      using nice_change_ok(1) [of caller "map_option (table s) ?t" nice s] f by simp
    then show ?thesis using assms True f t
      by (cases ?t) (auto simp: priority_set_nice_def upd_proc_def Let_def)
  qed (use assms f t in \<open>auto simp: priority_set_nice_def Let_def\<close>)
qed

lemma policy_set_result:
  assumes "policy_set caller n policy rt reset s = (ok, s')"
  shows "if ok then \<exists>i. process_get_by_pid n s = Some i \<and>
       policy_allowed policy rt True (is_system (table s i)) (uid_of caller) (uid (table s i))
         (case caller of None \<Rightarrow> RLIM_INFINITY | Some c \<Rightarrow> rlim_cur c (nat RLIMIT_RTPRIO)) \<and>
       table s' = (table s)(i := (table s i)\<lparr>p_policy := policy, rt_priority := rt, reset_on_fork := reset\<rparr>)
     else table s' = table s"
proof -
  let ?t = "process_get_by_pid n s"
  obtain b s1 where f: "def_policy_change_allowed caller (map_option (table s) ?t) policy rt s = (b, s1)" by fastforce
  then have t: "table s1 = table s"
    using nice_change_table(2) [of caller "map_option (table s) ?t" policy rt s] by simp
  show ?thesis
  proof (cases b)
    case True
    then have "policy_allowed policy rt (?t \<noteq> None) (case map_option (table s) ?t of None \<Rightarrow> False | Some t \<Rightarrow> is_system t)
       (uid_of caller) (uid_of (map_option (table s) ?t))
       (case caller of None \<Rightarrow> RLIM_INFINITY | Some c \<Rightarrow> rlim_cur c (nat RLIMIT_RTPRIO))"
      using nice_change_ok(2) [of caller "map_option (table s) ?t" policy rt s] f by simp
    then show ?thesis using assms True f t
      by (cases ?t) (auto simp: policy_set_def upd_proc_def Let_def)
  qed (use assms f t in \<open>auto simp: policy_set_def Let_def\<close>)
qed

lemma nice_params:
  "nice_allowed nice e sy cu tu now lim \<Longrightarrow> params_ok p \<Longrightarrow>
     params_ok (p\<lparr>p_nice := nice, p_priority := priority_level_of_nice nice\<rparr>)"
  using level_range [of nice] by (auto simp: nice_allowed_def params_ok_def level_consts split: if_splits)

lemma policy_params:
  "policy_allowed policy rt e sy cu tu lim \<Longrightarrow> params_ok p \<Longrightarrow>
     params_ok (p\<lparr>p_policy := policy, rt_priority := rt, reset_on_fork := r\<rparr>)"
  by (auto simp: policy_allowed_def params_ok_def split: if_splits)

lemma params_inv_upd:
  assumes "params_inv s" and "table s' = (table s)(i := p)" and "p_state p = p_state (table s i)"
    and "params_ok (table s i) \<Longrightarrow> params_ok p"
  shows "params_inv s'"
  using assms by (auto simp: params_inv_def)

text \<open>The calls an ordinary user can make, one after another: nice and policy changes on behalf of a
  process of theirs that has no right to lower nice values or to real-time.\<close>

inductive user_sched_step :: "u32 set \<Rightarrow> 'a sched_scheme \<Rightarrow> 'a sched_scheme \<Rightarrow> bool" for us where
  nice_call: "uid c \<in> us \<Longrightarrow> rlim_cur c (nat RLIMIT_NICE) = 0 \<Longrightarrow>
    user_sched_step us s (snd (priority_set_nice (Some c) n nice s))"
| policy_call: "uid c \<in> us \<Longrightarrow> rlim_cur c (nat RLIMIT_RTPRIO) = 0 \<Longrightarrow>
    user_sched_step us s (snd (policy_set (Some c) n policy rt reset s))"

definition no_better :: "u32 set \<Rightarrow> process_t \<Rightarrow> process_t \<Rightarrow> bool" where
  "no_better us p p' \<longleftrightarrow> uid p' = uid p \<and> is_system p' = is_system p \<and> p_state p' = p_state p \<and> p_nice p \<le> p_nice p' \<and>
     (policy_is_realtime (p_policy p') \<longrightarrow> policy_is_realtime (p_policy p)) \<and>
     (uid p \<notin> us \<or> is_system p \<longrightarrow> p' = p) \<and> (params_ok p \<longrightarrow> params_ok p')"

lemma no_better_refl [simp]: "no_better us p p"
  by (simp add: no_better_def)

lemma no_better_trans: "no_better us p q \<Longrightarrow> no_better us q r \<Longrightarrow> no_better us p r"
  by (auto simp: no_better_def)

lemma nice_no_better:
  assumes "nice_allowed nice True (is_system p) u (uid p) (p_nice p) 0" and "u \<noteq> 0" and "u \<in> us"
  shows "no_better us p (p\<lparr>p_nice := nice, p_priority := priority_level_of_nice nice\<rparr>)"
proof -
  have "uid p = u" "\<not> is_system p" "p_nice p \<le> nice"
    using assms(1,2) by (auto simp: nice_allowed_def caps_has_root level_consts split: if_splits)
  then show ?thesis using assms(3) nice_params [OF assms(1), of p] by (simp add: no_better_def)
qed

lemma policy_no_better:
  assumes "policy_allowed policy rt True (is_system p) u (uid p) 0" and "u \<noteq> 0" and "u \<in> us"
  shows "no_better us p (p\<lparr>p_policy := policy, rt_priority := rt, reset_on_fork := r\<rparr>)"
proof -
  have "word_of_int rt \<noteq> (0 :: u32)" if "1 \<le> rt" "rt \<le> 99"
    using that by (simp add: word_of_int_eq_0_iff zdvd_not_zless)
  then have "\<not> policy_is_realtime policy"
    using assms(1,2)
    by (auto simp: policy_allowed_def caps_has_root policy_priority_min_def policy_priority_max_def
        RT_PRIORITY_MIN_def RT_PRIORITY_MAX_def split: if_splits)
  moreover have "uid p = u" "\<not> is_system p"
    using assms(1,2) by (auto simp: policy_allowed_def caps_has_root split: if_splits)
  ultimately show ?thesis using assms(3) policy_params [OF assms(1), of p r] by (simp add: no_better_def)
qed

lemma user_sched_step_table:
  assumes "user_sched_step us s s'" and "0 \<notin> us"
  shows "no_better us (table s j) (table s' j)"
  using assms(1)
proof cases
  case (nice_call c n nice)
  have c: "uid c \<noteq> 0" using nice_call(2) assms(2) by auto
  show ?thesis
  proof (cases "fst (priority_set_nice (Some c) n nice s)")
    case True
    then show ?thesis
      using set_nice_result [OF prod.collapse [symmetric], of "Some c" n nice s] nice_no_better [OF _ c nice_call(2)]
        nice_call(1,3) by (auto simp: fun_upd_def)
  next
    case False
    then show ?thesis
      using set_nice_result [OF prod.collapse [symmetric], of "Some c" n nice s] nice_call(1) by simp
  qed
next
  case (policy_call c n policy rt reset)
  have c: "uid c \<noteq> 0" using policy_call(2) assms(2) by auto
  show ?thesis
  proof (cases "fst (policy_set (Some c) n policy rt reset s)")
    case True
    then show ?thesis
      using policy_set_result [OF prod.collapse [symmetric], of "Some c" n policy rt reset s]
        policy_no_better [OF _ c policy_call(2)] policy_call(1,3) by (auto simp: fun_upd_def)
  next
    case False
    then show ?thesis
      using policy_set_result [OF prod.collapse [symmetric], of "Some c" n policy rt reset s] policy_call(1) by simp
  qed
qed

text \<open>C16: ordinary users cannot improve their standing: no sequence of nice and scheduling-policy calls
  by processes without the privilege and without the two limits lowers any nice value or makes any
  process real-time, and processes of other users and of the system are untouched. Scheduling
  parameters stay in their ranges throughout.\<close>

theorem sched_calls_safe:
  assumes "(user_sched_step us)\<^sup>*\<^sup>* s s'" and "0 \<notin> us"
  shows "p_nice (table s i) \<le> p_nice (table s' i) \<and>
     (policy_is_realtime (p_policy (table s' i)) \<longrightarrow> policy_is_realtime (p_policy (table s i))) \<and>
     (uid (table s i) \<notin> us \<or> is_system (table s i) \<longrightarrow> table s' i = table s i) \<and>
     (params_ok (table s i) \<longrightarrow> params_ok (table s' i))"
proof -
  have "no_better us (table s i) (table s' i)"
    using assms(1) by induction (use user_sched_step_table [OF _ assms(2)] no_better_trans no_better_refl in blast)+
  then show ?thesis by (simp add: no_better_def)
qed

section \<open>An example\<close>

text \<open>A machine with three processes: the idle task in slot 0, a greedy process of level 7 on the CPU in
  slot 1, and one of level 1 in slot 2 that has waited 60 ticks.\<close>

definition example_proc :: "u32 \<Rightarrow> process_state_t \<Rightarrow> int \<Rightarrow> u32 \<Rightarrow> process_t" where
  "example_proc n st level waited = limited_proc\<lparr>pid := n, p_state := st, p_priority := level, waited_ticks := waited\<rparr>"

definition zero_load :: cpu_load_t where
  "zero_load = \<lparr>l_busy = 0, l_user = 0, l_nice = 0, l_kernel = 0, l_idle = 0\<rparr>"

definition small_sched :: sched where
  "small_sched = umem.extend (small_umem\<lparr>timer_hz := 100, timer_ticks := 1000, current := Some 1,
       table := (\<lambda>_. def_pcb_wipe)(0 := example_proc 1 PROCESS_STATE_READY 0 0,
         1 := example_proc 2 PROCESS_STATE_RUNNING 7 0, 2 := example_proc 3 PROCESS_STATE_READY 1 60)\<rparr>)
     (sched.fields 0 0 0 False POWER_BALANCED 0 0 0 (Some 0) True 0 0 0 zero_load 0 0 0 0 0 0 0
       \<lparr>t_user = 0, t_nice = 0, t_system = 0, t_idle = 0\<rparr> 0
       (\<lambda>_. \<lparr>uptime_s = 0, s_load = zero_load, s_interrupts = 0, s_switches = 0, s_runnable = 0\<rparr>) 0 0 (\<lambda>_. 0) 0)"

lemma small_sched_fields [simp]:
  "table small_sched = (\<lambda>_. def_pcb_wipe)(0 := example_proc 1 PROCESS_STATE_READY 0 0,
         1 := example_proc 2 PROCESS_STATE_RUNNING 7 0, 2 := example_proc 3 PROCESS_STATE_READY 1 60)"
  "timer_hz small_sched = 100" "rt_throttled small_sched = False" "rt_period_ticks small_sched = 0"
  "rt_used_ticks small_sched = 0" "current small_sched = Some 1"
  by (simp_all add: small_sched_def umem.defs sched.defs)

lemma example_proc_fields [simp]:
  "p_state (example_proc n st l w) = st" "p_priority (example_proc n st l w) = l"
  "waited_ticks (example_proc n st l w) = w" "p_policy (example_proc n st l w) = SCHED_OTHER"
  "pid (example_proc n st l w) = n" "uid (example_proc n st l w) = 1000" "p_nice (example_proc n st l w) = 0"
  "rt_priority (example_proc n st l w) = 0" "\<not> is_system (example_proc n st l w)"
  "slice_left (example_proc n st l w) = 0"
  by (simp_all add: example_proc_def limited_proc_def rlimit_defaults_def def_pcb_wipe_def SCHED_OTHER_def)

lemma example_proc_ok: "0 \<le> l \<Longrightarrow> l \<le> 7 \<Longrightarrow> params_ok (example_proc n st l w)"
  by (simp add: params_ok_def policy_valid_iff policy_priority_min_def policy_priority_max_def policy_is_realtime_def
      level_consts sched_consts)

lemma wiped_free [simp]: "p_state def_pcb_wipe = PROCESS_STATE_FREE"
  by (simp add: def_pcb_wipe_def)

lemma small_sched_aged: "aged_out 2 small_sched"
  by (auto simp: aged_out_def params_inv_def runnable_def example_proc_ok level_consts sched_consts policy_is_realtime_def
      MAX_PROCESSES_def)

theorem no_starvation_witness:
  "aged_out 2 small_sched \<and> (\<exists>k. 1 \<le> k \<and> k \<le> MAX_PROCESSES \<and> turns (\<lambda>_. small_sched) 1 k = Some 2)"
  using no_starvation [of 2 1 "\<lambda>_. small_sched"] small_sched_aged by (simp add: MAX_PROCESSES_def)

theorem choose_is_first_best_witness:
  "params_inv small_sched \<and>
   fst (choose_process (Some 1) small_sched) = find (top_ranked small_sched) (round_from (Some 1))"
  using choose_is_first_best [of small_sched "Some 1"] small_sched_aged by (simp add: aged_out_def)



theorem sched_calls_safe_witness:
  "let c = (example_proc 2 PROCESS_STATE_RUNNING 7 0)\<lparr>rlim_cur := \<lambda>_. 0\<rparr>;
       s' = snd (priority_set_nice (Some c) 3 (-5) small_sched)
   in (user_sched_step {1000})\<^sup>*\<^sup>* small_sched s' \<and> p_nice (table small_sched 2) \<le> p_nice (table s' 2)"
proof -
  define c where "c = (example_proc 2 PROCESS_STATE_RUNNING 7 0)\<lparr>rlim_cur := \<lambda>_. 0\<rparr>"
  let ?s = "snd (priority_set_nice (Some c) 3 (-5) small_sched)"
  have "(user_sched_step {1000})\<^sup>*\<^sup>* small_sched ?s"
    by (intro r_into_rtranclp nice_call) (simp_all add: c_def)
  then show ?thesis using sched_calls_safe [of "{1000}" small_sched ?s 2] by (simp add: c_def [symmetric] Let_def)
qed

end
