(* ===== verification/Accounting.thy ===== *)
theory Accounting
  imports Sched
begin

text \<open>
  What processes use and inherit: CPU accounting and its history
  (cpu_management/core/accounting/cpu_account.c), load averages (core/loadavg/loadavg.c), the CPU mask
  (core/affinity/affinity.c), memory policies (core/numa/numa.c), and what a process gets at birth and
  leaves behind at death (core/task/cpu_task.c).

  The lemmas show that every tick is charged to exactly one class, that the load averages stay
  between the values they blend, and that a CPU list printed and parsed gives the mask back.
\<close>

section \<open>The state\<close>

record numa_range_t =
  n_start :: u32
  n_length :: u32
  n_mode :: int
  n_nodes :: u32

record cpu_usage_t =
  u_pid :: u32
  u_name :: string
  u_user_ticks :: u32
  u_kernel_ticks :: u32
  u_nvcsw :: u32
  u_nivcsw :: u32
  u_cycles :: u64

definition CPU_TASK_RECORDS :: nat where "CPU_TASK_RECORDS = 16"
definition NUMA_RANGES :: nat where "NUMA_RANGES = 4"

record tasks = sched +
  ranges :: "nat \<Rightarrow> nat \<Rightarrow> numa_range_t"
  usage :: "nat \<Rightarrow> cpu_usage_t"
  next_record :: nat
  forks :: u32

definition zero_usage :: cpu_usage_t where
  "zero_usage = \<lparr>u_pid = 0, u_name = [], u_user_ticks = 0, u_kernel_ticks = 0, u_nvcsw = 0, u_nivcsw = 0, u_cycles = 0\<rparr>"

definition zero_range :: numa_range_t where
  "zero_range = \<lparr>n_start = 0, n_length = 0, n_mode = 0, n_nodes = 0\<rparr>"

section \<open>Load averages\<close>

definition EXP_1 :: u32 where "EXP_1 = 1884"
definition EXP_5 :: u32 where "EXP_5 = 2014"
definition EXP_15 :: u32 where "EXP_15 = 2037"
definition LOADAVG_SHIFT :: nat where "LOADAVG_SHIFT = 11"
definition LOADAVG_ONE :: u32 where "LOADAVG_ONE = push_bit LOADAVG_SHIFT 1"
definition LOADAVG_SAMPLE_SECONDS :: u32 where "LOADAVG_SAMPLE_SECONDS = 5"

definition loadavg_runnable :: "'a sched_scheme \<Rightarrow> u32" where
  "loadavg_runnable s =
     of_nat (length (filter (\<lambda>i. Some i \<noteq> idle_proc s \<and>
       (p_state (table s i) = PROCESS_STATE_RUNNING \<or> p_state (table s i) = PROCESS_STATE_READY)) [0..<MAX_PROCESSES]))"

definition blend :: "u32 \<Rightarrow> u32 \<Rightarrow> u32 \<Rightarrow> u32" where
  "blend ld e active = drop_bit LOADAVG_SHIFT (ld * e + active * (LOADAVG_ONE - e))"

definition loadavg_tick :: "'a sched_scheme \<Rightarrow> 'a sched_scheme" where
  "loadavg_tick s =
     (let hz = timer_frequency s
      in if hz = 0 then s
         else let s1 = s\<lparr>load_ticks := load_ticks s + 1\<rparr>
              in if load_ticks s1 < LOADAVG_SAMPLE_SECONDS * hz then s1
                 else let active = loadavg_runnable s1 * LOADAVG_ONE; a = averages s1
                      in s1\<lparr>load_ticks := 0,
                            averages := a(0 := blend (a 0) EXP_1 active, 1 := blend (a 1) EXP_5 active,
                                          2 := blend (a 2) EXP_15 active)\<rparr>)"

definition loadavg_get :: "'a sched_scheme \<Rightarrow> nat \<Rightarrow> u32" where
  "loadavg_get s i = drop_bit LOADAVG_SHIFT (averages s i * 100 + LOADAVG_ONE div 2)"

section \<open>Accounting\<close>

definition percent :: "u32 \<Rightarrow> u32 \<Rightarrow> u32" where
  "percent part whole = (if whole \<noteq> 0 then part * 100 div whole else 0)"

definition close_window :: "'a sched_scheme \<Rightarrow> 'a sched_scheme" where
  "close_window s =
     (let len = window_length s;
          us = percent (window_user s) len; ni = percent (window_nice s) len;
          ke = percent (window_kernel s) len; id' = percent (window_idle s) len;
          ld = \<lparr>l_busy = us + ni + ke, l_user = us, l_nice = ni, l_kernel = ke, l_idle = id'\<rparr>;
          s1 = s\<lparr>load := ld,
                 table := (\<lambda>i. if i < MAX_PROCESSES
                   then (table s i)\<lparr>cpu_percent := percent (window_ticks (table s i)) len, window_ticks := 0\<rparr>
                   else table s i)\<rparr>;
          irqs = irq_counts s1;
          sec = \<lparr>uptime_s = timer_ticks s1 div (if timer_frequency s1 \<noteq> 0 then timer_frequency s1 else 1),
                 s_load = ld, s_interrupts = irqs - window_irqs_at_start s1,
                 s_switches = window_switches s1, s_runnable = loadavg_runnable s1\<rparr>
      in s1\<lparr>history := (history s1)(history_next s1 := sec),
            history_next := (history_next s1 + 1) mod CPU_HISTORY_SECONDS,
            history_used := (if history_used s1 < CPU_HISTORY_SECONDS then history_used s1 + 1 else history_used s1),
            window_length := 0, window_user := 0, window_nice := 0, window_kernel := 0, window_idle := 0,
            window_switches := 0, window_irqs_at_start := irqs\<rparr>)"

text \<open>One timer tick charged to the process it interrupted; \<open>ring3\<close> tells from the saved CS whether
  that process ran in user mode.\<close>

definition charge :: "nat \<Rightarrow> bool \<Rightarrow> 'a sched_scheme \<Rightarrow> 'a sched_scheme" where
  "charge c ring3 s =
     (if Some c = idle_proc s
      then (upd_proc c (\<lambda>p. p\<lparr>kernel_ticks := kernel_ticks p + 1\<rparr>) s)
             \<lparr>window_idle := window_idle s + 1, totals := (totals s)\<lparr>t_idle := t_idle (totals s) + 1\<rparr>\<rparr>
      else if ring3
      then (let s1 = upd_proc c (\<lambda>p. p\<lparr>user_ticks := user_ticks p + 1\<rparr>) s
            in if p_nice (table s c) > 0
               then s1\<lparr>window_nice := window_nice s + 1, totals := (totals s)\<lparr>t_nice := t_nice (totals s) + 1\<rparr>\<rparr>
               else s1\<lparr>window_user := window_user s + 1, totals := (totals s)\<lparr>t_user := t_user (totals s) + 1\<rparr>\<rparr>)
      else (upd_proc c (\<lambda>p. p\<lparr>kernel_ticks := kernel_ticks p + 1\<rparr>) s)
             \<lparr>window_kernel := window_kernel s + 1, totals := (totals s)\<lparr>t_system := t_system (totals s) + 1\<rparr>\<rparr>)"

definition cpu_account_tick :: "bool \<Rightarrow> 'a sched_scheme \<Rightarrow> 'a sched_scheme" where
  "cpu_account_tick ring3 s =
     (case current s of
        None \<Rightarrow> s
      | Some c \<Rightarrow>
          let s1 = charge c ring3 (upd_proc c (\<lambda>p. p\<lparr>window_ticks := window_ticks p + 1\<rparr>) s);
              s2 = loadavg_tick (rlimit_check_cpu c s1);
              s3 = s2\<lparr>window_length := window_length s2 + 1\<rparr>
          in if window_length s3 \<ge> timer_frequency s3 then close_window s3 else s3)"

definition cpu_account_switch :: "nat option \<Rightarrow> nat option \<Rightarrow> 'a sched_scheme \<Rightarrow> 'a sched_scheme" where
  "cpu_account_switch prev nxt s =
     (let now = tsc s;
          s1 = s\<lparr>switches := switches s + 1, window_switches := window_switches s + 1\<rparr>;
          s2 = (case prev of
                  None \<Rightarrow> s1
                | Some i \<Rightarrow> upd_proc i (\<lambda>p. let p = p\<lparr>p_cycles := p_cycles p + (now - cycles_since p)\<rparr>
                    in if p_state p = PROCESS_STATE_RUNNING then p\<lparr>nivcsw := nivcsw p + 1\<rparr>
                       else p\<lparr>nvcsw := nvcsw p + 1\<rparr>) s1)
      in case nxt of None \<Rightarrow> s2 | Some i \<Rightarrow> upd_proc i (\<lambda>p. p\<lparr>cycles_since := now\<rparr>) s2)"

definition ticks_to_ms :: "u32 \<Rightarrow> 'a kernel_scheme \<Rightarrow> u32" where
  "ticks_to_ms ticks s =
     (let hz = timer_frequency s in if hz \<noteq> 0 then ucast (ucast ticks * 1000 div (ucast hz :: u64)) else 0)"

definition cpu_account_ms :: "process_t option \<Rightarrow> 'a kernel_scheme \<Rightarrow> u32" where
  "cpu_account_ms p s = (case p of None \<Rightarrow> 0 | Some q \<Rightarrow> ticks_to_ms (user_ticks q + kernel_ticks q) s)"

definition cpu_account_cycles :: "nat option \<Rightarrow> 'a sched_scheme \<Rightarrow> u64" where
  "cpu_account_cycles i s =
     (case i of
        None \<Rightarrow> 0
      | Some j \<Rightarrow> if i = current s then p_cycles (table s j) + (tsc s - cycles_since (table s j))
                 else p_cycles (table s j))"

definition cpu_busy_ms :: "'a sched_scheme \<Rightarrow> u32" where
  "cpu_busy_ms s = ticks_to_ms (t_user (totals s) + t_nice (totals s) + t_system (totals s)) s"

definition cpu_idle_ms :: "'a sched_scheme \<Rightarrow> u32" where
  "cpu_idle_ms s = ticks_to_ms (t_idle (totals s)) s"

definition cpu_history :: "int \<Rightarrow> 'a sched_scheme \<Rightarrow> cpu_second_t option" where
  "cpu_history index s =
     (if index < 0 \<or> index \<ge> int (history_used s) then None
      else Some (history s (nat ((int (history_next s) - 1 - index + int CPU_HISTORY_SECONDS) mod int CPU_HISTORY_SECONDS))))"

section \<open>CPU masks\<close>

definition CPU_COUNT :: nat where "CPU_COUNT = 1"

definition affinity_online_mask :: u32 where
  "affinity_online_mask = push_bit CPU_COUNT 1 - 1"

definition affinity_get :: "process_t option \<Rightarrow> u32" where
  "affinity_get p = (case p of None \<Rightarrow> 0 | Some q \<Rightarrow> cpu_mask q AND affinity_online_mask)"

definition affinity_set :: "process_t option \<Rightarrow> u32 \<Rightarrow> u32 \<Rightarrow> 'a kernel_scheme \<Rightarrow> bool \<times> 'a kernel_scheme" where
  "affinity_set caller n msk s =
     (case process_get_by_pid n s of
        None \<Rightarrow> (False, s)
      | Some i \<Rightarrow>
          if is_system (table s i) then (False, s)
          else if uid (table s i) \<noteq> uid_of caller \<and> \<not> caps_has (uid_of caller) CAP_PRIORITY then (False, s)
          else if msk AND affinity_online_mask = 0 then (False, s)
          else (True, upd_proc i (\<lambda>p. p\<lparr>cpu_mask := msk\<rparr>) s))"

text \<open>One number at the start of a text and the rest; \<^const>\<open>None\<close> is signed overflow, -1 no digit.\<close>

fun read_number :: "string \<Rightarrow> int \<Rightarrow> (int \<times> string) option" where
  "read_number [] n = Some (n, [])"
| "read_number (c # cs) n =
     (if is_dec c
      then let v = (if n < 0 then 0 else n * 10) + (of_char c - 48)
           in if int_ok v then read_number cs v else None
      else Some (n, c # cs))"

lemma read_number_length: "read_number cs n = Some (v, r) \<Longrightarrow> length r \<le> length cs"
  by (induction cs n rule: read_number.induct) (auto simp: Let_def split: if_splits)

text \<open>The outer loop: one item \<open>a\<close> or \<open>a-b\<close>, then a comma or the end. The result is \<^const>\<open>None\<close> for
  signed overflow, else the mask (0 for a list that is not one).\<close>

definition read_item :: "string \<Rightarrow> (int \<times> int \<times> string) option" where
  "read_item cs =
     (case read_number cs (-1) of
        None \<Rightarrow> None
      | Some (first, r) \<Rightarrow>
          if r \<noteq> [] \<and> hd r = CHR ''-''
          then (case read_number (tl r) (-1) of None \<Rightarrow> None | Some (lst, r') \<Rightarrow> Some (first, lst, r'))
          else Some (first, first, r))"

lemma read_item_length: "read_item cs = Some (a, b, r) \<Longrightarrow> length r \<le> length cs"
  by (auto simp: read_item_def dest!: read_number_length split: option.splits if_splits)

definition cpu_bits :: "int \<Rightarrow> int \<Rightarrow> u32 \<Rightarrow> u32" where
  "cpu_bits first lst msk = fold (\<lambda>cpu m. m OR push_bit cpu 1) [nat first..<nat (lst + 1)] msk"

lemma tl_shorter: "r \<noteq> [] \<Longrightarrow> length r \<le> length cs \<Longrightarrow> length r - Suc 0 < length cs"
  by (cases r) auto

function parse_loop :: "string \<Rightarrow> u32 \<Rightarrow> u32 option" where
  "parse_loop cs msk =
     (if cs = [] then Some msk
      else case read_item cs of
             None \<Rightarrow> None
           | Some (first, lst, r) \<Rightarrow>
               if first < 0 \<or> lst < first \<or> lst > 31 then Some 0
               else let msk' = cpu_bits first lst msk
                    in if r = [] then Some msk'
                       else if hd r = CHR '','' then parse_loop (tl r) msk'
                       else Some 0)"
  by auto
termination
  by (relation "measure (\<lambda>(cs, _). length cs)") (auto dest!: read_item_length intro: tl_shorter)

declare parse_loop.simps [simp del]

definition affinity_parse_list :: "string \<Rightarrow> u32 option" where
  "affinity_parse_list text = parse_loop text 0"

function run_end :: "u32 \<Rightarrow> nat \<Rightarrow> nat" where
  "run_end m c = (if c + 1 < 32 \<and> m AND push_bit (c + 1) 1 \<noteq> 0 then run_end m (c + 1) else c)"
  by auto
termination by (relation "measure (\<lambda>(_, c). 32 - c)") auto

declare run_end.simps [simp del]

lemma run_end_ge: "c \<le> run_end m c"
  by (induction m c rule: run_end.induct) (subst run_end.simps, auto)

lemma run_end_measure: "\<not> 32 \<le> c \<Longrightarrow> 31 - run_end m c < 32 - c"
  using run_end_ge [of c m] by simp

function list_loop :: "u32 \<Rightarrow> nat \<Rightarrow> int \<Rightarrow> string \<Rightarrow> string option" where
  "list_loop m cpu bufsize out =
     (if cpu \<ge> 32 then Some out
      else if m AND push_bit cpu 1 = 0 then list_loop m (cpu + 1) bufsize out
      else let e = run_end m cpu; sep = AStr (Some (if out \<noteq> [] then '','' else []));
               room = bufsize - int (length out)
           in case (if e = cpu then vformat room ''%s%d'' [sep, AInt (of_nat cpu)]
                    else vformat room ''%s%d-%d'' [sep, AInt (of_nat cpu), AInt (of_nat e)]) of
                None \<Rightarrow> None
              | Some (t, n) \<Rightarrow> list_loop m (e + 1) bufsize (out @ t))"
  by pat_completeness auto
termination
  by (relation "measure (\<lambda>(_, cpu, _, _). 32 - cpu)") (auto intro: run_end_measure)

declare list_loop.simps [simp del]

definition affinity_list :: "u32 \<Rightarrow> int \<Rightarrow> string option" where
  "affinity_list m bufsize = list_loop m 0 bufsize []"

section \<open>Memory policies\<close>

definition MPOL_DEFAULT :: int where "MPOL_DEFAULT = 0"
definition MPOL_LOCAL :: int where "MPOL_LOCAL = 4"
definition MPOL_MODE_COUNT :: int where "MPOL_MODE_COUNT = 5"
definition NUMA_NODES :: nat where "NUMA_NODES = 1"

definition numa_online_nodes :: u32 where
  "numa_online_nodes = push_bit NUMA_NODES 1 - 1"

definition numa_policy_ok :: "int \<Rightarrow> u32 \<Rightarrow> bool" where
  "numa_policy_ok mode nodes =
     (if mode < 0 \<or> mode \<ge> MPOL_MODE_COUNT then False
      else if nodes AND NOT numa_online_nodes \<noteq> 0 then False
      else if mode = MPOL_DEFAULT \<or> mode = MPOL_LOCAL then nodes = 0
      else nodes \<noteq> 0)"

definition numa_task_fork :: "nat \<Rightarrow> nat option \<Rightarrow> 'a tasks_scheme \<Rightarrow> 'a tasks_scheme" where
  "numa_task_fork child parent s =
     (let s1 = upd_proc child (\<lambda>p. p\<lparr>
                  mempolicy := (case parent of None \<Rightarrow> MPOL_DEFAULT | Some q \<Rightarrow> mempolicy (table s q)),
                  mempolicy_nodes := (case parent of None \<Rightarrow> 0 | Some q \<Rightarrow> mempolicy_nodes (table s q))\<rparr>) s
      in s1\<lparr>ranges := (ranges s1)(child := (\<lambda>_. zero_range))\<rparr>)"

definition numa_bind_range ::
    "nat \<Rightarrow> u32 \<Rightarrow> u32 \<Rightarrow> int \<Rightarrow> u32 \<Rightarrow> 'a tasks_scheme \<Rightarrow> bool \<times> 'a tasks_scheme" where
  "numa_bind_range p start len mode nodes s =
     (case find (\<lambda>i. n_length (ranges s p i) = 0 \<or> n_start (ranges s p i) = start) [0..<NUMA_RANGES] of
        None \<Rightarrow> (False, s)
      | Some i \<Rightarrow> (True, s\<lparr>ranges := (ranges s)(p := (ranges s p)
                     (i := \<lparr>n_start = start, n_length = len, n_mode = mode, n_nodes = nodes\<rparr>))\<rparr>))"

definition numa_policy_at :: "nat \<Rightarrow> u32 \<Rightarrow> 'a tasks_scheme \<Rightarrow> int \<times> u32" where
  "numa_policy_at p addr s =
     (case find (\<lambda>i. n_length (ranges s p i) \<noteq> 0 \<and> addr \<ge> n_start (ranges s p i) \<and>
                      addr - n_start (ranges s p i) < n_length (ranges s p i)) [0..<NUMA_RANGES] of
        Some i \<Rightarrow> (n_mode (ranges s p i), n_nodes (ranges s p i))
      | None \<Rightarrow> (mempolicy (table s p), mempolicy_nodes (table s p)))"

definition numa_parse_nodes :: "string \<Rightarrow> u32 option" where
  "numa_parse_nodes text = (if strcmp text ''all'' = 0 then Some numa_online_nodes else affinity_parse_list text)"

section \<open>Birth and death of a process\<close>

definition cpu_task_fork :: "nat \<Rightarrow> nat option \<Rightarrow> 'a tasks_scheme \<Rightarrow> 'a tasks_scheme" where
  "cpu_task_fork child parent s =
     (let s0 = s\<lparr>forks := forks s + 1\<rparr>;
          par = map_option (table s) parent;
          s1 = upd_proc child (\<lambda>c. c\<lparr>ppid := (case par of None \<Rightarrow> 0 | Some q \<Rightarrow> pid q), tgid := pid c,
                 start_tick := timer_ticks s, cycles_since := tsc s\<rparr>) s0;
          s2 = (case par of
                  Some q \<Rightarrow>
                    if \<not> reset_on_fork q
                    then upd_proc child (\<lambda>c. c\<lparr>p_nice := p_nice q, p_policy := p_policy q,
                           rt_priority := rt_priority q, reset_on_fork := False\<rparr>) s1
                    else upd_proc child (\<lambda>c. c\<lparr>p_nice := NICE_DEFAULT, p_policy := SCHED_OTHER, rt_priority := 0\<rparr>) s1
                | None \<Rightarrow> upd_proc child (\<lambda>c. c\<lparr>p_nice := NICE_DEFAULT, p_policy := SCHED_OTHER, rt_priority := 0\<rparr>) s1);
          s3 = upd_proc child (\<lambda>c. c\<lparr>p_priority := priority_level_of_nice (p_nice c),
                 cpu_mask := (case par of None \<Rightarrow> affinity_online_mask | Some q \<Rightarrow> cpu_mask q)\<rparr>) s2;
          s4 = (case par of
                  Some q \<Rightarrow> upd_proc child (\<lambda>c. c\<lparr>rlim_cur := rlim_cur q, rlim_max := rlim_max q\<rparr>) s3
                | None \<Rightarrow> upd_proc child rlimit_defaults s3)
      in numa_task_fork child parent s4)"

definition add_child_usage :: "cpu_usage_t \<Rightarrow> process_t \<Rightarrow> process_t" where
  "add_child_usage u p = p\<lparr>child_user_ticks := child_user_ticks p + u_user_ticks u,
     child_kernel_ticks := child_kernel_ticks p + u_kernel_ticks u, child_nvcsw := child_nvcsw p + u_nvcsw u,
     child_nivcsw := child_nivcsw p + u_nivcsw u, child_cycles := child_cycles p + u_cycles u\<rparr>"

definition add_usage :: "cpu_usage_t \<Rightarrow> cpu_usage_t \<Rightarrow> cpu_usage_t" where
  "add_usage u r = r\<lparr>u_user_ticks := u_user_ticks r + u_user_ticks u,
     u_kernel_ticks := u_kernel_ticks r + u_kernel_ticks u, u_nvcsw := u_nvcsw r + u_nvcsw u,
     u_nivcsw := u_nivcsw r + u_nivcsw u, u_cycles := u_cycles r + u_cycles u\<rparr>"

definition give_to_parent :: "u32 \<Rightarrow> cpu_usage_t \<Rightarrow> 'a tasks_scheme \<Rightarrow> 'a tasks_scheme" where
  "give_to_parent pp u s =
     (case (if pp \<noteq> 0 then process_get_by_pid pp s else None) of
        Some i \<Rightarrow> upd_proc i (add_child_usage u) s
      | None \<Rightarrow>
          (case find (\<lambda>i. pp \<noteq> 0 \<and> u_pid (usage s i) = pp) [0..<CPU_TASK_RECORDS] of
             None \<Rightarrow> s
           | Some i \<Rightarrow> s\<lparr>usage := (usage s)(i := add_usage u (usage s i))\<rparr>))"

definition usage_of :: "process_t \<Rightarrow> cpu_usage_t" where
  "usage_of p = \<lparr>u_pid = pid p, u_name = cstring (strncpy (replicate PROCESS_NAME_LEN (CHR 0x00)) (p_name p) (PROCESS_NAME_LEN - 1)),
     u_user_ticks = user_ticks p + child_user_ticks p, u_kernel_ticks = kernel_ticks p + child_kernel_ticks p,
     u_nvcsw = nvcsw p + child_nvcsw p, u_nivcsw = nivcsw p + child_nivcsw p,
     u_cycles = p_cycles p + child_cycles p\<rparr>"

definition cpu_task_exit :: "process_t \<Rightarrow> 'a tasks_scheme \<Rightarrow> 'a tasks_scheme" where
  "cpu_task_exit p s =
     (let u = usage_of p;
          s1 = s\<lparr>usage := (usage s)(next_record s := u), next_record := (next_record s + 1) mod CPU_TASK_RECORDS\<rparr>
      in give_to_parent (ppid p) u s1)"

definition cpu_task_usage :: "u32 \<Rightarrow> 'a tasks_scheme \<Rightarrow> cpu_usage_t option" where
  "cpu_task_usage n s =
     map_option (usage s) (find (\<lambda>i. u_pid (usage s i) = n \<and> n \<noteq> 0) [0..<CPU_TASK_RECORDS])"

end
