(* ===== verification/Switch.thy ===== *)
theory Switch
  imports Signals
begin

text \<open>
  What \<open>scheduler_yield\<close> guarantees (process_management/core/scheduler/scheduler.c): the invariant that
  exactly the process on the CPU can be running and that the idle task can always run, that every switch
  keeps it, and what a switch does to the table, the stack pointers and the task state segment.
  A PCB is compared up to the counters a switch writes.
\<close>

section \<open>What a switch does\<close>

lemma audit_log_sigs [simp]:
  "started (audit_log d t s) = started s" "idle_proc (audit_log d t s) = idle_proc s"
  "rt_throttled (audit_log d t s) = rt_throttled s" "tsc (audit_log d t s) = tsc s"
  "profile (audit_log d t s) = profile s" "pool (audit_log d t s) = pool s"
  "sig_order (audit_log d t s) = sig_order s" "cpu_esp (audit_log d t s) = cpu_esp s"
  "sigs.more (audit_log d t s) = sigs.more s" for s :: "'a sigs_scheme"
proof -
  have m: "audit.more (audit_log d t s) = audit.more s" by simp
  show "started (audit_log d t s) = started s" "idle_proc (audit_log d t s) = idle_proc s"
    "rt_throttled (audit_log d t s) = rt_throttled s" "tsc (audit_log d t s) = tsc s"
    "profile (audit_log d t s) = profile s" "pool (audit_log d t s) = pool s"
    "sig_order (audit_log d t s) = sig_order s" "cpu_esp (audit_log d t s) = cpu_esp s"
    "sigs.more (audit_log d t s) = sigs.more s"
    using m by (cases s; cases "audit_log d t s"; simp)+
qed

text \<open>A PCB without the counters and the stack pointer that every switch writes.\<close>

definition core :: "process_t \<Rightarrow> process_t" where
  "core p = p\<lparr>slice_left := 0, waited_ticks := 0, ready_ticks := 0, p_cycles := 0, cycles_since := 0,
     nvcsw := 0, nivcsw := 0, p_esp := 0\<rparr>"

lemma core_fields [simp]:
  "p_state (core p) = p_state p" "is_system (core p) = is_system p" "pid (core p) = pid p" "uid (core p) = uid p"
  "p_priority (core p) = p_priority p" "p_nice (core p) = p_nice p" "p_policy (core p) = p_policy p"
  "rt_priority (core p) = rt_priority p" "stack_base (core p) = stack_base p" "ppid (core p) = ppid p"
  "sleep_ticks (core p) = sleep_ticks p" "p_signals (core p) = p_signals p" "sig_blocked (core p) = sig_blocked p"
  "sig_handler (core p) = sig_handler p" "sig_mask (core p) = sig_mask p" "generation (core p) = generation p"
  "exit_status (core p) = exit_status p"
  by (simp_all add: core_def)

lemma core_eqD:
  assumes "core p = core q"
  shows "p_state p = p_state q" "is_system p = is_system q" "params_ok p = params_ok q" "runnable p = runnable q"
    "pid p = pid q" "uid p = uid q" "sig_blocked p = sig_blocked q" "sig_handler p = sig_handler q"
    "sig_mask p = sig_mask q" "p_signals p = p_signals q" "stack_base p = stack_base q"
  using arg_cong [OF assms, of p_state] arg_cong [OF assms, of is_system] arg_cong [OF assms, of pid]
    arg_cong [OF assms, of uid] arg_cong [OF assms, of p_priority] arg_cong [OF assms, of p_nice]
    arg_cong [OF assms, of p_policy] arg_cong [OF assms, of rt_priority] arg_cong [OF assms, of sig_blocked]
    arg_cong [OF assms, of sig_handler] arg_cong [OF assms, of sig_mask] arg_cong [OF assms, of p_signals]
    arg_cong [OF assms, of stack_base]
  by (simp_all add: params_ok_def runnable_def)

lemma core_upd [simp]:
  "core (p\<lparr>slice_left := a\<rparr>) = core p" "core (p\<lparr>waited_ticks := a\<rparr>) = core p" "core (p\<lparr>p_esp := a\<rparr>) = core p"
  "core (p\<lparr>p_cycles := c\<rparr>) = core p" "core (p\<lparr>cycles_since := c\<rparr>) = core p" "core (p\<lparr>nvcsw := a\<rparr>) = core p"
  "core (p\<lparr>nivcsw := a\<rparr>) = core p" "core (p\<lparr>p_state := st\<rparr>) = (core p)\<lparr>p_state := st\<rparr>"
  by (simp_all add: core_def)

lemma account_switch_core:
  "core (table (cpu_account_switch (Some i) (Some k) s) j) = core (table s j)"
  "p_state (table (cpu_account_switch (Some i) (Some k) s) j) = p_state (table s j)"
  "p_esp (table (cpu_account_switch (Some i) (Some k) s) j) = p_esp (table s j)"
  "stack_base (table (cpu_account_switch (Some i) (Some k) s) j) = stack_base (table s j)"
  by (simp_all add: cpu_account_switch_def Let_def upd_proc_def)

lemma account_switch_fields [simp]:
  "current (cpu_account_switch p q s) = current s" "started (cpu_account_switch p q s) = started s"
  "idle_proc (cpu_account_switch p q s) = idle_proc s" "cpu_esp (cpu_account_switch p q s') = cpu_esp s'"
  "pool (cpu_account_switch p q s') = pool s'" "sigs.more (cpu_account_switch p q s') = sigs.more s'"
  "tss_esp0 (cpu_account_switch p q s) = tss_esp0 s" "sig_order (cpu_account_switch p q s') = sig_order s'"
  by (simp_all add: cpu_account_switch_def Let_def upd_proc_def split: option.split)

lemma switch_to_process_core:
  assumes "i \<noteq> k"
  shows "core (table (switch_to_process i k s) j) =
    (if j = k then (core (table s j))\<lparr>p_state := PROCESS_STATE_RUNNING\<rparr>
     else if j = i \<and> p_state (table s i) = PROCESS_STATE_RUNNING then (core (table s j))\<lparr>p_state := PROCESS_STATE_READY\<rparr>
     else core (table s j))"
  using assms
  by (simp add: switch_to_process_def Let_def switch_task_def set_kernel_stack_def priority_start_turn_def upd_proc_def
      account_switch_core)

lemma switch_to_process_fields [simp]:
  "current (switch_to_process i k s) = Some k" "started (switch_to_process i k s) = started s"
  "idle_proc (switch_to_process i k s) = idle_proc s" "pool (switch_to_process i k s) = pool s"
  "sig_order (switch_to_process i k s) = sig_order s" "sigs.more (switch_to_process i k s) = sigs.more s"
  by (simp_all add: switch_to_process_def Let_def switch_task_def set_kernel_stack_def priority_start_turn_def upd_proc_def)

lemma switch_to_process_stack:
  assumes "i \<noteq> k"
  shows "cpu_esp (switch_to_process i k s) = p_esp (table s k)" "p_esp (table (switch_to_process i k s) i) = cpu_esp s"
    "stack_base (table s k) \<noteq> 0 \<Longrightarrow> tss_esp0 (switch_to_process i k s) = stack_base (table s k) + PROCESS_STACK_SIZE"
  using assms
  by (simp_all add: switch_to_process_def Let_def switch_task_def set_kernel_stack_def priority_start_turn_def upd_proc_def
      account_switch_core)

lemma guard_core:
  "core (table (guard_current c s) j) =
     (if j = c \<and> \<not> stack_pointer_ok (cpu_esp s) (stack_base (table s c))
      then (core (table s j))\<lparr>p_state := PROCESS_STATE_ZOMBIE\<rparr> else core (table s j))"
  by (simp add: guard_current_def def_stack_guard_check_def)

lemma guard_fields [simp]:
  "current (guard_current c s) = current s" "started (guard_current c s) = started s"
  "idle_proc (guard_current c s) = idle_proc s" "cpu_esp (guard_current c s) = cpu_esp s"
  "pool (guard_current c s) = pool s" "sig_order (guard_current c s) = sig_order s"
  "sigs.more (guard_current c s) = sigs.more s" "p_esp (table (guard_current c s) j) = p_esp (table s j)"
  "stack_base (table (guard_current c s) j) = stack_base (table s j)"
  by (simp_all add: guard_current_def def_stack_guard_check_def upd_proc_def)

lemma note_rescue_fields [simp]:
  "table (def_aging_note_rescue s) = table s" "current (def_aging_note_rescue s) = current s"
  "started (def_aging_note_rescue s) = started s" "idle_proc (def_aging_note_rescue s) = idle_proc s"
  "cpu_esp (def_aging_note_rescue s) = cpu_esp s" "pool (def_aging_note_rescue s) = pool s"
  "sig_order (def_aging_note_rescue s) = sig_order s" "sigs.more (def_aging_note_rescue s) = sigs.more s"
  for s :: "'a sigs_scheme"
  by (simp_all add: def_aging_note_rescue_def)

lemma pick_next_state:
  "\<exists>b. priority_pick_next cur s = (fst (choose_process cur s), if b then def_aging_note_rescue s else s)"
  by (auto simp: priority_pick_next_def split: prod.splits)

text \<open>Exactly one process may be running, the one on the CPU; the idle task can always run.\<close>

definition run_inv :: "'a sigs_scheme \<Rightarrow> bool" where
  "run_inv s \<longleftrightarrow> params_inv s \<and> started s \<and>
     (\<exists>c < MAX_PROCESSES. current s = Some c \<and> p_state (table s c) \<noteq> PROCESS_STATE_FREE \<and>
        (\<forall>i < MAX_PROCESSES. p_state (table s i) = PROCESS_STATE_RUNNING \<longrightarrow> i = c)) \<and>
     (\<exists>d < MAX_PROCESSES. idle_proc s = Some d \<and> is_system (table s d) \<and> runnable (table s d))"

lemma params_ok_state [simp]: "params_ok (p\<lparr>p_state := st\<rparr>) = params_ok p"
  by (simp add: params_ok_def)

lemma params_ok_core [simp]: "params_ok (core p) = params_ok p" "runnable (core p) = runnable p"
  by (simp_all add: params_ok_def runnable_def)

text \<open>The table after a yield, up to the counters: the process that leaves, the one that comes.\<close>

definition yielded :: "nat \<Rightarrow> nat \<Rightarrow> process_state_t \<Rightarrow> 'a sigs_scheme \<Rightarrow> nat \<Rightarrow> process_t" where
  "yielded c n st s j =
     (if n = c then (core (table s j))\<lparr>p_state := (if j = c then st else p_state (table s j))\<rparr>
      else (core (table s j))\<lparr>p_state := (if j = n then PROCESS_STATE_RUNNING
               else if j = c then (if st = PROCESS_STATE_RUNNING then PROCESS_STATE_READY else st)
               else p_state (table s j))\<rparr>)"

lemma core_same_state: "(core p)\<lparr>p_state := p_state p\<rparr> = core p"
  by (simp add: core_def)

lemma run_next_result:
  assumes "fst (choose_process (Some c) s) = Some n"
  shows "core (table (run_next c s) j) = yielded c n (p_state (table s c)) s j" and "current s = Some c \<Longrightarrow> current (run_next c s) = Some n"
    and "started (run_next c s) = started s" and "idle_proc (run_next c s) = idle_proc s"
    and "n \<noteq> c \<Longrightarrow> cpu_esp (run_next c s) = p_esp (table s n)" and "n \<noteq> c \<Longrightarrow> p_esp (table (run_next c s) c) = cpu_esp s"
    and "n \<noteq> c \<Longrightarrow> stack_base (table s n) \<noteq> 0 \<Longrightarrow> tss_esp0 (run_next c s) = stack_base (table s n) + PROCESS_STACK_SIZE"
    and "pool (run_next c s) = pool s" and "sig_order (run_next c s) = sig_order s" and "sigs.more (run_next c s) = sigs.more s"
proof -
  obtain b where b: "priority_pick_next (Some c) s = (Some n, if b then def_aging_note_rescue s else s)"
    using pick_next_state [of "Some c" s] assms by auto
  define u where "u = (if b then def_aging_note_rescue s else s)"
  have u: "table u = table s" "current u = current s" "started u = started s" "idle_proc u = idle_proc s"
    "cpu_esp u = cpu_esp s" "pool u = pool s" "sig_order u = sig_order s" "sigs.more u = sigs.more s"
    by (simp_all add: u_def)
  have r: "run_next c s = (if n = c then priority_start_turn c u else switch_to_process c n u)"
    by (simp add: run_next_def b u_def)
  show "core (table (run_next c s) j) = yielded c n (p_state (table s c)) s j"
    by (simp add: r yielded_def switch_to_process_core u priority_start_turn_def core_same_state)
  show "current s = Some c \<Longrightarrow> current (run_next c s) = Some n" "started (run_next c s) = started s"
    "idle_proc (run_next c s) = idle_proc s" "n \<noteq> c \<Longrightarrow> cpu_esp (run_next c s) = p_esp (table s n)"
    "n \<noteq> c \<Longrightarrow> p_esp (table (run_next c s) c) = cpu_esp s"
    "n \<noteq> c \<Longrightarrow> stack_base (table s n) \<noteq> 0 \<Longrightarrow> tss_esp0 (run_next c s) = stack_base (table s n) + PROCESS_STACK_SIZE"
    "pool (run_next c s) = pool s" "sig_order (run_next c s) = sig_order s" "sigs.more (run_next c s) = sigs.more s"
    by (simp_all add: r u switch_to_process_stack priority_start_turn_def upd_proc_def)
qed

lemma core_state_upd:
  "core p = (core q)\<lparr>p_state := st\<rparr> \<Longrightarrow> p_state p = st \<and> is_system p = is_system q \<and> params_ok p = params_ok q"
proof -
  assume e: "core p = (core q)\<lparr>p_state := st\<rparr>"
  have "params_ok (core p) = params_ok (core q)" by (simp add: e del: params_ok_core)
  then show ?thesis using arg_cong [OF e, of p_state] arg_cong [OF e, of is_system] by simp
qed

lemma guard_keeps:
  "is_system (table (guard_current c s) j) = is_system (table s j)"
  "params_ok (table (guard_current c s) j) = params_ok (table s j)"
  "p_state (table (guard_current c s) j) =
     (if j = c \<and> \<not> stack_pointer_ok (cpu_esp s) (stack_base (table s c)) then PROCESS_STATE_ZOMBIE else p_state (table s j))"
  by (simp_all add: guard_current_def def_stack_guard_check_def params_ok_def)

lemma yielded_keeps:
  assumes "core (table s' j) = yielded c n st s j"
  shows "is_system (table s' j) = is_system (table s j)" "params_ok (table s' j) = params_ok (table s j)"
    "p_state (table s' j) = p_state (yielded c n st s j)"
  using assms core_state_upd [where p = "table s' j" and q = "table s j"] by (auto simp: yielded_def split: if_splits)

lemma run_next_inv:
  assumes "run_inv s" and "current s = Some c"
  obtains n where "fst (choose_process (Some c) s) = Some n" "run_inv (run_next c s)" "current (run_next c s) = Some n"
    "n < MAX_PROCESSES" "runnable (table s n)"
    "p_state (table (run_next c s) n) = (if n = c then p_state (table s c) else PROCESS_STATE_RUNNING)"
proof -
  obtain d where d: "d < MAX_PROCESSES" "idle_proc s = Some d" "is_system (table s d)" "runnable (table s d)"
    using assms(1) by (auto simp: run_inv_def)
  have pi: "params_inv s" and st: "started s" and c: "c < MAX_PROCESSES" "p_state (table s c) \<noteq> PROCESS_STATE_FREE"
    and one: "\<forall>i < MAX_PROCESSES. p_state (table s i) = PROCESS_STATE_RUNNING \<longrightarrow> i = c"
    using assms by (auto simp: run_inv_def)
  have "params_ok (table s d)" using pi d by (auto simp: params_inv_def runnable_def)
  then obtain n where n: "fst (choose_process (Some c) s) = Some n"
    using choose_not_None [OF d(1,4) rank_bounds(1), of "Some c"] by auto
  note k = choose_Some(1,2) [OF n]
  note r = run_next_result [OF n]
  note y = yielded_keeps [OF r(1)]
  have ps: "p_state (table (run_next c s) j) =
     (if j = n \<and> n \<noteq> c then PROCESS_STATE_RUNNING
      else if j = c \<and> n \<noteq> c \<and> p_state (table s c) = PROCESS_STATE_RUNNING then PROCESS_STATE_READY
      else p_state (table s j))" for j
    using y(3) [of j] by (auto simp: yielded_def)
  have "params_inv (run_next c s)"
    unfolding params_inv_def y(2)
  proof (intro allI impI)
    fix i assume "i < MAX_PROCESSES" "p_state (table (run_next c s) i) \<noteq> PROCESS_STATE_FREE"
    then have "p_state (table s i) \<noteq> PROCESS_STATE_FREE"
      using k(2) ps [of i] by (auto simp: runnable_def split: if_splits)
    then show "params_ok (table s i)" using pi \<open>i < MAX_PROCESSES\<close> by (simp add: params_inv_def)
  qed
  moreover have "\<forall>i < MAX_PROCESSES. p_state (table (run_next c s) i) = PROCESS_STATE_RUNNING \<longrightarrow> i = n"
  proof (intro allI impI)
    fix i assume i: "i < MAX_PROCESSES" "p_state (table (run_next c s) i) = PROCESS_STATE_RUNNING"
    show "i = n"
    proof (rule ccontr)
      assume "i \<noteq> n"
      then have "p_state (table s i) = PROCESS_STATE_RUNNING" "\<not> (i = c \<and> n \<noteq> c)"
        using i(2) unfolding ps [of i] by (auto split: if_splits)
      then show False using one i(1) \<open>i \<noteq> n\<close> by auto
    qed
  qed
  moreover have "p_state (table (run_next c s) n) \<noteq> PROCESS_STATE_FREE"
    using k(2) by (auto simp: runnable_def ps)
  moreover have "runnable (table (run_next c s) d)"
    using d(4) by (auto simp: runnable_def ps)
  ultimately have "run_inv (run_next c s)"
    unfolding run_inv_def r(3,4) y(1) r(2) [OF assms(2)] using k(1) d(1-3) st by blast
  then show ?thesis using that [OF n _ r(2) [OF assms(2)] k] ps [of n] by simp
qed

lemma guard_run_inv:
  assumes "run_inv s" and "current s = Some c" and "idle_proc s = Some c \<Longrightarrow> stack_pointer_ok (cpu_esp s) (stack_base (table s c))"
  shows "run_inv (guard_current c s)"
proof -
  obtain d where d: "d < MAX_PROCESSES" "idle_proc s = Some d" "is_system (table s d)" "runnable (table s d)"
    using assms(1) by (auto simp: run_inv_def)
  have "runnable (table (guard_current c s) d)"
    using d assms(3) by (auto simp: runnable_def guard_keeps)
  moreover have "params_inv (guard_current c s)"
    using assms(1,2) d by (auto simp: run_inv_def params_inv_def guard_keeps split: if_splits)
  ultimately show ?thesis using assms(1,2) d by (auto simp: run_inv_def guard_keeps split: if_splits)
qed

text \<open>C5: a switch is complete and consistent: after \<open>scheduler_yield\<close> exactly the process on the CPU can
  be in the state RUNNING, a process that can run has the CPU, with the stack pointer it left with,
  and the one that had it keeps its own; a process whose stack pointer left its stack never gets the
  CPU again. Only a process that was already READY when it yielded and is chosen again keeps that
  state. The idle task makes sure there is always a choice.\<close>

theorem yield_switches:
  assumes "run_inv s" and "current s = Some c" and "idle_proc s = Some c \<Longrightarrow> stack_pointer_ok (cpu_esp s) (stack_base (table s c))"
  shows "run_inv (scheduler_yield s) \<and>
    (\<exists>n. current (scheduler_yield s) = Some n \<and> runnable (table (scheduler_yield s) n) \<and>
       (p_state (table s c) = PROCESS_STATE_READY \<or> p_state (table (scheduler_yield s) n) = PROCESS_STATE_RUNNING) \<and>
       (n = c \<or> (cpu_esp (scheduler_yield s) = p_esp (table s n) \<and> p_esp (table (scheduler_yield s) c) = cpu_esp s)) \<and>
       (stack_pointer_ok (cpu_esp s) (stack_base (table s c)) \<or>
          (n \<noteq> c \<and> p_state (table (scheduler_yield s) c) = PROCESS_STATE_ZOMBIE)))"
proof -
  let ?g = "guard_current c s"
  have st: "started s" using assms(1) by (auto simp: run_inv_def)
  then have y: "scheduler_yield s = run_next c ?g" by (simp add: scheduler_yield_def assms(2))
  have cg: "current ?g = Some c" by (simp add: assms(2))
  obtain n where n: "fst (choose_process (Some c) ?g) = Some n" "run_inv (run_next c ?g)" "current (run_next c ?g) = Some n"
    "n < MAX_PROCESSES" "runnable (table ?g n)"
    "p_state (table (run_next c ?g) n) = (if n = c then p_state (table ?g c) else PROCESS_STATE_RUNNING)"
    using run_next_inv [OF guard_run_inv [OF assms] cg] by metis
  note r = run_next_result [OF n(1)]
  have "n = c \<Longrightarrow> stack_pointer_ok (cpu_esp s) (stack_base (table s c))"
    using n(5) by (auto simp: runnable_def guard_keeps split: if_splits)
  moreover have "n \<noteq> c \<Longrightarrow> p_state (table ?g c) = PROCESS_STATE_ZOMBIE \<Longrightarrow> p_state (table (run_next c ?g) c) = PROCESS_STATE_ZOMBIE"
    using yielded_keeps(3) [OF r(1), of c] by (simp add: yielded_def)
  moreover have "p_state (table ?g c) = (if stack_pointer_ok (cpu_esp s) (stack_base (table s c)) then p_state (table s c)
      else PROCESS_STATE_ZOMBIE)" by (simp add: guard_keeps)
  moreover have "runnable (table (run_next c ?g) n)"
    using n(5,6) by (auto simp: runnable_def)
  ultimately show ?thesis
    unfolding y using n(2,3,5,6) r(5,6) by (intro conjI exI [of _ n]) (auto simp: runnable_def split: if_splits)
qed

section \<open>An example\<close>

definition zero_info :: k_siginfo_t where
  "zero_info = \<lparr>si_signo = 0, si_error = 0, si_code = 0, si_pid = 0, si_uid = 0, si_value = 0\<rparr>"

definition small_tasks :: tasks where
  "small_tasks = sched.extend (small_sched\<lparr>table := (table small_sched)(0 := (table small_sched 0)\<lparr>is_system := True\<rparr>)\<rparr>)
     (tasks.fields (\<lambda>_ _. zero_range) (\<lambda>_. zero_usage) 0 0)"

definition small_sigs :: sigs where
  "small_sigs = tasks.extend small_tasks
     (sigs.fields (\<lambda>_. \<lparr>q_used = False, q_target = 0, q_order = 0, q_info = zero_info\<rparr>) 0 0)"

lemma small_sigs_fields [simp]:
  "table small_sigs = (table small_sched)(0 := (table small_sched 0)\<lparr>is_system := True\<rparr>)"
  "current small_sigs = Some 1" "started small_sigs" "idle_proc small_sigs = Some 0" "sig_order small_sigs = 0"
  "pool small_sigs = (\<lambda>_. \<lparr>q_used = False, q_target = 0, q_order = 0, q_info = zero_info\<rparr>)"
  by (simp_all add: small_sigs_def small_tasks_def small_sched_def umem.defs sched.defs tasks.defs sigs.defs)

lemma params_ok_system [simp]: "params_ok (p\<lparr>is_system := b\<rparr>) = params_ok p"
  by (simp add: params_ok_def)

lemma small_sigs_run: "run_inv small_sigs"
  using example_proc_ok
  by (auto simp: run_inv_def params_inv_def runnable_def MAX_PROCESSES_def)

theorem yield_switches_witness: "run_inv small_sigs \<and> run_inv (scheduler_yield small_sigs)"
  using yield_switches [OF small_sigs_run, of 1] small_sigs_run by simp

end
