(* ===== verification/Signal_Queue.thy ===== *)
theory Signal_Queue
  imports Switch
begin

text \<open>
  The pool of queued signals (process_management/core/signal/sigqueue.c) is a store of first-in first-out
  queues, one per process and signal: every value that \<open>sigqueue_add\<close> accepted comes out of
  \<open>sigqueue_take\<close> once, in the order it was queued, however the queues of other processes and signals are
  used in between. The stamps that keep the order are 32-bit numbers; the statement is about runs that
  do not use them up.
\<close>

definition queued_indices :: "u32 \<times> int \<Rightarrow> 'a sigs_scheme \<Rightarrow> nat list" where
  "queued_indices k s = filter (\<lambda>i. queued_for (fst k) (snd k) (pool s i)) [0..<SIGQUEUE_SIZE]"

definition sig_view :: "u32 \<times> int \<Rightarrow> 'a sigs_scheme \<Rightarrow> k_siginfo_t list" where
  "sig_view k s = map (\<lambda>i. q_info (pool s i)) (sort_key (\<lambda>i. q_order (pool s i)) (queued_indices k s))"

definition pool_inv :: "nat \<Rightarrow> 'a sigs_scheme \<Rightarrow> bool" where
  "pool_inv m s \<longleftrightarrow> unat (sig_order s) + m < 2 ^ 32 \<and>
     (\<forall>i < SIGQUEUE_SIZE. q_used (pool s i) \<longrightarrow> q_order (pool s i) < sig_order s) \<and>
     inj_on (\<lambda>i. q_order (pool s i)) {i. i < SIGQUEUE_SIZE \<and> q_used (pool s i)}"

definition sig_put :: "u32 \<times> int \<Rightarrow> k_siginfo_t \<Rightarrow> 'a sigs_scheme \<Rightarrow> bool \<times> 'a sigs_scheme" where
  "sig_put k info s = sigqueue_add (fst k) info s"

definition sig_get :: "u32 \<times> int \<Rightarrow> 'a sigs_scheme \<Rightarrow> k_siginfo_t option \<times> 'a sigs_scheme" where
  "sig_get k s = sigqueue_take (fst k) (snd k) s"

definition for_signal :: "u32 \<times> int \<Rightarrow> k_siginfo_t \<Rightarrow> bool" where
  "for_signal k info \<longleftrightarrow> si_signo info = snd k"

lemma queued_indices_simps [simp]:
  "set (queued_indices k s) = {i. i < SIGQUEUE_SIZE \<and> queued_for (fst k) (snd k) (pool s i)}"
  "distinct (queued_indices k s)"
  by (auto simp: queued_indices_def)

lemma queued_used: "queued_for n sig e \<Longrightarrow> q_used e"
  by (simp add: queued_for_def)

lemma pool_inv_inj: "pool_inv m s \<Longrightarrow> inj_on (\<lambda>i. q_order (pool s i)) (set (queued_indices k s))"
  unfolding pool_inv_def by (auto elim!: inj_on_subset dest: queued_used)

lemma sig_view_cong:
  assumes "queued_indices k t = queued_indices k s" and "\<forall>i \<in> set (queued_indices k s). pool t i = pool s i"
  shows "sig_view k t = sig_view k s"
  unfolding sig_view_def assms(1)
  using assms(2) sort_key_cong [of "queued_indices k s" "\<lambda>i. q_order (pool t i)" "\<lambda>i. q_order (pool s i)"]
  by (auto intro!: map_cong)

lemma sigqueue_add_cases:
  assumes "sigqueue_add n info s = (b, s')"
  obtains (refused) "\<not> b" "pool s' = pool s" "sig_order s' = sig_order s"
    | (queued) i where "b" "i < SIGQUEUE_SIZE" "\<not> q_used (pool s i)" "sig_order s' = sig_order s + 1"
      "pool s' = (pool s)(i := \<lparr>q_used = True, q_target = n, q_order = sig_order s, q_info = info\<rparr>)"
proof -
  define lim where "lim = (case current_process s of None \<Rightarrow> RLIM_INFINITY | Some c \<Rightarrow> rlim_cur c (nat RLIMIT_SIGPENDING))"
  obtain ok s1 where d: "def_sigqueue_allowed (sigqueue_count_user (si_uid info) s) lim s = (ok, s1)" by fastforce
  have s1: "pool s1 = pool s" "sig_order s1 = sig_order s"
    using d by (auto simp: def_sigqueue_allowed_def split: if_splits)
  have e: "sigqueue_add n info s =
      (if \<not> ok then (False, s1)
       else case find (\<lambda>i. \<not> q_used (pool s1 i)) [0..<SIGQUEUE_SIZE] of
         None \<Rightarrow> (False, s1)
       | Some i \<Rightarrow> (True, s1\<lparr>pool := (pool s1)(i := \<lparr>q_used = True, q_target = n, q_order = sig_order s1, q_info = info\<rparr>),
                            sig_order := sig_order s1 + 1\<rparr>))"
    unfolding sigqueue_add_def Let_def lim_def [symmetric] d by simp
  show thesis
  proof (cases "ok \<and> find (\<lambda>i. \<not> q_used (pool s1 i)) [0..<SIGQUEUE_SIZE] \<noteq> None")
    case True
    then obtain i where i: "find (\<lambda>i. \<not> q_used (pool s1 i)) [0..<SIGQUEUE_SIZE] = Some i" by blast
    then have "i < SIGQUEUE_SIZE" "\<not> q_used (pool s i)" by (auto simp: find_Some_iff s1)
    then show thesis using queued [of i] assms e True i by (auto simp: s1)
  next
    case False
    then have "\<not> b" "s' = s1" using assms e by (auto split: if_splits option.splits)
    then show thesis using refused s1 by simp
  qed
qed

lemma put_law_sig:
  assumes "pool_inv (Suc m) s" and "for_signal k info" and "sig_put k info s = (b, s')"
  shows "pool_inv m s' \<and> (\<forall>j. sig_view j s' = (if b \<and> j = k then sig_view j s @ [info] else sig_view j s))"
  using assms(3) [unfolded sig_put_def]
proof (cases rule: sigqueue_add_cases)
  case refused
  then have "sig_view j s' = sig_view j s" for j by (intro sig_view_cong) (simp_all add: queued_indices_def)
  then show ?thesis using refused assms(1) by (simp add: pool_inv_def)
next
  case (queued i)
  let ?e = "\<lparr>q_used = True, q_target = fst k, q_order = sig_order s, q_info = info\<rparr>"
  have lt: "q_order (pool s j) < sig_order s" if "j < SIGQUEUE_SIZE" "q_used (pool s j)" for j
    using assms(1) that by (simp add: pool_inv_def)
  have "unat (sig_order s) + 1 < 2 ^ 32" using assms(1) by (simp add: pool_inv_def)
  then have up: "unat (sig_order s + 1) = unat (sig_order s) + 1" by (simp add: unat_add_u32)
  define X where "X = {j. j < SIGQUEUE_SIZE \<and> q_used (pool s j)}"
  have X: "{j. j < SIGQUEUE_SIZE \<and> q_used (pool s' j)} = insert i X" "i \<notin> X"
    using queued(2,3) by (auto simp: queued(5) X_def)
  have same: "q_order (pool s' j) = q_order (pool s j)" "q_order (pool s j) < sig_order s" if "j \<in> X" for j
    using that lt queued(3) by (auto simp: queued(5) X_def)
  have "inj_on (\<lambda>j. q_order (pool s j)) X" using assms(1) by (simp add: pool_inv_def X_def)
  then have "inj_on (\<lambda>j. q_order (pool s' j)) X" using same(1) by (simp cong: inj_on_cong)
  moreover have "q_order (pool s' i) \<notin> (\<lambda>j. q_order (pool s' j)) ` X"
  proof
    assume "q_order (pool s' i) \<in> (\<lambda>j. q_order (pool s' j)) ` X"
    then obtain j where j: "j \<in> X" "q_order (pool s' i) = q_order (pool s' j)" by blast
    then show False using same [OF j(1)] by (simp add: queued(5) split: if_splits)
  qed
  ultimately have "inj_on (\<lambda>j. q_order (pool s' j)) {j. j < SIGQUEUE_SIZE \<and> q_used (pool s' j)}"
    unfolding X(1) using X(2) by simp
  moreover have "q_order (pool s' j) < sig_order s'" if "j < SIGQUEUE_SIZE" "q_used (pool s' j)" for j
    using lt that up by (auto simp: queued(4,5) word_less_nat_alt intro: less_trans split: if_splits)
  ultimately have inv: "pool_inv m s'"
    using assms(1) up by (simp add: pool_inv_def queued(4))
  have k: "queued_for (fst j) (snd j) ?e \<longleftrightarrow> j = k" for j
    using assms(2) by (cases j; cases k) (auto simp: queued_for_def for_signal_def)
  have other: "sig_view j s' = sig_view j s" if "j \<noteq> k" for j
  proof (rule sig_view_cong)
    show "queued_indices j s' = queued_indices j s"
      unfolding queued_indices_def by (rule filter_cong) (use that k queued(3) in \<open>auto simp: queued(5) dest: queued_used\<close>)
    show "\<forall>l \<in> set (queued_indices j s). pool s' l = pool s l"
      using queued(3) by (auto simp: queued(5) dest: queued_used)
  qed
  have "sort_key (\<lambda>l. q_order (pool s' l)) (queued_indices k s') = sort_key (\<lambda>l. q_order (pool s l)) (queued_indices k s) @ [i]"
    using queued(2,3) lt k [of k] pool_inv_inj [OF assms(1), of k]
    by (intro sort_key_snoc) (auto simp: queued(5) dest: queued_used)
  then have "sig_view k s' = sig_view k s @ [info]"
    using queued(3) by (auto simp: sig_view_def queued(5) dest: queued_used)
  then show ?thesis using inv other queued(1) by simp
qed

lemma get_law_sig:
  assumes "pool_inv (Suc m) s" and "sig_get k s = (r, s')"
  shows "pool_inv m s' \<and> (case r of None \<Rightarrow> sig_view k s = [] | Some v \<Rightarrow> sig_view k s = v # sig_view k s') \<and>
    (\<forall>j. (r = None \<or> j \<noteq> k) \<longrightarrow> sig_view j s' = sig_view j s)"
proof (cases "fold (older_of (fst k) (snd k) (pool s)) [0..<SIGQUEUE_SIZE] None")
  case None
  then have "s' = s" "r = None" using assms(2) by (auto simp: sig_get_def sigqueue_take_def)
  moreover have "queued_indices k s = []"
    using sq.fold_None [OF None] by (auto simp: queued_indices_def filter_empty_conv)
  ultimately show ?thesis using assms(1) by (simp add: sig_view_def pool_inv_def)
next
  case (Some i)
  then have p: "pool s' = (pool s)(i := (pool s i)\<lparr>q_used := False\<rparr>)" "sig_order s' = sig_order s" "r = Some (q_info (pool s i))"
    using assms(2) by (auto simp: sig_get_def sigqueue_take_def)
  note f = sq.fold_Some [OF Some]
  have i: "i < SIGQUEUE_SIZE" "queued_for (fst k) (snd k) (pool s i)" using f(1,2) by auto
  have "inj_on (\<lambda>j. q_order (pool s' j)) {j. j < SIGQUEUE_SIZE \<and> q_used (pool s' j)}"
    using assms(1) by (auto simp: pool_inv_def p(1) inj_on_def split: if_splits)
  then have inv: "pool_inv m s'"
    using assms(1) by (auto simp: pool_inv_def p split: if_splits)
  have nq: "\<not> queued_for n g (pool s' i)" for n g by (simp add: queued_for_def p(1))
  have other: "sig_view j s' = sig_view j s" if "j \<noteq> k" for j
  proof (rule sig_view_cong)
    have "\<not> queued_for (fst j) (snd j) (pool s i)"
      using i(2) that by (cases j; cases k) (auto simp: queued_for_def)
    then show "queued_indices j s' = queued_indices j s" "\<forall>l \<in> set (queued_indices j s). pool s' l = pool s l"
      using nq by (auto simp: queued_indices_def p(1) intro: filter_cong)
  qed
  have "sort_key (\<lambda>l. q_order (pool s l)) (queued_indices k s) = i # sort_key (\<lambda>l. q_order (pool s' l)) (queued_indices k s')"
    using i f(3) nq pool_inv_inj [OF assms(1), of k]
    by (intro sort_key_Cons) (auto simp: p(1) split: if_splits)
  then have "sig_view k s = q_info (pool s i) # sig_view k s'"
    by (simp add: sig_view_def p(1))
  then show ?thesis using inv other p(3) by simp
qed

interpretation sf: keyed_fifo sig_put sig_get sig_view pool_inv for_signal
  by unfold_locales (rule put_law_sig get_law_sig; assumption)+

text \<open>C9: queued signals keep their order: in any run of \<open>sigqueue_add\<close> and \<open>sigqueue_take\<close> on any
  processes and signals, what was taken for one of them, followed by what is still queued for it, is
  what was queued at the start followed by what was accepted, in that order; no value is lost,
  duplicated or given to another process or signal. (For runs shorter than what is left of the 32-bit
  stamps.)\<close>

theorem sigqueue_fifo:
  assumes "pool_inv (length ops) s" and "list_all (sf.op_ok) ops" and "sf.qrun ops s = (ins, outs, t)"
  shows "sf.of_key k outs @ sig_view k t = sig_view k s @ sf.of_key k ins"
  using sf.qrun_fifo [of ops 0 s ins outs t k] assms by simp

definition queue_example :: "(u32 \<times> int, k_siginfo_t) qop list" where
  "queue_example =
     [Put (5, 10) (zero_info\<lparr>si_signo := 10, si_value := 7\<rparr>), Put (5, 10) (zero_info\<lparr>si_signo := 10, si_value := 8\<rparr>),
      Get (5, 10)]"

theorem sigqueue_fifo_witness:
  "case sf.qrun queue_example small_sigs of (ins, outs, t) \<Rightarrow>
     sf.of_key (5, 10) outs @ sig_view (5, 10) t = sig_view (5, 10) small_sigs @ sf.of_key (5, 10) ins"
proof -
  obtain ins outs t where q: "sf.qrun queue_example small_sigs = (ins, outs, t)" by (metis prod_cases3)
  have "pool_inv (length queue_example) small_sigs" by (simp add: pool_inv_def queue_example_def)
  moreover have "list_all sf.op_ok queue_example" by (simp add: queue_example_def for_signal_def)
  ultimately have "sf.of_key (5, 10) outs @ sig_view (5, 10) t = sig_view (5, 10) small_sigs @ sf.of_key (5, 10) ins"
    using sigqueue_fifo q by blast
  then show ?thesis by (simp add: q)
qed

end
