(* ===== verification/Process.thy ===== *)
theory Process
  imports Switch
begin

text \<open>
  Processes: creation, killing, exit and what their end does to relatives
  (process_management/core/process/process.c), the log of exit records that wait reads
  (core/exitlog/exitlog.c), the defences pid_bounds, slot_quota, kill_guard, pcb_generation, name_guard,
  child_only and session_check, and the system calls kill, tkill, tgkill, wait4, setpgid, setsid, sleep
  and exit.

  \<open>process_start\<close> and the entry points of processes are addresses the linker gives. A process that has
  exited never runs again, so \<open>process_exit_with\<close> ends with the switch. Messages on the screen are not
  modelled.

  The lemmas show that PIDs are never reused, that no user can hold more than its quota of slots or
  kill what it does not own, and that a child is reported once and in the order the children ended.
\<close>

section \<open>The state\<close>

record exit_record_t =
  x_pid :: u32
  x_ppid :: u32
  x_pgid :: u32
  x_uid :: u32
  x_status :: int
  x_user_ticks :: u32
  x_kernel_ticks :: u32
  x_nvcsw :: u32
  x_nivcsw :: u32

record exit_entry =
  e_used :: bool
  e_order :: u32
  e_r :: exit_record_t

record procs = sigs +
  next_pid :: u32
  generations :: "nat \<Rightarrow> u32"
  process_start :: u32
  exits :: "nat \<Rightarrow> exit_entry"
  exit_order :: u32

definition EXITLOG_SIZE :: nat where "EXITLOG_SIZE = 32"

section \<open>Defences\<close>

definition PID_LIMIT :: u32 where "PID_LIMIT = 0xFFFFFF00"

definition pid_in_range :: "u32 \<Rightarrow> bool" where
  "pid_in_range n \<longleftrightarrow> n \<noteq> 0 \<and> n < PID_LIMIT"

definition def_pid_bounds_check :: "u32 \<Rightarrow> 'a audit_scheme \<Rightarrow> bool \<times> 'a audit_scheme" where
  "def_pid_bounds_check n s =
     (if pid_in_range n then (True, s)
      else (False, audit_log ''pid_bounds'' ''PID 0, out of range, or PID space used up'' s))"

definition MAX_PER_USER :: int where "MAX_PER_USER = 8"
definition RESERVED_FOR_ROOT :: int where "RESERVED_FOR_ROOT = 5"

definition process_count_free_slots :: "'a kernel_scheme \<Rightarrow> int" where
  "process_count_free_slots s =
     int (length (filter (\<lambda>i. p_state (table s i) = PROCESS_STATE_FREE) [0..<MAX_PROCESSES]))"

definition count_owned_by :: "u32 \<Rightarrow> 'a kernel_scheme \<Rightarrow> int" where
  "count_owned_by u s =
     int (length (filter (\<lambda>i. p_state (table s i) \<noteq> PROCESS_STATE_FREE \<and> uid (table s i) = u) [0..<MAX_PROCESSES]))"

definition quota_allows :: "int \<Rightarrow> int \<Rightarrow> u32 \<Rightarrow> bool" where
  "quota_allows free_slots own u =
     (if caps_has u CAP_RESOURCE then True else if own \<ge> MAX_PER_USER then False else free_slots > RESERVED_FOR_ROOT)"

definition def_slot_quota_check :: "u32 \<Rightarrow> 'a audit_scheme \<Rightarrow> bool \<times> 'a audit_scheme" where
  "def_slot_quota_check u s =
     (if quota_allows (process_count_free_slots s) (count_owned_by u s) u then (True, s)
      else (False, audit_log ''slot_quota'' ''process creation refused: user quota or root reserve'' s))"

definition kill_allows :: "bool \<Rightarrow> bool \<Rightarrow> u32 \<Rightarrow> u32 \<Rightarrow> bool" where
  "kill_allows target_exists target_is_system caller_uid target_uid =
     (if \<not> target_exists then False else if target_is_system then False
      else if caps_has caller_uid CAP_KILL then True else caller_uid = target_uid)"

definition def_kill_allowed ::
    "process_t option \<Rightarrow> process_t option \<Rightarrow> 'a audit_scheme \<Rightarrow> bool \<times> 'a audit_scheme" where
  "def_kill_allowed caller target s =
     (if kill_allows (target \<noteq> None) (case target of None \<Rightarrow> False | Some t \<Rightarrow> is_system t) (uid_of caller) (uid_of target)
      then (True, s)
      else (False, audit_log ''kill_guard''
             (if target \<noteq> None then ''kill refused: system process or not yours'' else ''kill refused: no such process'') s))"

text \<open>A reference to a process that can be checked later: the slot, and who lived there.\<close>

record pcb_ref_t =
  ref_slot :: "nat option"
  ref_pid :: u32
  ref_generation :: u32

definition def_pcb_ref :: "nat option \<Rightarrow> 'a kernel_scheme \<Rightarrow> pcb_ref_t" where
  "def_pcb_ref i s =
     \<lparr>ref_slot = i, ref_pid = (case i of None \<Rightarrow> 0 | Some j \<Rightarrow> pid (table s j)),
      ref_generation = (case i of None \<Rightarrow> 0 | Some j \<Rightarrow> generation (table s j))\<rparr>"

definition check_ref :: "process_t option \<Rightarrow> u32 \<Rightarrow> u32 \<Rightarrow> int" where
  "check_ref slot n g =
     (case slot of
        None \<Rightarrow> 0
      | Some p \<Rightarrow> if p_state p = PROCESS_STATE_FREE then 0 else if pid p \<noteq> n \<or> generation p \<noteq> g then -1 else 1)"

definition def_pcb_ref_get :: "pcb_ref_t \<Rightarrow> 'a audit_scheme \<Rightarrow> nat option \<times> 'a audit_scheme" where
  "def_pcb_ref_get ref s =
     (let r = check_ref (map_option (table s) (ref_slot ref)) (ref_pid ref) (ref_generation ref);
          s1 = (if r < 0 then audit_log ''pcb_generation'' ''stale process reference refused: the slot has a new owner'' s else s)
      in (if r > 0 then ref_slot ref else None, s1))"

definition name_refusal :: "string \<Rightarrow> bool \<Rightarrow> string list \<Rightarrow> string option" where
  "name_refusal name caller_is_system system_names =
     (if name = [] then Some ''empty process name''
      else if list_ex (\<lambda>c. (of_char c :: nat) < 0x20 \<or> of_char c > (0x7E :: nat)) name
      then Some ''process name with control characters''
      else if \<not> caller_is_system \<and> list_ex (\<lambda>n. strcmp name n = 0) system_names
      then Some ''process name copies a system process''
      else None)"

definition def_name_ok :: "process_t \<Rightarrow> string \<Rightarrow> 'a audit_scheme \<Rightarrow> bool \<times> 'a audit_scheme" where
  "def_name_ok p name s =
     (let names = map (\<lambda>i. p_name (table s i))
                    (filter (\<lambda>i. is_system (table s i) \<and> p_state (table s i) \<noteq> PROCESS_STATE_FREE) [0..<MAX_PROCESSES])
      in case name_refusal name (is_system p) names of
           None \<Rightarrow> (True, s)
         | Some why \<Rightarrow> (False, audit_log ''name_guard'' why s))"

definition wait_allowed :: "u32 \<Rightarrow> u32 \<Rightarrow> bool" where
  "wait_allowed caller_pid parent_pid \<longleftrightarrow> caller_pid \<noteq> 0 \<and> caller_pid = parent_pid"

definition def_wait_allowed :: "process_t option \<Rightarrow> u32 \<Rightarrow> 'a audit_scheme \<Rightarrow> bool \<times> 'a audit_scheme" where
  "def_wait_allowed caller parent_pid s =
     (if (case caller of None \<Rightarrow> False | Some c \<Rightarrow> wait_allowed (pid c) parent_pid) then (True, s)
      else (False, audit_log ''child_only'' ''wait refused: not the caller's child'' s))"

definition setpgid_refusal :: "u32 \<Rightarrow> u32 \<Rightarrow> u32 \<Rightarrow> u32 \<Rightarrow> u32 \<Rightarrow> u32 \<Rightarrow> bool \<Rightarrow> string option" where
  "setpgid_refusal caller_pid caller_sid target_pid target_ppid target_sid pg group_in_session =
     (if target_pid \<noteq> caller_pid \<and> target_ppid \<noteq> caller_pid then Some ''setpgid: not yourself or your child''
      else if target_sid \<noteq> caller_sid then Some ''setpgid: the process is in another session''
      else if target_sid = target_pid then Some ''setpgid: a session leader cannot change group''
      else if pg \<noteq> target_pid \<and> \<not> group_in_session then Some ''setpgid: no such group in this session''
      else None)"

definition group_exists :: "u32 \<Rightarrow> u32 \<Rightarrow> 'a kernel_scheme \<Rightarrow> bool" where
  "group_exists pg se s =
     list_ex (\<lambda>i. p_state (table s i) \<noteq> PROCESS_STATE_FREE \<and> p_state (table s i) \<noteq> PROCESS_STATE_ZOMBIE \<and>
       pgid (table s i) = pg \<and> sid (table s i) = se) [0..<MAX_PROCESSES]"

definition def_setpgid_ok :: "process_t option \<Rightarrow> process_t option \<Rightarrow> u32 \<Rightarrow> 'a audit_scheme \<Rightarrow> bool \<times> 'a audit_scheme" where
  "def_setpgid_ok caller target pg s =
     (case (case (caller, target) of
              (Some c, Some t) \<Rightarrow> setpgid_refusal (pid c) (sid c) (pid t) (ppid t) (sid t) pg (group_exists pg (sid t) s)
            | _ \<Rightarrow> Some ''setpgid: no such process'') of
        None \<Rightarrow> (True, s)
      | Some why \<Rightarrow> (False, audit_log ''session_check'' why s))"

definition def_setsid_ok :: "process_t option \<Rightarrow> 'a audit_scheme \<Rightarrow> bool \<times> 'a audit_scheme" where
  "def_setsid_ok caller s =
     (if (case caller of None \<Rightarrow> False | Some c \<Rightarrow> pgid c \<noteq> pid c) then (True, s)
      else (False, audit_log ''session_check'' ''setsid: a group leader cannot start a new session'' s))"

section \<open>Creation\<close>

definition process_init :: "'a kernel_scheme \<Rightarrow> 'a kernel_scheme" where
  "process_init s = s\<lparr>table := (\<lambda>i. if i < MAX_PROCESSES then def_pcb_wipe else table s i)\<rparr>"

definition find_free_slot :: "'a kernel_scheme \<Rightarrow> nat option" where
  "find_free_slot s = find (\<lambda>i. p_state (table s i) = PROCESS_STATE_FREE) [0..<MAX_PROCESSES]"

definition EFLAGS_IF :: u32 where "EFLAGS_IF = 0x200"
definition EFLAGS_RESERVED :: u32 where "EFLAGS_RESERVED = 2"

text \<open>The words of a stack in the kernel heap: cleared, and then what \<open>switch_task\<close> will pop.\<close>

definition clear_stack :: "u32 \<Rightarrow> words \<Rightarrow> words" where
  "clear_stack base h = (\<lambda>a. if a - base < PROCESS_STACK_SIZE then 0 else h a)"

definition scheduler_prepare_stack :: "u32 \<Rightarrow> u32 \<Rightarrow> words \<Rightarrow> u32 \<times> words" where
  "scheduler_prepare_stack stack_top start h =
     (stack_top - 24,
      h(stack_top - 4 := start, stack_top - 8 := EFLAGS_IF OR EFLAGS_RESERVED, stack_top - 12 := 0,
        stack_top - 16 := 0, stack_top - 20 := 0, stack_top - 24 := 0))"

text \<open>What a new PCB gets from its creator, besides what \<open>cpu_task_fork\<close> copies.\<close>

definition inherit :: "process_t option \<Rightarrow> process_t \<Rightarrow> process_t" where
  "inherit creator p =
     (let p = p\<lparr>pgid := (case creator of None \<Rightarrow> pid p | Some c \<Rightarrow> pgid c),
                sid := (case creator of None \<Rightarrow> pid p | Some c \<Rightarrow> sid c),
                sig_blocked := (case creator of None \<Rightarrow> 0 | Some c \<Rightarrow> sig_blocked c),
                sig_handler := (case creator of None \<Rightarrow> sig_handler p
                  | Some c \<Rightarrow> (\<lambda>g. if 1 \<le> g \<and> g < SIGNAL_COUNT \<and> sig_handler c g = SIG_IGN then SIG_IGN else sig_handler p g)),
                dumpable := True,
                p_umask := (case creator of None \<Rightarrow> 2 | Some c \<Rightarrow> p_umask c),
                no_new_privs := (case creator of None \<Rightarrow> False | Some c \<Rightarrow> no_new_privs c),
                p_strace := (case creator of None \<Rightarrow> False | Some c \<Rightarrow> p_strace c)\<rparr>
      in case creator of
           None \<Rightarrow> p
         | Some c \<Rightarrow> if seccomp_mode c \<noteq> 0
             then p\<lparr>seccomp_mode := seccomp_mode c, seccomp_action := seccomp_action c,
                    seccomp_allow := (\<lambda>i. if i < 4 then seccomp_allow c i else seccomp_allow p i)\<rparr>
             else p)"

text \<open>The slot is chosen and wiped, its stack allocated; \<^const>\<open>None\<close> is one of the early returns.\<close>

definition claim_slot :: "u32 \<Rightarrow> nat \<Rightarrow> 'a procs_scheme \<Rightarrow> bool \<times> 'a procs_scheme" where
  "claim_slot entry i s =
     (let s1 = upd_proc i (\<lambda>_. def_pcb_wipe) s
      in if entry = 0 then (True, s1)
         else case kmalloc PROCESS_STACK_SIZE s1 of (base, s2) \<Rightarrow>
           if base = 0 then (False, s2)
           else let (esp, h) = scheduler_prepare_stack (base + PROCESS_STACK_SIZE) (process_start s2)
                                 (clear_stack base (heap s2))
                in (True, upd_proc i (\<lambda>p. p\<lparr>stack_base := base, p_esp := esp\<rparr>) (s2\<lparr>heap := h\<rparr>)))"

definition fill_slot :: "string option \<Rightarrow> u32 \<Rightarrow> u32 \<Rightarrow> nat \<Rightarrow> 'a procs_scheme \<Rightarrow> 'a procs_scheme" where
  "fill_slot name entry u i s =
     (let n = next_pid s; g = generations s i + 1;
          s1 = s\<lparr>next_pid := n + 1, generations := (generations s)(i := g)\<rparr>;
          s2 = upd_proc i (\<lambda>p. p\<lparr>pid := n, generation := g, uid := u, p_entry := entry,
                 p_name := cstring (strncpy (replicate PROCESS_NAME_LEN (CHR 0x00))
                   (case name of None \<Rightarrow> ''?'' | Some t \<Rightarrow> t) (PROCESS_NAME_LEN - 1))\<rparr>) s1;
          s3 = cpu_task_fork i (current s) s2;
          s4 = upd_proc i (inherit (current_process s3)) s3
      in upd_proc i (\<lambda>p. p\<lparr>p_state := PROCESS_STATE_READY\<rparr>) s4)"

definition process_create :: "string option \<Rightarrow> u32 \<Rightarrow> u32 \<Rightarrow> 'a procs_scheme \<Rightarrow> u32 option \<times> 'a procs_scheme" where
  "process_create name entry u s =
     (case def_pid_bounds_check (next_pid s) s of (ok, s1) \<Rightarrow>
        if \<not> ok then (None, s1)
        else case def_slot_quota_check u s1 of (ok, s2) \<Rightarrow>
          if \<not> ok then (None, s2)
          else if \<not> rlimit_nproc_ok (current_process s2) u s2 then (None, s2)
          else case find_free_slot s2 of
                 None \<Rightarrow> (None, s2)
               | Some i \<Rightarrow>
                   (case claim_slot entry i s2 of (ok, s3) \<Rightarrow>
                      if \<not> ok then (None, s3)
                      else let s4 = fill_slot name entry u i s3 in (Some (pid (table s4 i)), s4)))"

definition mark_system :: "u32 option \<Rightarrow> 'a kernel_scheme \<Rightarrow> nat option \<times> 'a kernel_scheme" where
  "mark_system n s =
     (case process_get_by_pid (case n of None \<Rightarrow> -1 | Some m \<Rightarrow> m) s of
        None \<Rightarrow> (None, s)
      | Some i \<Rightarrow> (Some i, upd_proc i (\<lambda>p. p\<lparr>is_system := True\<rparr>) s))"

text \<open>\<open>scheduler_init\<close>: the idle task and kernel_main. Should one of the two creations fail, the C code
  writes through a NULL pointer; that is the halted kernel.\<close>

definition scheduler_init :: "u32 \<Rightarrow> 'a procs_scheme \<Rightarrow> 'a procs_scheme" where
  "scheduler_init idle_task s =
     (case process_create (Some ''idle'') idle_task 0 (process_init s) of (n, s1) \<Rightarrow>
        case mark_system n s1 of
          (None, s2) \<Rightarrow> s2\<lparr>idle_proc := None, halted := True\<rparr>
        | (Some i, s2) \<Rightarrow>
            (case process_create (Some ''kernel_main'') 0 0
                    (upd_proc i (\<lambda>p. p\<lparr>p_priority := PRIORITY_IDLE\<rparr>) (s2\<lparr>idle_proc := Some i\<rparr>)) of (m, s3) \<Rightarrow>
               case mark_system m s3 of
                 (None, s4) \<Rightarrow> s4\<lparr>halted := True\<rparr>
               | (Some k, s4) \<Rightarrow>
                   priority_start_turn k (upd_proc k (\<lambda>p. p\<lparr>p_state := PROCESS_STATE_RUNNING\<rparr>) (s4\<lparr>current := Some k\<rparr>))))"

definition scheduler_start :: "'a sched_scheme \<Rightarrow> 'a sched_scheme" where
  "scheduler_start s = s\<lparr>started := True\<rparr>"

section \<open>The end of a process\<close>

fun ancestor :: "nat \<Rightarrow> nat option \<Rightarrow> 'a kernel_scheme \<Rightarrow> u32" where
  "ancestor 0 a s = 1"
| "ancestor (Suc depth) a s =
     (case a of
        None \<Rightarrow> 1
      | Some i \<Rightarrow>
          if child_subreaper (table s i) \<and> p_state (table s i) \<noteq> PROCESS_STATE_ZOMBIE then pid (table s i)
          else ancestor depth (if ppid (table s i) \<noteq> 0 then process_get_by_pid (ppid (table s i)) s else None) s)"

definition new_parent_for :: "nat \<Rightarrow> 'a kernel_scheme \<Rightarrow> u32" where
  "new_parent_for dead s = ancestor MAX_PROCESSES (process_get_by_pid (ppid (table s dead)) s) s"

definition adopt :: "nat \<Rightarrow> u32 \<Rightarrow> nat \<Rightarrow> 'a sigs_scheme \<Rightarrow> 'a sigs_scheme" where
  "adopt dead heir c s =
     (if p_state (table s c) = PROCESS_STATE_FREE \<or> c = dead \<or> ppid (table s c) \<noteq> pid (table s dead) then s
      else let s1 = upd_proc c (\<lambda>p. p\<lparr>ppid := heir\<rparr>) s
           in if pdeathsig (table s1 c) \<noteq> 0 \<and> p_state (table s1 c) \<noteq> PROCESS_STATE_ZOMBIE
              then signal_send_info c (pdeathsig (table s1 c)) SI_KERNEL s1 else s1)"

definition release_tracee :: "nat \<Rightarrow> nat \<Rightarrow> 'a sigs_scheme \<Rightarrow> 'a sigs_scheme" where
  "release_tracee dead c s =
     (if p_state (table s c) \<noteq> PROCESS_STATE_FREE \<and> tracer (table s c) = pid (table s dead)
      then signal_send_info c (int SIGCONT) SI_KERNEL (upd_proc c (\<lambda>p. p\<lparr>tracer := 0\<rparr>) s)
      else s)"

definition process_ended :: "nat \<Rightarrow> 'a sigs_scheme \<Rightarrow> 'a sigs_scheme" where
  "process_ended p s =
     (let heir = new_parent_for p s;
          s1 = fold (adopt p heir) [0..<MAX_PROCESSES] s;
          s2 = fold (release_tracee p) [0..<MAX_PROCESSES] s1
      in case process_get_by_pid (ppid (table s2 p)) s2 of
           None \<Rightarrow> s2
         | Some q \<Rightarrow> signal_send_info q (int SIGCHLD) SI_KERNEL s2)"

definition bury :: "nat \<Rightarrow> int \<Rightarrow> 'a sigs_scheme \<Rightarrow> 'a sigs_scheme" where
  "bury i status s =
     process_ended i (upd_proc i (\<lambda>p. p\<lparr>exit_status := status, p_state := PROCESS_STATE_ZOMBIE\<rparr>) s)"

definition process_exit_with :: "int \<Rightarrow> 'a sigs_scheme \<Rightarrow> 'a sigs_scheme" where
  "process_exit_with status s = (case current s of None \<Rightarrow> s | Some c \<Rightarrow> scheduler_yield (bury c status s))"

definition process_exit :: "'a sigs_scheme \<Rightarrow> 'a sigs_scheme" where
  "process_exit s = (case current s of None \<Rightarrow> s | Some c \<Rightarrow> process_exit_with (exit_status (table s c)) s)"

definition process_kill :: "u32 \<Rightarrow> 'a sigs_scheme \<Rightarrow> bool \<times> 'a sigs_scheme" where
  "process_kill n s =
     (case def_pid_bounds_check n s of (ok, s1) \<Rightarrow>
        if \<not> ok then (False, s1)
        else let target = process_get_by_pid n s1
             in case def_kill_allowed (current_process s1) (map_option (table s1) target) s1 of (ok, s2) \<Rightarrow>
                  if \<not> ok then (False, s2)
                  else if target = current s2 then (True, process_exit_with (int SIGKILL) s2)
                  else (True, bury (the target) (int SIGKILL) s2))"

definition hangup_one :: "u32 \<Rightarrow> nat option \<Rightarrow> nat \<Rightarrow> int \<times> 'a sigs_scheme \<Rightarrow> int \<times> 'a sigs_scheme" where
  "hangup_one se keep i acc =
     (case acc of (ended, s) \<Rightarrow>
        let p = table s i
        in if Some i = keep \<or> is_system p \<or> sid p \<noteq> se \<or> p_state p = PROCESS_STATE_FREE \<or>
              p_state p = PROCESS_STATE_ZOMBIE then (ended, s)
           else if sig_handler p SIGHUP = SIG_IGN then (ended, s)
           else if sig_handler p SIGHUP \<noteq> SIG_DFL then (ended, signal_send i (int SIGHUP) s)
           else (ended + 1, bury i (int SIGHUP) s))"

definition process_hangup :: "u32 \<Rightarrow> nat option \<Rightarrow> 'a sigs_scheme \<Rightarrow> int \<times> 'a sigs_scheme" where
  "process_hangup se keep s = fold (hangup_one se keep) [0..<MAX_PROCESSES] (0, s)"

section \<open>Exit records\<close>

definition pick_exit_slot :: "(nat \<Rightarrow> exit_entry) \<Rightarrow> nat" where
  "pick_exit_slot e =
     (case find (\<lambda>i. \<not> e_used (e i)) [0..<EXITLOG_SIZE] of
        Some i \<Rightarrow> i
      | None \<Rightarrow> fold (\<lambda>i slot. if e_order (e i) < e_order (e slot) then i else slot) [0..<EXITLOG_SIZE] 0)"

definition exit_record_of :: "process_t \<Rightarrow> exit_record_t" where
  "exit_record_of p =
     \<lparr>x_pid = pid p, x_ppid = ppid p, x_pgid = pgid p, x_uid = uid p, x_status = exit_status p,
      x_user_ticks = user_ticks p + child_user_ticks p, x_kernel_ticks = kernel_ticks p + child_kernel_ticks p,
      x_nvcsw = nvcsw p + child_nvcsw p, x_nivcsw = nivcsw p + child_nivcsw p\<rparr>"

definition exitlog_add :: "process_t \<Rightarrow> 'a procs_scheme \<Rightarrow> 'a procs_scheme" where
  "exitlog_add p s =
     (if tgid p \<noteq> 0 \<and> tgid p \<noteq> pid p then s
      else s\<lparr>exits := (exits s)(pick_exit_slot (exits s) :=
                 \<lparr>e_used = True, e_order = exit_order s, e_r = exit_record_of p\<rparr>),
             exit_order := exit_order s + 1\<rparr>)"

definition exit_matches :: "exit_record_t \<Rightarrow> int \<Rightarrow> u32 \<Rightarrow> bool" where
  "exit_matches r n my_pgid =
     (if n > 0 then x_pid r = word_of_int n
      else if n = -1 then True
      else if n = 0 then x_pgid r = my_pgid
      else x_pgid r = word_of_int (- n))"

definition wanted :: "u32 \<Rightarrow> int \<Rightarrow> u32 \<Rightarrow> exit_entry \<Rightarrow> bool" where
  "wanted parent n my_pgid e \<longleftrightarrow> e_used e \<and> x_ppid (e_r e) = parent \<and> exit_matches (e_r e) n my_pgid"

definition older_exit :: "u32 \<Rightarrow> int \<Rightarrow> u32 \<Rightarrow> (nat \<Rightarrow> exit_entry) \<Rightarrow> nat \<Rightarrow> nat option \<Rightarrow> nat option" where
  "older_exit parent n my_pgid e i best =
     (if \<not> wanted parent n my_pgid (e i) then best
      else case best of None \<Rightarrow> Some i | Some b \<Rightarrow> if e_order (e i) < e_order (e b) then Some i else best)"

interpretation xl: oldest_pool "wanted parent n my_pgid" e_order "older_exit parent n my_pgid" for parent n my_pgid
  by unfold_locales (simp add: older_exit_def)

definition exitlog_take :: "u32 \<Rightarrow> int \<Rightarrow> u32 \<Rightarrow> 'a procs_scheme \<Rightarrow> exit_record_t option \<times> 'a procs_scheme" where
  "exitlog_take parent n my_pgid s =
     (case fold (older_exit parent n my_pgid (exits s)) [0..<EXITLOG_SIZE] None of
        None \<Rightarrow> (None, s)
      | Some i \<Rightarrow> (Some (e_r (exits s i)), s\<lparr>exits := (exits s)(i := (exits s i)\<lparr>e_used := False\<rparr>)\<rparr>))"

definition exitlog_find :: "u32 \<Rightarrow> 'a procs_scheme \<Rightarrow> exit_record_t option" where
  "exitlog_find n s =
     map_option (\<lambda>i. e_r (exits s i)) (find (\<lambda>i. e_used (exits s i) \<and> x_pid (e_r (exits s i)) = n) [0..<EXITLOG_SIZE])"

section \<open>System calls on other processes\<close>

definition send_one :: "nat \<Rightarrow> int \<Rightarrow> 'a sigs_scheme \<Rightarrow> bool \<times> 'a sigs_scheme" where
  "send_one t sig s =
     (case def_signal_allowed (uid_of (current_process s)) (uid (table s t)) (is_system (table s t)) s of (ok, s1) \<Rightarrow>
        if \<not> ok then (False, s1)
        else if sig = int SIGKILL then process_kill (pid (table s1 t)) s1
        else (True, if sig \<noteq> 0 then signal_send t sig s1 else s1))"

definition kill_selects :: "int \<Rightarrow> nat option \<Rightarrow> u32 \<Rightarrow> u32 \<Rightarrow> nat \<Rightarrow> process_t \<Rightarrow> bool" where
  "kill_selects n self u grp i t \<longleftrightarrow>
     p_state t \<noteq> PROCESS_STATE_FREE \<and> p_state t \<noteq> PROCESS_STATE_ZOMBIE \<and> \<not> is_system t \<and>
     (if n = -1 then Some i \<noteq> self \<and> (uid t = u \<or> caps_has u CAP_KILL) else pgid t = grp)"

definition kill_each :: "int \<Rightarrow> int \<Rightarrow> nat option \<Rightarrow> u32 \<Rightarrow> u32 \<Rightarrow> nat \<Rightarrow> nat \<times> 'a sigs_scheme \<Rightarrow> nat \<times> 'a sigs_scheme" where
  "kill_each n sig self u grp i acc =
     (case acc of (sent, s) \<Rightarrow>
        if kill_selects n self u grp i (table s i)
        then (case send_one i sig s of (ok, s1) \<Rightarrow> (if ok then sent + 1 else sent, s1))
        else (sent, s))"

definition sys_kill :: "int \<Rightarrow> int \<Rightarrow> 'a sigs_scheme \<Rightarrow> bool \<times> 'a sigs_scheme" where
  "sys_kill n sig s =
     (if sig < 0 \<or> sig \<ge> int SIGNAL_COUNT then (False, s)
      else if n > 0
      then (case process_get_by_pid (word_of_int n) s of None \<Rightarrow> (False, s) | Some t \<Rightarrow> send_one t sig s)
      else let u = uid_of (current_process s);
               grp = (if n = 0 then (case current_process s of None \<Rightarrow> 0 | Some c \<Rightarrow> pgid c) else word_of_int (- n))
           in case fold (kill_each n sig (current s) u grp) [0..<MAX_PROCESSES] (0, s) of (sent, s1) \<Rightarrow> (sent \<noteq> 0, s1))"

definition sys_tgkill :: "u32 \<Rightarrow> u32 \<Rightarrow> int \<Rightarrow> 'a sigs_scheme \<Rightarrow> bool \<times> 'a sigs_scheme" where
  "sys_tgkill tg tid sig s =
     (case process_get_by_pid tid s of
        None \<Rightarrow> (False, s)
      | Some t \<Rightarrow>
          if tgid (table s t) \<noteq> tg then (False, s)
          else case def_signal_allowed (uid_of (current_process s)) (uid (table s t)) (is_system (table s t)) s of (ok, s1) \<Rightarrow>
            if \<not> ok then (False, s1)
            else (True, if sig = int SIGKILL then snd (process_kill tid s1) else signal_send t sig s1))"

definition sys_tkill :: "u32 \<Rightarrow> int \<Rightarrow> 'a sigs_scheme \<Rightarrow> bool \<times> 'a sigs_scheme" where
  "sys_tkill tid sig s =
     (case process_get_by_pid tid s of
        None \<Rightarrow> (False, s)
      | Some t \<Rightarrow>
          case def_signal_allowed (uid_of (current_process s)) (uid (table s t)) (is_system (table s t)) s of (ok, s1) \<Rightarrow>
            if \<not> ok then (False, s1)
            else (True, if sig = int SIGKILL then snd (process_kill tid s1) else signal_send t sig s1))"

definition sys_setpgid :: "u32 \<Rightarrow> u32 \<Rightarrow> 'a audit_scheme \<Rightarrow> bool \<times> 'a audit_scheme" where
  "sys_setpgid n pg s =
     (case current s of
        None \<Rightarrow> (False, s)
      | Some c \<Rightarrow>
          case (if n \<noteq> 0 then process_get_by_pid n s else Some c) of
            None \<Rightarrow> (False, s)
          | Some t \<Rightarrow>
              let pg' = (if pg = 0 then pid (table s t) else pg)
              in case def_setpgid_ok (Some (table s c)) (Some (table s t)) pg' s of (ok, s1) \<Rightarrow>
                   if \<not> ok then (False, s1) else (True, upd_proc t (\<lambda>p. p\<lparr>pgid := pg'\<rparr>) s1))"

definition sys_setsid :: "'a audit_scheme \<Rightarrow> u32 option \<times> 'a audit_scheme" where
  "sys_setsid s =
     (case current s of
        None \<Rightarrow> (None, s)
      | Some c \<Rightarrow>
          case def_setsid_ok (current_process s) s of (ok, s1) \<Rightarrow>
            if \<not> ok then (None, s1)
            else (Some (pid (table s1 c)), upd_proc c (\<lambda>p. p\<lparr>sid := pid p, pgid := pid p\<rparr>) s1))"

definition sys_exit :: "int \<Rightarrow> 'a sigs_scheme \<Rightarrow> 'a sigs_scheme" where
  "sys_exit code s = process_exit_with ((code mod 256) * 256) s"

text \<open>Going to sleep, up to the switch; the loop around \<open>scheduler_yield\<close> repeats it until the process
  has been woken.\<close>

definition ms_to_ticks :: "u32 \<Rightarrow> u32" where
  "ms_to_ticks ms = (let ticks = def_sleep_ms_ticks ms in if ticks \<noteq> 0 then ticks else 1)"

definition sys_sleep :: "u32 \<Rightarrow> 'a sigs_scheme \<Rightarrow> 'a sigs_scheme" where
  "sys_sleep ms s =
     (case current s of
        None \<Rightarrow> s
      | Some c \<Rightarrow>
          scheduler_yield (upd_proc c (\<lambda>p. p\<lparr>sleep_ticks := ms_to_ticks ms, p_state := PROCESS_STATE_SLEEPING\<rparr>) s))"

definition sys_sleep_interruptible :: "u32 \<Rightarrow> 'a sigs_scheme \<Rightarrow> bool \<times> 'a sigs_scheme" where
  "sys_sleep_interruptible ms s =
     (case current s of
        None \<Rightarrow> (True, s)
      | Some c \<Rightarrow>
          if signal_deliverable (current_process s) \<noteq> 0 then (False, s)
          else (True, scheduler_yield (upd_proc c (\<lambda>p. p\<lparr>sleep_ticks := ms_to_ticks ms, sleep_interruptible := True,
                        p_state := PROCESS_STATE_SLEEPING\<rparr>) s)))"

text \<open>\<open>wait4\<close>: the check of a named child, and one round of the loop. A round that finds nothing to
  report sleeps 10 ms and starts again, unless WNOHANG is given.\<close>

datatype wait_result = Reported exit_record_t | No_child | Not_yet

definition wait_selected :: "process_t \<Rightarrow> int \<Rightarrow> u32 \<Rightarrow> bool" where
  "wait_selected c n my_pgid =
     (if n > 0 then pid c = word_of_int n else if n = -1 then True
      else if n = 0 then pgid c = my_pgid else pgid c = word_of_int (- n))"

definition has_child :: "process_t \<Rightarrow> int \<Rightarrow> 'a kernel_scheme \<Rightarrow> bool" where
  "has_child self n s =
     list_ex (\<lambda>i. let c = table s i in p_state c \<noteq> PROCESS_STATE_FREE \<and> ppid c = pid self \<and>
       (tgid c = 0 \<or> tgid c = pid c) \<and> wait_selected c n (pgid self)) [0..<MAX_PROCESSES]"

definition wait4_check :: "int \<Rightarrow> 'a procs_scheme \<Rightarrow> bool \<times> 'a procs_scheme" where
  "wait4_check n s =
     (if n > 0
      then let c = process_get_by_pid (word_of_int n) s;
               parent = (case c of Some i \<Rightarrow> ppid (table s i)
                         | None \<Rightarrow> case exitlog_find (word_of_int n) s of Some r \<Rightarrow> x_ppid r | None \<Rightarrow> 0)
           in if c = None \<and> parent = 0 then (False, s) else def_wait_allowed (current_process s) parent s
      else (True, s))"

definition wait4_poll :: "int \<Rightarrow> 'a procs_scheme \<Rightarrow> wait_result \<times> 'a procs_scheme" where
  "wait4_poll n s =
     (case current_process s of
        None \<Rightarrow> (No_child, s)
      | Some self \<Rightarrow>
          case exitlog_take (pid self) n (pgid self) s of
            (Some r, s1) \<Rightarrow> (Reported r, s1)
          | (None, s1) \<Rightarrow> (if has_child self n s1 then Not_yet else No_child, s1))"

section \<open>Creation keeps PIDs unique and users within their quota\<close>

lemma audit_log_procs [simp]:
  "next_pid (audit_log d t s) = next_pid s" "generations (audit_log d t s) = generations s"
  "exits (audit_log d t s) = exits s" "exit_order (audit_log d t s) = exit_order s"
  for s :: "'a procs_scheme"
proof -
  have m: "sigs.more (audit_log d t s) = sigs.more s" by simp
  then show "next_pid (audit_log d t s) = next_pid s" "generations (audit_log d t s) = generations s"
    "exits (audit_log d t s) = exits s" "exit_order (audit_log d t s) = exit_order s"
    by (cases s; cases "audit_log d t s"; simp)+
qed

lemma kmalloc_loop_state: "snd (kmalloc_loop sz b s) = s \<or> (\<exists>h. snd (kmalloc_loop sz b s) = s\<lparr>heap := h\<rparr>) \<or>
    (\<exists>d t. snd (kmalloc_loop sz b s) = audit_log d t s)"
proof (induction sz b s rule: kmalloc_loop.induct)
  case (1 sz b s)
  then show ?case
    by (subst (1 2 3) kmalloc_loop.simps) (auto simp: def_heap_block_ok_def)
qed

lemma kmalloc_keeps [simp]:
  "table (snd (kmalloc sz s)) = table s" "current (snd (kmalloc sz s)) = current s"
  "next_pid (snd (kmalloc sz s)) = next_pid s" "generations (snd (kmalloc sz s)) = generations s"
  for s :: "'a procs_scheme"
  using kmalloc_loop_state [of "round_up sz" "heap_start s" s] by (auto simp: kmalloc_def)

lemma cpu_task_fork_fields [simp]:
  "current (cpu_task_fork i q s) = current s" "next_pid (cpu_task_fork i q t) = next_pid t"
  "generations (cpu_task_fork i q t) = generations t"
  by (simp_all add: cpu_task_fork_def numa_task_fork_def Let_def upd_proc_def split: option.split)

lemma cpu_task_fork_table:
  "j \<noteq> i \<Longrightarrow> table (cpu_task_fork i q s) j = table s j"
  "pid (table (cpu_task_fork i q s) i) = pid (table s i)" "uid (table (cpu_task_fork i q s) i) = uid (table s i)"
  "p_state (table (cpu_task_fork i q s) i) = p_state (table s i)"
  "generation (table (cpu_task_fork i q s) i) = generation (table s i)"
  by (simp_all add: cpu_task_fork_def numa_task_fork_def Let_def rlimit_defaults_def split: option.split)

lemma fork_params:
  assumes "\<And>c. q = Some c \<Longrightarrow> c \<noteq> i \<and> params_ok (table s c)"
  shows "params_ok (table (cpu_task_fork i q s) i)"
proof (cases q)
  case None
  then show ?thesis using level_range [of NICE_DEFAULT]
    by (simp add: cpu_task_fork_def numa_task_fork_def Let_def rlimit_defaults_def params_ok_def policy_valid_iff
        policy_priority_min_def policy_priority_max_def policy_is_realtime_def level_consts sched_consts)
next
  case (Some c)
  then show ?thesis using assms [OF Some] level_range [of "p_nice (table s c)"] level_range [of NICE_DEFAULT]
    by (auto simp: cpu_task_fork_def numa_task_fork_def Let_def params_ok_def policy_valid_iff
        policy_priority_min_def policy_priority_max_def policy_is_realtime_def level_consts sched_consts)
qed

text \<open>Every process has a PID of its own, and no PID at or above the counter has been given out.\<close>

definition pids_inv :: "'a procs_scheme \<Rightarrow> bool" where
  "pids_inv s \<longleftrightarrow> next_pid s \<noteq> 0 \<and>
     (\<forall>i < MAX_PROCESSES. p_state (table s i) \<noteq> PROCESS_STATE_FREE \<longrightarrow> 0 < pid (table s i) \<and> pid (table s i) < next_pid s) \<and>
     (\<forall>i < MAX_PROCESSES. \<forall>j < MAX_PROCESSES. p_state (table s i) \<noteq> PROCESS_STATE_FREE \<longrightarrow>
        p_state (table s j) \<noteq> PROCESS_STATE_FREE \<longrightarrow> pid (table s i) = pid (table s j) \<longrightarrow> i = j)"

lemma claim_slot_result:
  assumes "claim_slot entry i s = (ok, s')"
  shows "current s' = current s" "next_pid s' = next_pid s" "generations s' = generations s"
    "j \<noteq> i \<Longrightarrow> table s' j = table s j" "p_state (table s' i) = PROCESS_STATE_FREE"
proof -
  obtain b s2 where k: "kmalloc PROCESS_STACK_SIZE (upd_proc i (\<lambda>_. def_pcb_wipe) s) = (b, s2)" by fastforce
  let ?s1 = "upd_proc i (\<lambda>_. def_pcb_wipe) s"
  have t: "table s2 = table ?s1" "current s2 = current s" "next_pid s2 = next_pid s" "generations s2 = generations s"
    using kmalloc_keeps [of PROCESS_STACK_SIZE ?s1, unfolded k] by (simp_all add: upd_proc_def)
  have c: "s' = ?s1 \<or> s' = s2 \<or> (\<exists>h f. s' = upd_proc i (\<lambda>p. p\<lparr>stack_base := b, p_esp := f\<rparr>) (s2\<lparr>heap := h\<rparr>))"
    using assms k by (auto simp: claim_slot_def Let_def split: if_splits prod.splits)
  show "current s' = current s" "next_pid s' = next_pid s" "generations s' = generations s"
    "j \<noteq> i \<Longrightarrow> table s' j = table s j" "p_state (table s' i) = PROCESS_STATE_FREE"
    using c t by (auto simp: upd_proc_def)
qed

lemma fill_slot_result:
  assumes "current s \<noteq> Some i"
  shows "j \<noteq> i \<Longrightarrow> table (fill_slot name entry u i s) j = table s j" "next_pid (fill_slot name entry u i s) = next_pid s + 1"
    "current (fill_slot name entry u i s) = current s"
    "generations (fill_slot name entry u i s) = (generations s)(i := generations s i + 1)"
    "pid (table (fill_slot name entry u i s) i) = next_pid s" "uid (table (fill_slot name entry u i s) i) = u"
    "p_state (table (fill_slot name entry u i s) i) = PROCESS_STATE_READY"
    "generation (table (fill_slot name entry u i s) i) = generations s i + 1"
    "(\<And>c. current s = Some c \<Longrightarrow> params_ok (table s c)) \<Longrightarrow> params_ok (table (fill_slot name entry u i s) i)"
proof -
  let ?r = "fill_slot name entry u i s"
  have inh: "pid (inherit q p) = pid p" "uid (inherit q p) = uid p" "generation (inherit q p) = generation p"
      "params_ok (inherit q p) = params_ok p" for q p
    by (auto simp: inherit_def Let_def params_ok_def split: option.split)
  show "j \<noteq> i \<Longrightarrow> table ?r j = table s j" "next_pid ?r = next_pid s + 1" "current ?r = current s"
    "generations ?r = (generations s)(i := generations s i + 1)" "pid (table ?r i) = next_pid s" "uid (table ?r i) = u"
    "p_state (table ?r i) = PROCESS_STATE_READY" "generation (table ?r i) = generations s i + 1"
    by (simp_all add: fill_slot_def Let_def inh cpu_task_fork_table, simp_all add: upd_proc_def)
  show "params_ok (table ?r i)" if "\<And>c. current s = Some c \<Longrightarrow> params_ok (table s c)"
  proof -
    define t where "t = upd_proc i (\<lambda>p. p\<lparr>pid := next_pid s, generation := generations s i + 1, uid := u, p_entry := entry,
                 p_name := cstring (strncpy (replicate PROCESS_NAME_LEN (CHR 0x00))
                   (case name of None \<Rightarrow> ''?'' | Some t \<Rightarrow> t) (PROCESS_NAME_LEN - 1))\<rparr>)
                 (s\<lparr>next_pid := next_pid s + 1, generations := (generations s)(i := generations s i + 1)\<rparr>)"
    have "params_ok (table (cpu_task_fork i (current s) t) i)"
      using that assms by (intro fork_params) (auto simp: t_def)
    then show ?thesis by (simp add: fill_slot_def Let_def inh t_def)
  qed
qed

lemma create_cases:
  assumes "process_create name entry u s = (r, s')"
  obtains (refused) s1 where "r = None" "s' = s1" "table s1 = table s" "current s1 = current s" "next_pid s1 = next_pid s"
      "generations s1 = generations s"
    | (no_memory) i where "r = None" "i < MAX_PROCESSES" "p_state (table s i) = PROCESS_STATE_FREE"
      "p_state (table s' i) = PROCESS_STATE_FREE" "\<And>j. j \<noteq> i \<Longrightarrow> table s' j = table s j" "current s' = current s"
      "next_pid s' = next_pid s"
    | (created) i s1 where "r = Some (pid (table s' i))" "i < MAX_PROCESSES" "p_state (table s i) = PROCESS_STATE_FREE"
      "s' = fill_slot name entry u i s1" "\<And>j. j \<noteq> i \<Longrightarrow> table s1 j = table s j" "current s1 = current s"
      "next_pid s1 = next_pid s" "generations s1 = generations s" "pid_in_range (next_pid s)"
      "quota_allows (process_count_free_slots s) (count_owned_by u s) u"
proof -
  obtain ok1 s1 where a: "def_pid_bounds_check (next_pid s) s = (ok1, s1)" by fastforce
  have a': "table s1 = table s" "current s1 = current s" "next_pid s1 = next_pid s" "generations s1 = generations s"
      "ok1 = pid_in_range (next_pid s)" "ok1 \<Longrightarrow> s1 = s"
    using a by (auto simp: def_pid_bounds_check_def split: if_splits)
  obtain ok2 s2 where b: "def_slot_quota_check u s1 = (ok2, s2)" by fastforce
  have b': "table s2 = table s" "current s2 = current s" "next_pid s2 = next_pid s" "generations s2 = generations s"
      "ok1 \<Longrightarrow> ok2 = quota_allows (process_count_free_slots s) (count_owned_by u s) u"
    using a' b by (auto simp: def_slot_quota_check_def split: if_splits)
  show thesis
  proof (cases "ok1 \<and> ok2 \<and> rlimit_nproc_ok (current_process s2) u s2 \<and> find_free_slot s2 \<noteq> None")
    case False
    then have "r = None \<and> (s' = s1 \<or> s' = s2)"
      using assms a b by (auto simp: process_create_def split: if_splits option.splits prod.splits)
    then show thesis using refused a' b' by metis
  next
    case True
    then obtain i where i: "find_free_slot s2 = Some i" by blast
    then have fr: "i < MAX_PROCESSES" "p_state (table s i) = PROCESS_STATE_FREE"
      by (auto simp: find_free_slot_def find_Some_iff b')
    obtain ok3 s3 where c: "claim_slot entry i s2 = (ok3, s3)" by fastforce
    note c' = claim_slot_result [OF c, unfolded b']
    have e: "(r, s') = (if \<not> ok3 then (None, s3) else (Some (pid (table (fill_slot name entry u i s3) i)), fill_slot name entry u i s3))"
      using assms a b c i True by (cases ok3) (auto simp: process_create_def Let_def)
    show thesis
    proof (cases ok3)
      case True
      then show thesis using created [of i s3] e fr c'(1-4) a'(5) b'(5) \<open>ok1 \<and> ok2 \<and> _ \<and> _\<close> by simp
    next
      case False
      then show thesis using no_memory [of i] e fr c' by simp
    qed
  qed
qed

lemma pid_room:
  assumes "pid_in_range n"
  shows "n < n + 1" "n + 1 \<noteq> 0" "n \<noteq> 0"
proof -
  have "unat n < 4294967040" using assms by (simp add: pid_in_range_def PID_LIMIT_def word_less_nat_alt)
  then have "unat (n + 1) = unat n + 1" by (simp add: unat_add_u32)
  then show "n < n + 1" "n + 1 \<noteq> 0" "n \<noteq> 0"
    using assms by (auto simp: word_less_nat_alt pid_in_range_def unat_eq_0)
qed

lemma count_add:
  fixes P :: "nat \<Rightarrow> bool"
  assumes "i < n" and "\<not> P i" and "Q i" and "\<And>j. j \<noteq> i \<Longrightarrow> Q j = P j"
  shows "length (filter Q [0..<n]) = Suc (length (filter P [0..<n]))"
proof -
  have c: "length (filter R [0..<n]) = card {j. j < n \<and> R j}" for R :: "nat \<Rightarrow> bool"
    using distinct_card [of "filter R [0..<n]"] by (simp add: Collect_conj_eq lessThan_def [symmetric] Int_commute atLeast0LessThan)
  have "{j. j < n \<and> Q j} = insert i {j. j < n \<and> P j}" using assms(1-3) assms(4) by (auto, metis+)
  then show ?thesis using assms(2) by (simp add: c)
qed

text \<open>C6: creating a process: either nothing that lives changes and no PID is used, or a free slot gets a
  PID that no process has or ever had, a new generation and parameters in range, and every other slot is
  as before. PIDs stay unique. A user without the privilege never has more than 8 processes, and the
  last 5 slots stay for root.\<close>

theorem process_create_result:
  assumes "pids_inv s" and "params_inv s" and "process_create name entry u s = (r, s')"
    and "\<And>c. current s = Some c \<Longrightarrow> c < MAX_PROCESSES \<and> p_state (table s c) \<noteq> PROCESS_STATE_FREE"
  shows "pids_inv s' \<and> params_inv s' \<and> current s' = current s \<and>
    (case r of
       None \<Rightarrow> next_pid s' = next_pid s \<and>
         (\<forall>j < MAX_PROCESSES. p_state (table s j) = PROCESS_STATE_FREE \<and> p_state (table s' j) = PROCESS_STATE_FREE \<or>
            table s' j = table s j)
     | Some n \<Rightarrow> n = next_pid s \<and>
         (\<exists>i < MAX_PROCESSES. p_state (table s i) = PROCESS_STATE_FREE \<and> p_state (table s' i) = PROCESS_STATE_READY \<and>
            pid (table s' i) = n \<and> uid (table s' i) = u \<and> generation (table s' i) = generations s i + 1 \<and>
            (\<forall>j. j = i \<or> table s' j = table s j) \<and>
            (u = 0 \<or> count_owned_by u s' \<le> 8 \<and> process_count_free_slots s' \<ge> 5)))"
  using assms(3)
proof (cases rule: create_cases)
  case (refused s1)
  then show ?thesis using assms(1,2) by (simp add: pids_inv_def params_inv_def)
next
  case (no_memory i)
  have "p_state (table s' j) = p_state (table s j)" "p_state (table s j) \<noteq> PROCESS_STATE_FREE \<Longrightarrow> table s' j = table s j" for j
    using no_memory(3-5) by (cases "j = i"; simp)+
  then show ?thesis using assms(1,2) no_memory by (auto simp: pids_inv_def params_inv_def)
next
  case (created i s1)
  have ni: "current s1 \<noteq> Some i" using assms(4) created(3,6) by auto
  note f = fill_slot_result [OF ni, where name = name and entry = entry and u = u, folded created(4)]
  have other: "table s' j = table s j" if "j \<noteq> i" for j using f(1) created(5) that by simp
  have lt: "next_pid s < next_pid s + 1" "next_pid s + 1 \<noteq> 0" "next_pid s \<noteq> 0"
    using pid_room [OF created(9)] by simp_all
  have live: "0 < pid (table s j) \<and> pid (table s j) < next_pid s" if "j < MAX_PROCESSES" "p_state (table s j) \<noteq> PROCESS_STATE_FREE" for j
    using assms(1) that by (simp add: pids_inv_def)
  have "pids_inv s'"
    unfolding pids_inv_def
  proof (intro conjI allI impI)
    show "next_pid s' \<noteq> 0" using f(2) created(7) lt by simp
    fix j assume j: "j < MAX_PROCESSES" "p_state (table s' j) \<noteq> PROCESS_STATE_FREE"
    then show "0 < pid (table s' j)" "pid (table s' j) < next_pid s'"
      using live [of j] other [of j] f(2,5) created(7) lt by (cases "j = i"; auto simp: word_neq_0_conv)+
    fix k assume k: "k < MAX_PROCESSES" "p_state (table s' k) \<noteq> PROCESS_STATE_FREE" "pid (table s' j) = pid (table s' k)"
    show "j = k"
    proof (cases "j = i \<or> k = i")
      case True
      then show ?thesis using j k live other f(5) created(7) by (metis order_less_irrefl)
    next
      case False
      then show ?thesis using assms(1) j k other by (simp add: pids_inv_def)
    qed
  qed
  moreover have "params_ok (table s' i)"
    using assms(2,4) created(5,6) ni by (intro f(9)) (metis params_inv_def)
  then have "params_inv s'" using assms(2) other by (metis params_inv_def)
  moreover have "count_owned_by u s' \<le> 8 \<and> process_count_free_slots s' \<ge> 5" if "u \<noteq> 0"
  proof -
    have "int (length (filter (\<lambda>j. p_state (table s' j) \<noteq> PROCESS_STATE_FREE \<and> uid (table s' j) = u) [0..<MAX_PROCESSES]))
        = count_owned_by u s + 1"
      unfolding count_owned_by_def using created(2,3) f(6,7) other by (subst count_add [of i]) auto
    moreover have "process_count_free_slots s
        = int (length (filter (\<lambda>j. p_state (table s' j) = PROCESS_STATE_FREE) [0..<MAX_PROCESSES])) + 1"
      unfolding process_count_free_slots_def using created(2,3) f(7) other by (subst count_add [of i]) auto
    ultimately show ?thesis
      using created(10) that
      by (auto simp: quota_allows_def caps_has_root MAX_PER_USER_def RESERVED_FOR_ROOT_def count_owned_by_def
          process_count_free_slots_def split: if_splits)
  qed
  ultimately show ?thesis
    using created(1-3,6,7) f(3,5-8) created(8) other by auto
qed

section \<open>Refused signals\<close>

text \<open>States that differ only in the audit log.\<close>

definition same_but_log :: "'a sigs_scheme \<Rightarrow> 'a sigs_scheme \<Rightarrow> bool" where
  "same_but_log s s' \<longleftrightarrow> table s' = table s \<and> current s' = current s \<and> timer_ticks s' = timer_ticks s \<and>
     timer_hz s' = timer_hz s \<and> audit.more s' = audit.more s"

lemma same_but_log_refl [simp]: "same_but_log s s"
  by (simp add: same_but_log_def)

lemma same_but_log_trans: "same_but_log s t \<Longrightarrow> same_but_log t u \<Longrightarrow> same_but_log s u"
  by (simp add: same_but_log_def)

lemma same_but_log_audit [simp]: "same_but_log s (audit_log d t s)"
  by (simp add: same_but_log_def)

lemma process_kill_cases:
  assumes "process_kill n s = (ok, s')"
  shows "ok \<longleftrightarrow> pid_in_range n \<and> (\<exists>t. process_get_by_pid n s = Some t \<and> \<not> is_system (table s t) \<and>
      (uid_of (current_process s) = 0 \<or> uid_of (current_process s) = uid (table s t)))"
    and "\<not> ok \<Longrightarrow> same_but_log s s'"
proof -
  let ?t = "process_get_by_pid n s"
  have k: "fst (def_kill_allowed c (map_option (table s) ?t) s) \<longleftrightarrow>
      (\<exists>t. ?t = Some t \<and> \<not> is_system (table s t) \<and> (uid_of c = 0 \<or> uid_of c = uid (table s t)))" for c
    by (cases ?t) (auto simp: def_kill_allowed_def kill_allows_def caps_has_root)
  have log: "\<not> fst (def_kill_allowed c q s) \<Longrightarrow> same_but_log s (snd (def_kill_allowed c q s))" for c q
    by (auto simp: def_kill_allowed_def)
  obtain b s2 where d: "def_kill_allowed (current_process s) (map_option (table s) ?t) s = (b, s2)" by fastforce
  show "ok \<longleftrightarrow> pid_in_range n \<and> (\<exists>t. ?t = Some t \<and> \<not> is_system (table s t) \<and>
      (uid_of (current_process s) = 0 \<or> uid_of (current_process s) = uid (table s t)))"
    using assms k [of "current_process s"] d
    by (cases "pid_in_range n"; cases b) (auto simp: process_kill_def def_pid_bounds_check_def Let_def split: if_splits)
  show "\<not> ok \<Longrightarrow> same_but_log s s'"
    using assms log [of "current_process s" "map_option (table s) ?t"] d
    by (cases "pid_in_range n"; cases b) (auto simp: process_kill_def def_pid_bounds_check_def Let_def split: if_splits)
qed

definition may_signal :: "nat \<Rightarrow> 'a kernel_scheme \<Rightarrow> bool" where
  "may_signal t s \<longleftrightarrow> \<not> is_system (table s t) \<and>
     (uid_of (current_process s) = 0 \<or> uid_of (current_process s) = uid (table s t))"

lemma send_one_cases:
  assumes "send_one t sig s = (ok, s')"
  shows "\<not> ok \<Longrightarrow> same_but_log s s'" and "\<not> may_signal t s \<Longrightarrow> \<not> ok"
    and "may_signal t s \<Longrightarrow> sig \<noteq> int SIGKILL \<Longrightarrow> ok"
    and "may_signal t s \<Longrightarrow> process_get_by_pid (pid (table s t)) s = Some t \<Longrightarrow> pid_in_range (pid (table s t)) \<Longrightarrow> ok"
proof -
  let ?u = "uid_of (current_process s)"
  have a: "def_signal_allowed ?u (uid (table s t)) (is_system (table s t)) s =
      (if may_signal t s then (True, s)
       else (False, audit_log ''signal_permission'' ''signal refused: not yours, or a system process'' s))"
    by (auto simp: def_signal_allowed_def signal_allowed_def may_signal_def caps_has_root)
  have r: "send_one t sig s = (if \<not> may_signal t s
        then (False, audit_log ''signal_permission'' ''signal refused: not yours, or a system process'' s)
      else if sig = int SIGKILL then process_kill (pid (table s t)) s
      else (True, if sig \<noteq> 0 then signal_send t sig s else s))"
    by (simp add: send_one_def a)
  obtain b s2 where k: "process_kill (pid (table s t)) s = (b, s2)" by fastforce
  show "\<not> ok \<Longrightarrow> same_but_log s s'"
    using assms process_kill_cases(2) [OF k] k by (auto simp: r split: if_splits)
  show "\<not> may_signal t s \<Longrightarrow> \<not> ok" "may_signal t s \<Longrightarrow> sig \<noteq> int SIGKILL \<Longrightarrow> ok"
    using assms by (auto simp: r)
  assume m: "may_signal t s" and g: "process_get_by_pid (pid (table s t)) s = Some t"
    and p: "pid_in_range (pid (table s t))"
  have "b" using process_kill_cases(1) [OF k] g p m by (auto simp: may_signal_def)
  then show ok using assms k m by (auto simp: r split: if_splits)
qed

lemma kill_each_fails:
  assumes "fold (kill_each n sig self u grp) xs (0, s) = (0, s')"
  shows "same_but_log s s'"
proof -
  have mono: "m \<le> fst (fold (kill_each n sig self u grp) ys (m, q))" for ys m and q :: "'a sigs_scheme"
  proof (induction ys arbitrary: m q)
    case (Cons y ys)
    obtain m' q' where e: "kill_each n sig self u grp y (m, q) = (m', q')" by fastforce
    then have "m \<le> m'" by (auto simp: kill_each_def split: if_splits prod.splits)
    then show ?case using Cons [of m' q'] e by simp
  qed simp
  show ?thesis using assms
  proof (induction xs arbitrary: s)
    case (Cons y ys)
    obtain m q where e: "kill_each n sig self u grp y (0, s) = (m, q)" by fastforce
    have f: "fold (kill_each n sig self u grp) ys (m, q) = (0, s')" using Cons.prems e by simp
    then have "m = 0" using mono [of m ys q] by simp
    have "same_but_log s q"
      using e \<open>m = 0\<close> send_one_cases(1) by (fastforce simp: kill_each_def split: if_splits prod.splits)
    then show ?case using Cons.IH f \<open>m = 0\<close> same_but_log_trans by blast
  qed simp
qed

text \<open>C12: what a refused \<open>kill\<close> does: it changes nothing but the audit log, for a single process and for a
  whole group alike. For a single process it is refused exactly when the signal number is out of range,
  nobody has the PID, the process belongs to the system, or it belongs to somebody else and the caller is
  not root.\<close>

theorem kill_refused:
  assumes "pids_inv s" and "sys_kill n sig s = (ok, s')" and "next_pid s \<le> PID_LIMIT"
  shows "(ok \<or> same_but_log s s') \<and>
    (n \<le> 0 \<or> (ok \<longleftrightarrow> 0 \<le> sig \<and> sig < int SIGNAL_COUNT \<and>
       (\<exists>t. process_get_by_pid (word_of_int n) s = Some t \<and> may_signal t s)))"
proof
  show "ok \<or> same_but_log s s'"
    using assms(2) send_one_cases(1) kill_each_fails
    by (fastforce simp: sys_kill_def Let_def split: if_splits option.splits prod.splits)
  have "ok \<longleftrightarrow> may_signal t s"
    if n: "0 < n" "0 \<le> sig" "sig < int SIGNAL_COUNT" and t: "process_get_by_pid (word_of_int n) s = Some t" for t
  proof -
    have e: "send_one t sig s = (ok, s')" using assms(2) n t by (simp add: sys_kill_def)
    note g = get_by_pid_Some [OF t]
    have "pid (table s t) < PID_LIMIT" "pid (table s t) \<noteq> 0"
      using assms(1,3) g by (auto simp: pids_inv_def intro: less_le_trans)
    then have "pid_in_range (pid (table s t))" by (simp add: pid_in_range_def)
    then show ?thesis using send_one_cases(2,4) [OF e] t g(3) by auto
  qed
  then show "n \<le> 0 \<or> (ok \<longleftrightarrow> 0 \<le> sig \<and> sig < int SIGNAL_COUNT \<and>
       (\<exists>t. process_get_by_pid (word_of_int n) s = Some t \<and> may_signal t s))"
    using assms(2) by (auto simp: sys_kill_def split: if_splits option.splits)
qed

section \<open>An example\<close>

text \<open>The machine of \<open>small_sigs\<close> with the PIDs 1, 2 and 3 given and no exit recorded.\<close>

definition small_procs :: procs where
  "small_procs = sigs.extend small_sigs
     (procs.fields 4 (\<lambda>_. 1) 0
       (\<lambda>_. \<lparr>e_used = False, e_order = 0, e_r = \<lparr>x_pid = 0, x_ppid = 0, x_pgid = 0, x_uid = 0, x_status = 0,
          x_user_ticks = 0, x_kernel_ticks = 0, x_nvcsw = 0, x_nivcsw = 0\<rparr>\<rparr>) 0)"

lemma small_procs_fields [simp]:
  "table small_procs = table small_sigs" "current small_procs = Some 1" "next_pid small_procs = 4"
  by (simp_all add: small_procs_def sigs.defs procs.defs small_sigs_def small_tasks_def small_sched_def
      umem.defs sched.defs tasks.defs)

lemma small_procs_alive:
  assumes "p_state (table small_procs i) \<noteq> PROCESS_STATE_FREE"
  shows "i < 3 \<and> pid (table small_procs i) = word_of_nat i + 1"
proof -
  have "p_state def_pcb_wipe = PROCESS_STATE_FREE" by (simp add: def_pcb_wipe_def)
  then have "i = 0 \<or> i = 1 \<or> i = 2" using assms by (auto split: if_splits)
  then show ?thesis by (elim disjE) (simp_all add: example_proc_def)
qed

lemma small_procs_inv: "pids_inv small_procs" "params_inv small_procs"
proof -
  have p: "0 < pid (table small_procs i) \<and> pid (table small_procs i) < 4 \<and> unat (pid (table small_procs i)) = i + 1"
    if "p_state (table small_procs i) \<noteq> PROCESS_STATE_FREE" for i
  proof -
    have "i = 0 \<or> i = 1 \<or> i = 2" using small_procs_alive [OF that] by linarith
    then show ?thesis using small_procs_alive [OF that] by (elim disjE) (simp_all only:, simp_all)
  qed
  have "i = j" if "p_state (table small_procs i) \<noteq> PROCESS_STATE_FREE" "p_state (table small_procs j) \<noteq> PROCESS_STATE_FREE"
    "pid (table small_procs i) = pid (table small_procs j)" for i j
    using p [OF that(1)] p [OF that(2)] arg_cong [OF that(3), of unat] by linarith
  moreover have "(4 :: u32) \<noteq> 0" by simp
  ultimately show "pids_inv small_procs"
    unfolding pids_inv_def small_procs_fields(3) using p by metis
  show "params_inv small_procs"
    using small_sigs_run unfolding run_inv_def params_inv_def small_procs_fields by blast
qed

lemma small_procs_current:
  "current small_procs = Some c \<Longrightarrow> c < MAX_PROCESSES \<and> p_state (table small_procs c) \<noteq> PROCESS_STATE_FREE"
  by (auto simp: MAX_PROCESSES_def example_proc_def)

theorem process_create_result_witness:
  "pids_inv small_procs \<and> pids_inv (snd (process_create None 0x400000 1000 small_procs))"
  using process_create_result [OF small_procs_inv _ small_procs_current,
      of None "0x400000" 1000 "fst (process_create None 0x400000 1000 small_procs)"
        "snd (process_create None 0x400000 1000 small_procs)"] small_procs_inv
  by simp

theorem kill_refused_witness:
  "pids_inv small_procs \<and> \<not> fst (sys_kill 1 9 small_procs) \<and> fst (sys_kill 3 15 small_procs)"
proof -
  have u: "[0..<MAX_PROCESSES] = [0, 1, 2] @ [3..<MAX_PROCESSES]"
    by (simp add: MAX_PROCESSES_def upt_conv_Cons)
  have f: "process_get_by_pid 1 small_procs = Some 0" "process_get_by_pid 3 small_procs = Some 2"
    using u by (simp_all add: process_get_by_pid_def example_proc_def)
  have m: "\<not> may_signal 0 small_procs" "may_signal 2 small_procs"
    by (simp_all add: may_signal_def current_process_def example_proc_def limited_proc_def
        def_pcb_wipe_def rlimit_defaults_def)
  have l: "next_pid small_procs \<le> PID_LIMIT" by (simp add: PID_LIMIT_def)
  show ?thesis
    using kill_refused [OF small_procs_inv(1) _ l, of 1 9 "fst (sys_kill 1 9 small_procs)" "snd (sys_kill 1 9 small_procs)"]
      kill_refused [OF small_procs_inv(1) _ l, of 3 15 "fst (sys_kill 3 15 small_procs)" "snd (sys_kill 3 15 small_procs)"]
      f m small_procs_inv(1) by (simp add: SIGNAL_COUNT_def)
qed

end
