(* ===== verification/Deliver.thy ===== *)
theory Deliver
  imports Process
begin

text \<open>
  Delivery of signals on the way back to the program and the return from a handler
  (process_management/core/signal/deliver.c, syscalls/rt_sigreturn) with the defence sigframe_check.
  The frame that delivery pushes on the program's stack is modelled word by word in the memory of the
  program. Messages on the screen are not modelled.

  The lemmas show that the delivery loop ends and that returning from a handler restores exactly what
  delivery saved.
\<close>

section \<open>Delivery\<close>

text \<open>The saved registers of the interrupted program; the frame on its stack is 23 words.\<close>

record registers_t =
  r_ds :: u32
  r_edi :: u32
  r_esi :: u32
  r_ebp :: u32
  r_esp :: u32
  r_ebx :: u32
  r_edx :: u32
  r_ecx :: u32
  r_eax :: u32
  r_int_no :: u32
  r_err_code :: u32
  r_eip :: u32
  r_cs :: u32
  r_eflags :: u32
  r_useresp :: u32
  r_ss :: u32

definition SIGNAL_MAX_FRAMES :: int where "SIGNAL_MAX_FRAMES = 4"
definition EFLAGS_TF :: u32 where "EFLAGS_TF = 0x100"
definition EFLAGS_DF :: u32 where "EFLAGS_DF = 0x400"
definition CORE_DUMP :: int where "CORE_DUMP = 0x80"
definition SIGFRAME_SIZE :: u32 where "SIGFRAME_SIZE = 92"

definition user_word :: "u32 \<Rightarrow> 'a vmm_scheme \<Rightarrow> u32" where
  "user_word a s = peek a (unat (a mod PAGE_SIZE div 4)) s"

definition user_store :: "u32 \<Rightarrow> u32 \<Rightarrow> 'a vmm_scheme \<Rightarrow> 'a vmm_scheme" where
  "user_store a v s = poke a (unat (a mod PAGE_SIZE div 4)) v s"

definition lowest_bit :: "u32 \<Rightarrow> nat" where
  "lowest_bit m = (case find (\<lambda>sig. m AND SIG_BIT sig \<noteq> 0) [1..<SIGNAL_COUNT] of None \<Rightarrow> 0 | Some sig \<Rightarrow> sig)"

text \<open>The words of \<open>sigframe_t\<close> at \<open>sp\<close>, in order: return address, the three arguments, siginfo, the saved
  context, and the code "mov eax, 76; int 0x80".\<close>

definition sigframe :: "u32 \<Rightarrow> nat \<Rightarrow> k_siginfo_t \<Rightarrow> u32 \<Rightarrow> u32 \<Rightarrow> registers_t \<Rightarrow> u32 list" where
  "sigframe sp sig info ret blocked regs =
     [ret, of_nat sig, sp + 16, sp + 40,
      word_of_int (si_signo info), word_of_int (si_error info), word_of_int (si_code info), si_pid info, si_uid info,
      si_value info,
      r_eax regs, r_ebx regs, r_ecx regs, r_edx regs, r_esi regs, r_edi regs, r_ebp regs, r_useresp regs,
      r_eip regs, r_eflags regs, blocked, 0x00004CB8, 0x0080CD00]"

definition store_frame :: "u32 \<Rightarrow> u32 list \<Rightarrow> 'a vmm_scheme \<Rightarrow> 'a vmm_scheme" where
  "store_frame sp ws s = fold (\<lambda>k. user_store (sp + 4 * of_nat k) (ws ! k)) [0..<length ws] s"

definition frame_sp :: "process_t \<Rightarrow> nat \<Rightarrow> u32 \<Rightarrow> u32" where
  "frame_sp p sig useresp =
     (let sp = (if sig_flags p sig AND SA_ONSTACK \<noteq> 0 \<and> altstack_size p \<noteq> 0 \<and> altstack_flags p AND SS_DISABLE = 0 \<and>
                   \<not> on_altstack p useresp
                then altstack_sp p + altstack_size p else useresp)
      in (sp - SIGFRAME_SIZE) AND NOT 15)"

definition mask_in_handler :: "process_t \<Rightarrow> nat \<Rightarrow> u32" where
  "mask_in_handler p sig =
     (let b = sig_blocked p OR sig_mask p sig;
          b = (if sig_flags p sig AND SA_NODEFER = 0 then b OR SIG_BIT sig else b)
      in b AND NOT SIG_UNBLOCKABLE)"

definition push_frame ::
    "nat \<Rightarrow> registers_t \<Rightarrow> nat \<Rightarrow> k_siginfo_t \<Rightarrow> 'a umem_scheme \<Rightarrow> registers_t option \<times> 'a umem_scheme" where
  "push_frame c regs sig info s =
     (let p = table s c
      in if sig_frames p \<ge> SIGNAL_MAX_FRAMES then (None, s)
         else let sp = frame_sp p sig (r_useresp regs)
              in case def_user_range_ok sp SIGFRAME_SIZE s of (ok, s1) \<Rightarrow>
                   if \<not> ok then (None, s1)
                   else let saved = (if sig_restore_mask p then sig_saved_mask p else sig_blocked p);
                            ret = (if sig_flags p sig AND SA_RESTORER \<noteq> 0 then sig_restorer p sig else sp + 84);
                            s2 = store_frame sp (sigframe sp sig info ret saved regs) s1;
                            reset = (sig_flags p sig AND SA_RESETHAND \<noteq> 0);
                            s3 = upd_proc c (\<lambda>p. p\<lparr>sig_restore_mask := False,
                                   sig_frame := (sig_frame p)(nat (sig_frames p) := sp), sig_frames := sig_frames p + 1,
                                   sig_blocked := mask_in_handler p sig,
                                   sig_handler := (if reset then (sig_handler p)(sig := SIG_DFL) else sig_handler p),
                                   sig_flags := (if reset then (sig_flags p)(sig := sig_flags p sig AND NOT SA_SIGINFO)
                                                 else sig_flags p)\<rparr>) s2
                        in (Some (regs\<lparr>r_useresp := sp, r_eip := sig_handler p sig, r_eax := of_nat sig,
                                       r_eflags := r_eflags regs AND NOT (EFLAGS_TF OR EFLAGS_DF)\<rparr>), s3))"

text \<open>The information about one signal taken off the process: queued with a value, or a plain one.\<close>

definition take_info :: "nat \<Rightarrow> nat \<Rightarrow> 'a sigs_scheme \<Rightarrow> k_siginfo_t \<times> 'a sigs_scheme" where
  "take_info c sig s =
     (case sigqueue_take (pid (table s c)) (int sig) s of
        (Some info, s1) \<Rightarrow> (info, s1)
      | (None, s1) \<Rightarrow>
          let p = table s1 c; from = sig_from p sig
          in (\<lparr>si_signo = int sig, si_error = 0, si_code = sig_code p sig, si_pid = from,
               si_uid = (if from \<noteq> 0 then (case process_get_by_pid from s1 of None \<Rightarrow> 0 | Some q \<Rightarrow> uid (table s1 q)) else 0),
               si_value = 0\<rparr>, s1))"

definition take_signal :: "nat \<Rightarrow> nat \<Rightarrow> 'a sigs_scheme \<Rightarrow> k_siginfo_t \<times> 'a sigs_scheme" where
  "take_signal c sig s =
     (case take_info c sig (upd_proc c (\<lambda>p. p\<lparr>p_signals := p_signals p AND NOT (SIG_BIT sig)\<rparr>) s) of (info, s1) \<Rightarrow>
        (info, if sigqueue_waiting (pid (table s1 c)) (int sig) s1
               then upd_proc c (\<lambda>p. p\<lparr>p_signals := p_signals p OR SIG_BIT sig\<rparr>) s1 else s1))"

text \<open>Where the loop of \<open>signal_deliver\<close> leaves the process: back in the program with these registers,
  stopped (the loop goes on when it continues), or ended.\<close>

datatype delivery = Return registers_t | Stopped | Ended

definition restore_mask :: "nat \<Rightarrow> 'a kernel_scheme \<Rightarrow> 'a kernel_scheme" where
  "restore_mask c s =
     (if sig_restore_mask (table s c)
      then upd_proc c (\<lambda>p. p\<lparr>sig_blocked := sig_saved_mask p, sig_restore_mask := False\<rparr>) s else s)"

definition deliver_one :: "nat \<Rightarrow> registers_t \<Rightarrow> nat \<Rightarrow> 'a sigs_scheme \<Rightarrow> delivery option \<times> 'a sigs_scheme" where
  "deliver_one c regs sig s =
     (case take_signal c sig s of (info, s1) \<Rightarrow>
        let handler = (if sig = SIGKILL then SIG_DFL else sig_handler (table s1 c) sig)
        in if handler = SIG_IGN then (None, s1)
           else if handler = SIG_DFL
           then (case default_action sig of
                   ACT_IGNORE \<Rightarrow> (None, s1)
                 | ACT_CONT \<Rightarrow> (None, s1)
                 | ACT_STOP \<Rightarrow> (Some Stopped, scheduler_yield (upd_proc c (\<lambda>p. p\<lparr>p_state := PROCESS_STATE_STOPPED\<rparr>) s1))
                 | ACT_CORE \<Rightarrow> (Some Ended, process_exit_with (int sig + CORE_DUMP) s1)
                 | ACT_TERM \<Rightarrow> (Some Ended, process_exit_with (int sig) s1))
           else (case push_frame c regs sig info s1 of
                   (None, s2) \<Rightarrow> (Some Ended, process_exit_with (int SIGSEGV) s2)
                 | (Some regs', s2) \<Rightarrow> (Some (Return regs'), restore_mask c s2)))"

text \<open>The loop ends: every round takes a queued value or a pending bit off the process.\<close>

definition pending_set :: "nat \<Rightarrow> 'a kernel_scheme \<Rightarrow> nat set" where
  "pending_set c s = {n. n < 32 \<and> bit (p_signals (table s c)) n}"

definition queued_set :: "'a sigs_scheme \<Rightarrow> nat set" where
  "queued_set s = {i. i < SIGQUEUE_SIZE \<and> q_used (pool s i)}"

definition deliver_work :: "nat \<Rightarrow> 'a sigs_scheme \<Rightarrow> nat" where
  "deliver_work c s = 33 * card (queued_set s) + card (pending_set c s)"

lemma SIG_BIT_and: "m AND SIG_BIT n \<noteq> 0 \<longleftrightarrow> n < 32 \<and> bit m n"
  by (auto simp: SIG_BIT_def and_exp_eq_0_iff_not_bit bit_simps dest: bit_imp_le_length)

lemma bit_SIG_BIT [simp]: "bit (SIG_BIT n) k \<longleftrightarrow> k = n \<and> n < 32"
  by (auto simp: SIG_BIT_def bit_simps)

lemma lowest_bit_set:
  assumes "lowest_bit m = sig" and "sig \<noteq> 0"
  shows "bit m sig" and "1 \<le> sig" and "sig < 32"
  using assms by (auto simp: lowest_bit_def SIG_BIT_and SIGNAL_COUNT_def find_Some_iff split: option.splits)

lemma take_info_cases:
  assumes "take_info c sig s = (info, s')"
  shows "table s' = table s" and "queued_set s' \<subset> queued_set s \<or> (queued_set s' = queued_set s \<and> \<not> sigqueue_waiting (pid (table s' c)) (int sig) s')"
proof -
  let ?f = "fold (older_of (pid (table s c)) (int sig) (pool s)) [0..<SIGQUEUE_SIZE] None"
  show "table s' = table s"
    using assms by (auto simp: take_info_def sigqueue_take_def Let_def split: option.splits)
  show "queued_set s' \<subset> queued_set s \<or> (queued_set s' = queued_set s \<and> \<not> sigqueue_waiting (pid (table s' c)) (int sig) s')"
  proof (cases ?f)
    case None
    then have "s' = s" using assms by (auto simp: take_info_def sigqueue_take_def Let_def)
    then show ?thesis
      using sq.fold_None [OF None] by (simp add: sigqueue_waiting_def list_ex_iff)
  next
    case (Some i)
    then have "s' = s\<lparr>pool := (pool s)(i := (pool s i)\<lparr>q_used := False\<rparr>)\<rparr>"
      using assms by (auto simp: take_info_def sigqueue_take_def)
    then have "queued_set s' = queued_set s - {i}" by (auto simp: queued_set_def)
    moreover have "i \<in> queued_set s" using sq.fold_Some(1,2) [OF Some] by (auto simp: queued_set_def queued_for_def)
    ultimately show ?thesis by blast
  qed
qed

lemma queued_set_upd [simp]: "queued_set (upd_proc c f s) = queued_set s"
  by (simp add: queued_set_def upd_proc_def)

lemma finite_work [simp]: "finite (queued_set s)" "finite (pending_set c s)" "card (pending_set c s) \<le> 32"
  using card_mono [of "{..<32}" "pending_set c s"] by (auto simp: queued_set_def pending_set_def)

lemma take_signal_work:
  assumes "take_signal c sig s = (info, s')" and "bit (p_signals (table s c)) sig" and "sig < 32"
  shows "deliver_work c s' < deliver_work c s"
proof -
  let ?s0 = "upd_proc c (\<lambda>p. p\<lparr>p_signals := p_signals p AND NOT (SIG_BIT sig)\<rparr>) s"
  obtain s1 where i: "take_info c sig ?s0 = (info, s1)"
    and s': "s' = (if sigqueue_waiting (pid (table s1 c)) (int sig) s1
               then upd_proc c (\<lambda>p. p\<lparr>p_signals := p_signals p OR SIG_BIT sig\<rparr>) s1 else s1)"
    using assms(1) by (auto simp: take_signal_def split: prod.splits)
  note r = take_info_cases [OF i]
  have q: "queued_set s' = queued_set s1" by (simp add: s')
  show ?thesis
  proof (cases "queued_set s1 \<subset> queued_set ?s0")
    case True
    then have "card (queued_set s') < card (queued_set s)" using q psubset_card_mono [OF finite_work(1)] by simp
    then show ?thesis using finite_work(3) [of c s'] unfolding deliver_work_def by linarith
  next
    case False
    then have w: "queued_set s' = queued_set s" "s' = s1" using r(2) q s' by auto
    have "pending_set c s' \<subset> pending_set c s"
      using assms(2,3) r(1) w(2) by (auto simp: pending_set_def bit_simps)
    then have "card (pending_set c s') < card (pending_set c s)" by (simp add: psubset_card_mono)
    then show ?thesis by (simp add: deliver_work_def w(1))
  qed
qed

lemma deliver_one_None: "deliver_one c regs sig s = (None, s') \<Longrightarrow> snd (take_signal c sig s) = s'"
  by (auto simp: deliver_one_def Let_def split: prod.splits if_splits sig_action_t.splits option.splits)

lemma deliverable_pending: "bit (signal_deliverable (Some p)) n \<Longrightarrow> bit (p_signals p) n"
  by (simp add: signal_deliverable_def bit_simps)

lemma deliver_work_decreases:
  assumes "lowest_bit (signal_deliverable (Some (table s c))) = sig" and "sig \<noteq> 0"
    and "deliver_one c regs sig s = (None, s')"
  shows "deliver_work c s' < deliver_work c s"
proof -
  obtain info s1 where t: "take_signal c sig s = (info, s1)" by fastforce
  then have "s1 = s'" using deliver_one_None [OF assms(3)] by simp
  then show ?thesis using take_signal_work [OF t] lowest_bit_set [OF assms(1,2)] deliverable_pending by blast
qed

function deliver_loop :: "nat \<Rightarrow> registers_t \<Rightarrow> 'a sigs_scheme \<Rightarrow> delivery \<times> 'a sigs_scheme" where
  "deliver_loop c regs s =
     (let sig = lowest_bit (signal_deliverable (Some (table s c)))
      in if sig = 0 then (Return regs, restore_mask c s)
         else case deliver_one c regs sig s of
                (Some d, s') \<Rightarrow> (d, s')
              | (None, s') \<Rightarrow> deliver_loop c regs s')"
  by pat_completeness auto
termination
  by (relation "measure (\<lambda>(c, _, s). deliver_work c s)") (auto intro: deliver_work_decreases dest: sym)

declare deliver_loop.simps [simp del]

definition signal_deliver :: "registers_t \<Rightarrow> 'a sigs_scheme \<Rightarrow> delivery \<times> 'a sigs_scheme" where
  "signal_deliver regs s =
     (case current s of
        None \<Rightarrow> (Return regs, s)
      | Some c \<Rightarrow> if is_system (table s c) then (Return regs, s) else deliver_loop c regs s)"

section \<open>Return from a handler\<close>

definition SIGFRAME_USER_EFLAGS :: u32 where "SIGFRAME_USER_EFLAGS = 0x00050DD5"
definition SIGFRAME_FIXED_EFLAGS :: u32 where "SIGFRAME_FIXED_EFLAGS = 0x00000202"

record sigcontext_t =
  c_eax :: u32
  c_ebx :: u32
  c_ecx :: u32
  c_edx :: u32
  c_esi :: u32
  c_edi :: u32
  c_ebp :: u32
  c_esp :: u32
  c_eip :: u32
  c_eflags :: u32
  c_blocked :: u32

definition read_context :: "u32 \<Rightarrow> 'a vmm_scheme \<Rightarrow> sigcontext_t" where
  "read_context frame s =
     (let w = (\<lambda>k. user_word (frame + 40 + 4 * k) s)
      in \<lparr>c_eax = w 0, c_ebx = w 1, c_ecx = w 2, c_edx = w 3, c_esi = w 4, c_edi = w 5, c_ebp = w 6, c_esp = w 7,
          c_eip = w 8, c_eflags = w 9, c_blocked = w 10\<rparr>)"

text \<open>The whole rule: the refusal, or the PCB with the frame used up and the cleaned context.\<close>

definition check_frame :: "process_t \<Rightarrow> u32 \<Rightarrow> sigcontext_t \<Rightarrow> string + (process_t \<times> sigcontext_t)" where
  "check_frame p frame ctx =
     (if sig_frames p \<le> 0 \<or> sig_frame p (nat (sig_frames p - 1)) \<noteq> frame
      then Inl ''rt_sigreturn without a signal frame (forged)''
      else if \<not> user_address (c_eip ctx) \<or> \<not> user_address (c_esp ctx) then Inl ''rt_sigreturn to a kernel address''
      else Inr (p\<lparr>sig_frames := sig_frames p - 1\<rparr>,
                ctx\<lparr>c_eflags := (c_eflags ctx AND SIGFRAME_USER_EFLAGS) OR SIGFRAME_FIXED_EFLAGS\<rparr>))"

definition def_sigframe_check :: "nat \<Rightarrow> u32 \<Rightarrow> sigcontext_t \<Rightarrow> 'a audit_scheme \<Rightarrow> sigcontext_t option \<times> 'a audit_scheme" where
  "def_sigframe_check c frame ctx s =
     (case check_frame (table s c) frame ctx of
        Inr (p, ctx') \<Rightarrow> (Some ctx', upd_proc c (\<lambda>_. p) s)
      | Inl why \<Rightarrow> (None, audit_log ''sigframe_check'' why s))"

definition sys_rt_sigreturn :: "registers_t \<Rightarrow> 'a sigs_scheme \<Rightarrow> (u32 \<times> registers_t) option \<times> 'a sigs_scheme" where
  "sys_rt_sigreturn regs s =
     (case current s of
        None \<Rightarrow> (Some (-1, regs), s)
      | Some c \<Rightarrow>
          if r_cs regs AND 3 \<noteq> 3 then (Some (-1, regs), s)
          else let frame = r_useresp regs - 4
               in case def_user_range_ok frame SIGFRAME_SIZE s of (ok, s1) \<Rightarrow>
                    if \<not> ok then (None, process_exit_with (int SIGSEGV) s1)
                    else case def_sigframe_check c frame (read_context frame s1) s1 of
                           (None, s2) \<Rightarrow> (None, process_exit_with (int SIGSEGV) s2)
                         | (Some ctx, s2) \<Rightarrow>
                             (Some (c_eax ctx, regs\<lparr>r_ebx := c_ebx ctx, r_ecx := c_ecx ctx, r_edx := c_edx ctx, r_esi := c_esi ctx,
                                r_edi := c_edi ctx, r_ebp := c_ebp ctx, r_useresp := c_esp ctx, r_eip := c_eip ctx,
                                r_eflags := c_eflags ctx\<rparr>),
                              upd_proc c (\<lambda>p. p\<lparr>sig_blocked := c_blocked ctx AND NOT SIG_UNBLOCKABLE\<rparr>) s2))"

section \<open>Waiting for a signal\<close>

definition sys_rt_sigpending :: "bool \<Rightarrow> u32 \<Rightarrow> 'a kernel_scheme \<Rightarrow> u32 option" where
  "sys_rt_sigpending has_set sigsetsize s =
     (case current_process s of
        None \<Rightarrow> None
      | Some p \<Rightarrow> if \<not> has_set \<or> (sigsetsize \<noteq> 4 \<and> sigsetsize \<noteq> 8) then None else Some (p_signals p))"

text \<open>\<open>rt_sigsuspend\<close> up to its loop, which naps until a signal is deliverable.\<close>

definition sigsuspend_enter :: "u32 option \<Rightarrow> u32 \<Rightarrow> 'a kernel_scheme \<Rightarrow> bool \<times> 'a kernel_scheme" where
  "sigsuspend_enter m sigsetsize s =
     (case (current s, m) of
        (Some c, Some w) \<Rightarrow>
          if sigsetsize \<noteq> 4 \<and> sigsetsize \<noteq> 8 then (False, s)
          else (True, upd_proc c (\<lambda>p. p\<lparr>sig_saved_mask := sig_blocked p, sig_restore_mask := True,
                                        sig_blocked := w AND NOT SIG_UNBLOCKABLE\<rparr>) s)
      | _ \<Rightarrow> (False, s))"

definition sigwait_take :: "nat \<Rightarrow> u32 \<Rightarrow> 'a sigs_scheme \<Rightarrow> (nat \<times> k_siginfo_t) option \<times> 'a sigs_scheme" where
  "sigwait_take c want s =
     (let sig = lowest_bit (p_signals (table s c) AND want)
      in if sig = 0 then (None, s)
         else let (info, s1) = (case sigqueue_take (pid (table s c)) (int sig) s of
                    (Some i, s1) \<Rightarrow> (i, s1)
                  | (None, s1) \<Rightarrow> (\<lparr>si_signo = int sig, si_error = 0, si_code = sig_code (table s1 c) sig,
                      si_pid = sig_from (table s1 c) sig, si_uid = 0, si_value = 0\<rparr>, s1))
              in (Some (sig, info),
                  if sigqueue_waiting (pid (table s1 c)) (int sig) s1 then s1
                  else upd_proc c (\<lambda>p. p\<lparr>p_signals := p_signals p AND NOT (SIG_BIT sig)\<rparr>) s1))"

text \<open>One round of the loop of \<open>rt_sigtimedwait\<close>; \<open>Again\<close> naps and tries again. \<open>until\<close> is the tick the wait ends at.\<close>

datatype sigwait = Taken nat k_siginfo_t | Interrupted | TimedOut | Again

definition sigwait_round :: "nat \<Rightarrow> u32 \<Rightarrow> u32 option \<Rightarrow> 'a sigs_scheme \<Rightarrow> sigwait \<times> 'a sigs_scheme" where
  "sigwait_round c want until s =
     (case sigwait_take c want s of
        (Some (sig, info), s1) \<Rightarrow> (Taken sig info, s1)
      | (None, s1) \<Rightarrow>
          if signal_deliverable (Some (table s1 c)) AND NOT want \<noteq> 0 then (Interrupted, s1)
          else case until of
                 Some e \<Rightarrow> if 0 \<le>s timer_ticks s1 - e then (TimedOut, s1) else (Again, s1)
               | None \<Rightarrow> (Again, s1))"

definition sigwait_begin :: "u32 option \<Rightarrow> (u32 \<times> u32) option \<Rightarrow> u32 \<Rightarrow> 'a sigs_scheme \<Rightarrow>
    (u32 \<times> u32 option) option \<times> 'a sigs_scheme" where
  "sigwait_begin st timeout sigsetsize s =
     (case (current s, st) of
        (Some c, Some m) \<Rightarrow>
          if sigsetsize \<noteq> 4 \<and> sigsetsize \<noteq> 8 then (None, s)
          else (case timeout of
                  None \<Rightarrow> (Some (m AND NOT SIG_UNBLOCKABLE, None), s)
                | Some (sec, nsec) \<Rightarrow>
                    (case def_sleep_time_ticks sec nsec 1000000000 s of
                       (None, s1) \<Rightarrow> (None, s1)
                     | (Some ticks, s1) \<Rightarrow> (Some (m AND NOT SIG_UNBLOCKABLE, Some (timer_ticks s1 + ticks)), s1)))
      | _ \<Rightarrow> (None, s))"

section \<open>Words in the memory of the program\<close>

text \<open>The pages of the program have frames of their own: none of the paging structures, no two pages the same.\<close>

definition user_apart :: "'a vmm_scheme \<Rightarrow> bool" where
  "user_apart s \<longleftrightarrow> vmm_inv s \<and> paging_on s \<and>
     (\<forall>a. user_address a \<longrightarrow> pte_at a s AND PAGE_PRESENT \<noteq> 0 \<longrightarrow> frame_of a s \<notin> table_frames s) \<and>
     (\<forall>a b. user_address a \<longrightarrow> user_address b \<longrightarrow> pte_at a s AND PAGE_PRESENT \<noteq> 0 \<longrightarrow> pte_at b s AND PAGE_PRESENT \<noteq> 0 \<longrightarrow>
        frame_of a s = frame_of b s \<longrightarrow> same_page a b)"

definition user_cell :: "u32 \<Rightarrow> 'a vmm_scheme \<Rightarrow> bool" where
  "user_cell a s \<longleftrightarrow> user_address a \<and> pte_at a s AND PAGE_PRESENT \<noteq> 0 \<and> unat a mod 4 = 0"

lemma user_cell_dir: "user_address a \<Longrightarrow> dir_index a < 1023"
proof -
  assume "user_address a"
  then have "unat a < 0xC0000000" by (simp add: user_address_def USER_SPACE_END_def word_less_nat_alt)
  then show ?thesis by (simp add: dir_index_eq)
qed

lemma cell_index: "unat (a mod PAGE_SIZE div 4) = unat a mod 4096 div 4" for a :: u32
  by (simp add: unat_div unat_mod PAGE_SIZE_def)

lemma same_cell:
  assumes "same_page a b" and "unat a mod 4 = 0" and "unat b mod 4 = 0"
    and "unat a mod 4096 div 4 = unat b mod 4096 div (4 :: nat)"
  shows "a = b"
proof -
  have d: "unat a div 4096 = unat b div 4096"
    using assms(1) by (simp add: same_page_def word_unat_eq_iff unat_page)
  have "x mod 4096 = 4 * (x mod 4096 div 4)" if "x mod 4 = 0" for x :: nat
  proof -
    have "x mod 4096 mod 4 = 0" using that mod_mod_cancel [of 4 4096 x] by simp
    then show ?thesis using mult_div_mod_eq [of 4 "x mod 4096"] by simp
  qed
  then have "unat a mod 4096 = unat b mod 4096" using assms(2-4) by metis
  then have "unat a = unat b" using d div_mult_mod_eq [of "unat a" 4096] div_mult_mod_eq [of "unat b" 4096] by linarith
  then show ?thesis by (rule iffD2 [OF word_unat_eq_iff])
qed

lemma user_cell_word:
  "user_apart s \<Longrightarrow> user_cell a s \<Longrightarrow> user_word a s = mem s (frame_of a s) (unat a mod 4096 div 4)"
  by (simp add: user_word_def peek_def mmu_user_page user_apart_def user_cell_def cell_index)

lemma user_store_result:
  assumes "user_apart s" and "user_cell a s"
  shows "user_apart (user_store a v s)" and "user_address b \<Longrightarrow> pte_at b (user_store a v s) = pte_at b s"
    and "user_cell b (user_store a v s) = user_cell b s"
    and "user_cell b s \<Longrightarrow> user_word b (user_store a v s) = (if a = b then v else user_word b s)"
    and "user_store a v s = s\<lparr>mem := mem (user_store a v s)\<rparr>"
proof -
  let ?f = "frame_of a s"
  define g where "g = (mem s ?f)(unat a mod 4096 div 4 := v)"
  have e: "user_store a v s = s\<lparr>mem := (mem s)(?f := g)\<rparr>"
    using assms by (simp add: user_store_def poke_def mmu_user_page user_apart_def user_cell_def cell_index write_mem_def g_def)
  have i: "vmm_inv s" "?f \<notin> table_frames s" using assms by (simp_all add: user_apart_def user_cell_def)
  note w = write_loose [OF i]
  show p: "user_address b \<Longrightarrow> pte_at b (user_store a v s) = pte_at b s" for b
    using w(1) user_cell_dir by (simp add: e)
  then have fr: "user_address b \<Longrightarrow> frame_of b (user_store a v s) = frame_of b s" for b by (simp add: frame_of_def)
  show c: "user_cell b (user_store a v s) = user_cell b s" for b using p [of b] by (auto simp: user_cell_def)
  have po: "paging_on (user_store a v s) = paging_on s" by (simp add: e)
  have tf: "table_frames (user_store a v s) = table_frames s" "vmm_inv (user_store a v s)" using w(2,3) by (simp_all add: e)
  show ap: "user_apart (user_store a v s)"
    using assms(1) p fr unfolding user_apart_def po tf(1) by (simp add: tf(2))
  show "user_cell b s \<Longrightarrow> user_word b (user_store a v s) = (if a = b then v else user_word b s)"
  proof -
    assume b: "user_cell b s"
    have ub: "user_address b" using b by (simp add: user_cell_def)
    have same: "frame_of b s = ?f \<Longrightarrow> same_page a b" using assms b by (simp add: user_apart_def user_cell_def)
    have "user_word b (user_store a v s) = mem (user_store a v s) (frame_of b s) (unat b mod 4096 div 4)"
      using user_cell_word [OF ap] c b fr [OF ub] by simp
    then show ?thesis
      using user_cell_word [OF assms(1) b] same same_cell [of a b] assms(2) b
      by (auto simp: e g_def user_cell_def)
  qed
  show "user_store a v s = s\<lparr>mem := mem (user_store a v s)\<rparr>" by (simp add: e)
qed

lemma store_cells:
  fixes s :: "'a vmm_scheme" and f v :: "nat \<Rightarrow> u32"
  assumes "user_apart s" and "\<forall>k \<in> set ks. user_cell (f k) s" and "distinct (map f ks)"
  defines "s' \<equiv> fold (\<lambda>k. user_store (f k) (v k)) ks s"
  shows "user_apart s' \<and> (\<forall>b. user_cell b s' = user_cell b s) \<and>
     (\<forall>k \<in> set ks. user_word (f k) s' = v k) \<and> (\<forall>b. user_cell b s \<longrightarrow> b \<notin> f ` set ks \<longrightarrow> user_word b s' = user_word b s) \<and>
     s' = s\<lparr>mem := mem s'\<rparr> \<and> (\<forall>b. user_address b \<longrightarrow> pte_at b s' = pte_at b s)"
  using assms(1-3) unfolding s'_def
proof (induction ks arbitrary: s)
  case (Cons k ks)
  let ?s = "user_store (f k) (v k) s"
  let ?s' = "fold (\<lambda>k. user_store (f k) (v k)) ks ?s"
  have k: "user_cell (f k) s" using Cons.prems by simp
  note r = user_store_result [OF Cons.prems(1) k]
  have ih: "user_apart ?s' \<and> (\<forall>b. user_cell b ?s' = user_cell b ?s) \<and>
     (\<forall>k \<in> set ks. user_word (f k) ?s' = v k) \<and> (\<forall>b. user_cell b ?s \<longrightarrow> b \<notin> f ` set ks \<longrightarrow> user_word b ?s' = user_word b ?s) \<and>
     ?s' = ?s\<lparr>mem := mem ?s'\<rparr> \<and> (\<forall>b. user_address b \<longrightarrow> pte_at b ?s' = pte_at b ?s)"
    using Cons.prems r(1,3) by (intro Cons.IH) auto
  have "user_word (f k) ?s' = v k" using ih k Cons.prems(3) r(3,4) by auto
  moreover have "\<forall>b. user_cell b s \<longrightarrow> b \<notin> f ` set (k # ks) \<longrightarrow> user_word b ?s' = user_word b s"
    using ih r(3,4) by auto
  moreover have "?s' = s\<lparr>mem := mem ?s'\<rparr>"
    using ih by (subst conjunct1 [OF conjunct2 [OF conjunct2 [OF conjunct2 [OF conjunct2 [OF ih]]]]], subst r(5)) simp
  ultimately show ?case using ih r(2,3) by (simp only: fold.simps o_apply list.simps ball_simps) simp
qed (simp add: user_apart_def)

lemma user_store_pde:
  assumes "user_apart s" and "user_cell a s"
  shows "pde d (user_store a v s) = pde d s"
proof -
  have "frame_of a s \<noteq> directory s" using assms by (auto simp: user_apart_def user_cell_def table_frames_def)
  then show ?thesis
    using assms by (simp add: user_store_def poke_def mmu_user_page user_apart_def user_cell_def write_mem_def pde_def)
qed

lemma store_cells_pde:
  "user_apart s \<Longrightarrow> \<forall>k \<in> set ks. user_cell (f k) s \<Longrightarrow>
     pde d (fold (\<lambda>k. user_store (f k) (v k)) ks s) = pde d s"
  by (induction ks arbitrary: s) (simp_all add: user_store_result(1,3) user_store_pde)

lemma user_page_mapped_iff:
  "vmm_inv s \<Longrightarrow> user_page_mapped a s \<longleftrightarrow>
     pte_at a s AND PAGE_PRESENT \<noteq> 0 \<and> pde (dir_index a) s AND PAGE_USER \<noteq> 0 \<and> pte_at a s AND PAGE_USER \<noteq> 0"
  using peek_table [of s "dir_index a" "table_index a"] dir_index_less [of a]
  by (auto simp: user_page_mapped_def vmm_walk_def pte_at_def has_table_def Let_def)

section \<open>The frame is read back as it was written\<close>

lemma frame_sp_aligned: "unat (frame_sp p sig esp) mod 16 = 0"
proof -
  have "(15 :: u32) = Bit_Operations.mask 4" by (simp add: mask_eq_exp_minus_1)
  then have "take_bit 4 ((x :: u32) AND NOT 15) = 0" for x by (simp only: take_bit_eq_mask and.assoc) simp
  then have "unat (take_bit 4 (frame_sp p sig esp)) = 0" by (simp add: frame_sp_def Let_def)
  then show ?thesis by (simp add: take_bit_eq_mod unat_mod)
qed

lemma frame_cells:
  assumes "def_user_range_ok sp SIGFRAME_SIZE s = (True, s')" and "vmm_inv s" and "unat sp mod 16 = 0" and "k < 23"
  shows "user_cell (sp + 4 * of_nat k) s" and "unat (sp + 4 * of_nat k) = unat sp + 4 * k"
proof -
  have ok: "in_user_space sp SIGFRAME_SIZE" "\<forall>p \<in> set (range_pages sp SIGFRAME_SIZE). user_page_mapped p s"
    using assms(1) by (auto simp: def_user_range_ok_def list_all_iff split: if_splits)
  have k: "4 * k < unat SIGFRAME_SIZE" using assms(4) by (simp add: SIGFRAME_SIZE_def)
  have e: "sp + of_nat (4 * k) = sp + 4 * of_nat k" by simp
  note b = in_user_space_byte [OF ok(1) k, unfolded e]
  show u: "unat (sp + 4 * of_nat k) = unat sp + 4 * k" using b(1) .
  obtain p where "p \<in> set (range_pages sp SIGFRAME_SIZE)" "same_page (sp + of_nat (4 * k)) p"
    using range_pages_byte [OF ok(1) k] .
  then have "user_page_mapped (sp + 4 * of_nat k) s" using ok(2) user_page_mapped_same e by metis
  then have "fst (vmm_walk (sp + 4 * of_nat k) s)" by (auto simp: user_page_mapped_def)
  then have "pte_at (sp + 4 * of_nat k) s AND PAGE_PRESENT \<noteq> 0" using vmm_walk_pte(1) [OF assms(2)] by simp
  moreover have "unat sp mod 4 = 0" using assms(3) mod_mod_cancel [of 4 16 "unat sp"] by simp
  ultimately show "user_cell (sp + 4 * of_nat k) s"
    using b(2,3) u by (simp add: user_cell_def user_address_def)
qed

lemma store_frame_read:
  assumes "user_apart s" and "def_user_range_ok sp SIGFRAME_SIZE s = (True, s')" and "unat sp mod 16 = 0"
    and "length ws = 23"
  defines "t \<equiv> store_frame sp ws s"
  shows "k < 23 \<Longrightarrow> user_word (sp + 4 * of_nat k) t = ws ! k" and "t = s\<lparr>mem := mem t\<rparr>" and "user_apart t"
    and "user_address b \<Longrightarrow> pte_at b t = pte_at b s"
proof -
  note c = frame_cells [OF assms(2) _ assms(3)]
  have i: "vmm_inv s" using assms(1) by (simp add: user_apart_def)
  have "inj_on (\<lambda>k. sp + 4 * of_nat k) {0..<23}"
  proof (rule inj_onI)
    fix k l assume "k \<in> {0..<23}" "l \<in> {0..<23}" and e: "sp + 4 * of_nat k = sp + 4 * of_nat l"
    then have k: "k < 23" and l: "l < 23" by simp_all
    have "unat sp + 4 * k = unat sp + 4 * l"
      unfolding c(2) [OF i k, symmetric] c(2) [OF i l, symmetric] by (rule arg_cong [OF e])
    then show "k = l" by linarith
  qed
  then have d: "distinct (map (\<lambda>k. sp + 4 * of_nat k) [0..<23])" by (simp add: distinct_map)
  note r = store_cells [OF assms(1) _ d, of "\<lambda>k. ws ! k", folded assms(4)]
  have t: "t = fold (\<lambda>k. user_store (sp + 4 * of_nat k) (ws ! k)) [0..<length ws] s" by (simp add: t_def store_frame_def)
  have cells: "\<forall>k \<in> set [0..<length ws]. user_cell (sp + 4 * of_nat k) s" using c(1) [OF i] assms(4) by simp
  note r = r [OF cells, folded t]
  show "k < 23 \<Longrightarrow> user_word (sp + 4 * of_nat k) t = ws ! k" using r assms(4) by simp
  show "t = s\<lparr>mem := mem t\<rparr>" using r by blast
  show "user_apart t" "user_address b \<Longrightarrow> pte_at b t = pte_at b s" using r by simp_all
qed

lemma read_stored_context:
  assumes "user_apart s" and "def_user_range_ok sp SIGFRAME_SIZE s = (True, s')" and "unat sp mod 16 = 0"
  shows "read_context sp (store_frame sp (sigframe sp sig info ret blocked regs) s) =
     \<lparr>c_eax = r_eax regs, c_ebx = r_ebx regs, c_ecx = r_ecx regs, c_edx = r_edx regs, c_esi = r_esi regs,
      c_edi = r_edi regs, c_ebp = r_ebp regs, c_esp = r_useresp regs, c_eip = r_eip regs, c_eflags = r_eflags regs,
      c_blocked = blocked\<rparr>"
proof -
  let ?ws = "sigframe sp sig info ret blocked regs"
  have w: "user_word (sp + 4 * of_nat k) (store_frame sp ?ws s) = ?ws ! k" if "k < 23" for k
    using store_frame_read(1) [OF assms _ that] by (simp add: sigframe_def)
  show ?thesis
    using w [of 10] w [of 11] w [of 12] w [of 13] w [of 14] w [of 15] w [of 16] w [of 17] w [of 18] w [of 19] w [of 20]
    by (simp add: read_context_def Let_def sigframe_def add.assoc)
qed

section \<open>Handlers return to where the program was\<close>

lemma user_word_upd [simp]: "user_word a (upd_proc c f s) = user_word a s"
  by (simp add: user_word_def peek_def mmu_def pde_def upd_proc_def Let_def)

lemma read_context_upd [simp]: "read_context a (upd_proc c f s) = read_context a s"
  by (simp add: read_context_def)

lemma upd_proc_vmm:
  "vmm_inv (upd_proc c f s) = vmm_inv s" "user_page_mapped a (upd_proc c f s) = user_page_mapped a s"
  by (simp_all add: upd_proc_def vmm_inv_def pmm_inv_def is_used_def pmm_is_reserved_def owned_def frames_ram_def
      frames_used_def frames_pinned_def pde_def has_table_def table_frame_def user_page_mapped_def vmm_walk_def
      peek_def mmu_def table_at_def Let_def)

lemma push_frame_result:
  assumes "push_frame c regs sig info s = (Some regs', s')" and "user_apart s"
  defines "sp \<equiv> r_useresp regs'" and "p \<equiv> table s c"
  shows "sig_frames p < SIGNAL_MAX_FRAMES" and "sp = frame_sp p sig (r_useresp regs)"
    and "sig_frames (table s' c) = sig_frames p + 1" and "sig_frame (table s' c) (nat (sig_frames p)) = sp"
    and "sig_blocked (table s' c) = mask_in_handler p sig" and "r_eip regs' = sig_handler p sig"
    and "def_user_range_ok sp SIGFRAME_SIZE s = (True, s)"
    and "read_context sp s' =
     \<lparr>c_eax = r_eax regs, c_ebx = r_ebx regs, c_ecx = r_ecx regs, c_edx = r_edx regs, c_esi = r_esi regs,
      c_edi = r_edi regs, c_ebp = r_ebp regs, c_esp = r_useresp regs, c_eip = r_eip regs, c_eflags = r_eflags regs,
      c_blocked = (if sig_restore_mask p then sig_saved_mask p else sig_blocked p)\<rparr>"
proof -
  define q where "q = frame_sp p sig (r_useresp regs)"
  have n: "\<not> SIGNAL_MAX_FRAMES \<le> sig_frames p" using assms(1) by (auto simp: push_frame_def p_def)
  obtain ok s1 where r: "def_user_range_ok q SIGFRAME_SIZE s = (ok, s1)" by fastforce
  then have o: "ok" using assms(1) n by (cases ok) (auto simp: push_frame_def q_def p_def Let_def)
  then have s1: "s1 = s" using r by (auto simp: def_user_range_ok_def split: if_splits)
  define ret where "ret = (if sig_flags p sig AND SA_RESTORER \<noteq> 0 then sig_restorer p sig else q + 84)"
  define saved where "saved = (if sig_restore_mask p then sig_saved_mask p else sig_blocked p)"
  define u where "u = store_frame q (sigframe q sig info ret saved regs) s"
  have a: "unat q mod 16 = 0" by (simp add: q_def frame_sp_aligned)
  have rr: "def_user_range_ok q SIGFRAME_SIZE s = (True, s)" using r o s1 by simp
  have um: "u = s\<lparr>mem := mem u\<rparr>"
    unfolding u_def by (rule store_frame_read(2) [OF assms(2) rr a]) (simp add: sigframe_def)
  have "table u = table (s\<lparr>mem := mem u\<rparr>)" by (rule arg_cong [OF um])
  then have tu: "table u = table s" by simp
  have e: "regs' = regs\<lparr>r_useresp := q, r_eip := sig_handler p sig, r_eax := of_nat sig,
        r_eflags := r_eflags regs AND NOT (EFLAGS_TF OR EFLAGS_DF)\<rparr>"
    "\<exists>f. s' = upd_proc c f u \<and> sig_frames (f p) = sig_frames p + 1 \<and> sig_frame (f p) (nat (sig_frames p)) = q \<and>
        sig_blocked (f p) = mask_in_handler p sig"
    using assms(1) n rr unfolding push_frame_def Let_def p_def [symmetric] q_def [symmetric]
      saved_def [symmetric] ret_def [symmetric]
    by (auto simp: u_def)
  then have sp: "sp = q" by (simp add: sp_def)
  obtain f where f: "s' = upd_proc c f u" "sig_frames (f p) = sig_frames p + 1"
      "sig_frame (f p) (nat (sig_frames p)) = q" "sig_blocked (f p) = mask_in_handler p sig" using e(2) by blast
  show "sig_frames p < SIGNAL_MAX_FRAMES" "sp = frame_sp p sig (r_useresp regs)" "r_eip regs' = sig_handler p sig"
    "def_user_range_ok sp SIGFRAME_SIZE s = (True, s)"
    using n e(1) sp rr by (simp_all add: q_def)
  show "sig_frames (table s' c) = sig_frames p + 1" "sig_frame (table s' c) (nat (sig_frames p)) = sp"
    "sig_blocked (table s' c) = mask_in_handler p sig"
    using f sp tu by (simp_all add: p_def)
  have "read_context sp s' = read_context sp u" by (simp add: f(1))
  then show "read_context sp s' =
     \<lparr>c_eax = r_eax regs, c_ebx = r_ebx regs, c_ecx = r_ecx regs, c_edx = r_edx regs, c_esi = r_esi regs,
      c_edi = r_edi regs, c_ebp = r_ebp regs, c_esp = r_useresp regs, c_eip = r_eip regs, c_eflags = r_eflags regs,
      c_blocked = (if sig_restore_mask p then sig_saved_mask p else sig_blocked p)\<rparr>"
    using read_stored_context [OF assms(2) rr a] by (simp add: sp u_def saved_def)
qed


text \<open>C1: returning from a handler undoes the delivery. Delivery saves the program's registers and its signal
  mask on the program's own stack. When the handler has left that frame alone, whatever else it has done,
  \<open>rt_sigreturn\<close> gives back exactly the registers the program was interrupted with, the flags
  cleaned of everything privileged, and the mask without SIGKILL and SIGSTOP; the frame is used up.\<close>

theorem sigreturn_roundtrip:
  assumes "push_frame c regs sig info s = (Some regs', s')" and "user_apart s" and "0 \<le> sig_frames (table s c)"
    and "user_address (r_eip regs)" and "user_address (r_useresp regs)"
    and "current t = Some c" and "sig_frames (table t c) = sig_frames (table s' c)"
    and "sig_frame (table t c) = sig_frame (table s' c)"
    and "def_user_range_ok (r_useresp regs') SIGFRAME_SIZE t = (True, t)"
    and "read_context (r_useresp regs') t = read_context (r_useresp regs') s'"
    and "r_useresp now = r_useresp regs' + 4" and "r_cs now AND 3 = 3"
  shows "let saved = (if sig_restore_mask (table s c) then sig_saved_mask (table s c) else sig_blocked (table s c))
    in sys_rt_sigreturn now t =
      (Some (r_eax regs, now\<lparr>r_ebx := r_ebx regs, r_ecx := r_ecx regs, r_edx := r_edx regs, r_esi := r_esi regs,
          r_edi := r_edi regs, r_ebp := r_ebp regs, r_useresp := r_useresp regs, r_eip := r_eip regs,
          r_eflags := (r_eflags regs AND SIGFRAME_USER_EFLAGS) OR SIGFRAME_FIXED_EFLAGS\<rparr>),
       upd_proc c (\<lambda>p. p\<lparr>sig_frames := sig_frames (table s c), sig_blocked := saved AND NOT SIG_UNBLOCKABLE\<rparr>) t)"
proof -
  note r = push_frame_result [OF assms(1,2)]
  have "check_frame (table t c) (r_useresp regs') (read_context (r_useresp regs') t) =
     Inr ((table t c)\<lparr>sig_frames := sig_frames (table s c)\<rparr>,
       (read_context (r_useresp regs') t)\<lparr>c_eflags := (r_eflags regs AND SIGFRAME_USER_EFLAGS) OR SIGFRAME_FIXED_EFLAGS\<rparr>)"
    using assms(3-5,7,8,10) r(3,4,8) by (simp add: check_frame_def)
  then have "def_sigframe_check c (r_useresp regs') (read_context (r_useresp regs') t) t =
     (Some ((read_context (r_useresp regs') t)\<lparr>c_eflags := (r_eflags regs AND SIGFRAME_USER_EFLAGS) OR SIGFRAME_FIXED_EFLAGS\<rparr>),
      upd_proc c (\<lambda>_. (table t c)\<lparr>sig_frames := sig_frames (table s c)\<rparr>) t)"
    by (simp add: def_sigframe_check_def)
  then show ?thesis
    using assms(6,9,10,11,12) r(8) by (simp add: sys_rt_sigreturn_def Let_def upd_proc_def)
qed

section \<open>An example\<close>

text \<open>The machine of \<open>small_sigs\<close> with one page of the program at 0x60000000: its table is frame 0x3000, its
  frame 0x4000. The process on the CPU has a handler for signal 10.\<close>

definition framed :: sigs where
  "framed = small_sigs\<lparr>bitmap := (\<lambda>i. if i = 0 then 31 else 0), used_frames := 5,
     mem := (\<lambda>f i. if f = 0x2000 \<and> i = 1023 then 0x2003 else if f = 0x2000 \<and> i = 384 then 0x3007
               else if f = 0x3000 \<and> i = 0 then 0x4007 else 0),
     table := (table small_sigs)(1 := (table small_sigs 1)\<lparr>sig_handler := (\<lambda>_. 0x08001000)\<rparr>)\<rparr>"

lemma framed_fields [simp]:
  "bitmap framed = (\<lambda>i. if i = 0 then 31 else 0)" "total_frames framed = 16" "used_frames framed = 5"
  "reserved framed = (\<lambda>_. (0, 2))" "reserved_count framed = 1" "directory framed = 0x2000" "paging_on framed"
  "\<not> halted framed" "current framed = Some 1"
  "mem framed = (\<lambda>f i. if f = 0x2000 \<and> i = 1023 then 0x2003 else if f = 0x2000 \<and> i = 384 then 0x3007
     else if f = 0x3000 \<and> i = 0 then 0x4007 else 0)"
  "table framed (Suc 0) = (example_proc 2 PROCESS_STATE_RUNNING 7 0)\<lparr>sig_handler := (\<lambda>_. 0x08001000)\<rparr>"
  by (simp_all add: framed_def small_sigs_def small_tasks_def small_sched_def umem.defs sched.defs tasks.defs sigs.defs
      small_umem_def small_heap_def vmm.defs kheap.defs)

lemma framed_used: "is_used f framed \<longleftrightarrow> f < 5"
proof -
  have "(bit (if f div 8 = 0 then 31 else 0 :: u8) (f mod 8)) \<longleftrightarrow> f < 5"
  proof (cases "f div 8 = 0")
    case True
    then have "f mod 8 = f" by simp
    moreover have "mask 5 = (31 :: u8)" by (simp add: mask_eq_exp_minus_1)
    ultimately show ?thesis using True bit_mask_u8 [of 5 f] by fastforce
  qed auto
  then show ?thesis by (simp add: is_used_bit)
qed

lemma framed_table: "has_table d framed \<longleftrightarrow> d = 384 \<or> d = 1023" "table_frame 384 framed = 0x3000"
  by (auto simp: has_table_def pde_def table_frame_def PAGE_PRESENT_def PAGE_FLAGS_def)

lemma framed_pte: "pte_at v framed \<noteq> 0 \<Longrightarrow> dir_index v \<noteq> 1023 \<Longrightarrow>
    dir_index v = 384 \<and> table_index v = 0 \<and> pte_at v framed = 0x4007"
  by (auto simp: pte_at_def framed_table split: if_splits)

lemma framed_inv: "vmm_inv framed"
proof -
  have "{f. f < 16 \<and> f < 5} = {..<5 :: nat}" by auto
  then have "pmm_inv framed"
    by (auto simp: pmm_inv_def pmm_is_reserved_iff framed_used word_less_nat_alt)
  moreover have "0x2000 \<in> owned framed" "0x3000 \<in> owned framed"
    by (simp_all add: owned_def frames_ram_def frames_used_def frames_pinned_def PAGE_SIZE_def framed_used
        pmm_is_reserved_iff)
  ultimately show ?thesis
    by (auto simp: vmm_inv_def framed_table inj_on_def) (simp add: pde_def PAGE_PRESENT_def PAGE_WRITABLE_def)
qed

lemma framed_apart: "user_apart framed"
proof -
  have "frame_of a framed = 0x4000 \<and> dir_index a = 384 \<and> table_index a = 0"
    if "user_address a" "pte_at a framed AND PAGE_PRESENT \<noteq> 0" for a
  proof -
    have "pte_at a framed \<noteq> 0" using that(2) by auto
    then show ?thesis using framed_pte [of a] user_cell_dir [OF that(1)] by (simp add: frame_of_def PAGE_FLAGS_def)
  qed
  moreover have "0x4000 \<notin> table_frames framed" by (auto simp: table_frames_def framed_table)
  ultimately show ?thesis
    using framed_inv unfolding user_apart_def same_page_iff by (metis framed_fields(7))
qed

definition example_regs :: registers_t where
  "example_regs = \<lparr>r_ds = 0x23, r_edi = 1, r_esi = 2, r_ebp = 3, r_esp = 0, r_ebx = 4, r_edx = 5, r_ecx = 6, r_eax = 7,
     r_int_no = 32, r_err_code = 0, r_eip = 0x08000100, r_cs = 0x1B, r_eflags = 0x202, r_useresp = 0x60000800, r_ss = 0x23\<rparr>"

lemma framed_range: "user_page_mapped 0x60000000 s \<Longrightarrow> def_user_range_ok 0x600007A0 SIGFRAME_SIZE s = (True, s)"
  by (simp add: def_user_range_ok_def in_user_space_def range_pages_def page_of_def PAGE_SIZE_def SIGFRAME_SIZE_def
      USER_SPACE_START_def USER_SPACE_END_def)

lemma framed_sp: "frame_sp (table framed 1) 10 (r_useresp example_regs) = 0x600007A0"
  by (simp add: frame_sp_def example_proc_def limited_proc_def rlimit_defaults_def def_pcb_wipe_def SIGFRAME_SIZE_def
      example_regs_def)

lemma framed_mapped: "user_page_mapped 0x60000000 framed"
  by (simp add: user_page_mapped_iff framed_inv pte_at_def framed_table dir_index_def table_index_def pde_def
      PAGE_PRESENT_def PAGE_USER_def)

lemma framed_frames: "sig_frames (table framed 1) = 0"
  by (simp add: example_proc_def limited_proc_def rlimit_defaults_def def_pcb_wipe_def)

lemma framed_push: "fst (push_frame 1 example_regs 10 zero_info framed) \<noteq> None"
  unfolding push_frame_def framed_sp Let_def framed_range [OF framed_mapped] framed_frames
  by (simp add: SIGNAL_MAX_FRAMES_def)

lemma store_frame_current [simp]: "current (store_frame a ws s) = current s"
proof -
  have "current (fold (\<lambda>k. user_store (f k) (v k)) ks s) = current s" for f v and ks :: "nat list"
    by (induction ks arbitrary: s) (simp_all add: user_store_def poke_def write_mem_def split: option.split)
  then show ?thesis by (simp add: store_frame_def)
qed

lemma push_frame_current: "push_frame c regs sig info s = (r, s') \<Longrightarrow> current s' = current s"
  by (auto simp: push_frame_def def_user_range_ok_def Let_def split: if_splits)

lemma push_frame_mapped:
  assumes "push_frame c regs sig info s = (Some regs', s')" and "user_apart s"
  shows "vmm_inv s' \<and> (user_address a \<longrightarrow> user_page_mapped a s' = user_page_mapped a s)"
proof -
  define q where "q = frame_sp (table s c) sig (r_useresp regs)"
  note r = push_frame_result [OF assms]
  have q: "r_useresp regs' = q" using r(2) by (simp add: q_def)
  have rr: "def_user_range_ok q SIGFRAME_SIZE s = (True, s)" using r(7) q by simp
  obtain ret saved f where s': "s' = upd_proc c f (store_frame q (sigframe q sig info ret saved regs) s)"
    using assms(1) r(1) rr unfolding push_frame_def Let_def q_def [symmetric] by auto
  define u where "u = store_frame q (sigframe q sig info ret saved regs) s"
  have a: "unat q mod 16 = 0" by (simp add: q_def frame_sp_aligned)
  have l: "length (sigframe q sig info ret saved regs) = 23" by (simp add: sigframe_def)
  note w = store_frame_read [OF assms(2) rr a l, folded u_def]
  have i: "vmm_inv s" using assms(2) by (simp add: user_apart_def)
  have "pde d u = pde d s" for d
    unfolding u_def store_frame_def l using frame_cells(1) [OF rr i a] by (intro store_cells_pde assms(2)) auto
  then have "user_page_mapped a u = user_page_mapped a s" if "user_address a"
    using user_page_mapped_iff [OF i] user_page_mapped_iff [of u] w(3,4) that by (simp add: user_apart_def)
  moreover have "vmm_inv s' = vmm_inv u" "user_page_mapped a s' = user_page_mapped a u"
    unfolding s' u_def [symmetric] by (rule upd_proc_vmm)+
  moreover have "vmm_inv u" using w(3) by (simp add: user_apart_def)
  ultimately show ?thesis by blast
qed

theorem sigreturn_roundtrip_witness:
  "let r = push_frame 1 example_regs 10 zero_info framed;
       back = sys_rt_sigreturn ((the (fst r))\<lparr>r_useresp := 0x600007A4\<rparr>) (snd r)
   in r_eip (the (fst r)) = 0x08001000 \<and> r_eip (snd (the (fst back))) = 0x08000100 \<and> fst (the (fst back)) = 7 \<and>
      sig_frames (table (snd back) 1) = 0"
proof -
  obtain regs' s' where p: "push_frame 1 example_regs 10 zero_info framed = (Some regs', s')"
    using framed_push by (cases "push_frame 1 example_regs 10 zero_info framed") auto
  note r = push_frame_result [OF p framed_apart]
  have sp: "r_useresp regs' = 0x600007A0" using r(2) framed_sp by simp
  have cs: "r_cs regs' = 0x1B"
    using p unfolding push_frame_def framed_sp Let_def framed_range [OF framed_mapped] framed_frames
    by (auto simp: SIGNAL_MAX_FRAMES_def example_regs_def)
  have cur: "current s' = Some 1" using push_frame_current [OF p] by simp
  have u: "user_address 0x60000000" "user_address (r_eip example_regs)" "user_address (r_useresp example_regs)"
    by (simp_all add: user_address_def USER_SPACE_START_def USER_SPACE_END_def example_regs_def)
  have m: "def_user_range_ok (r_useresp regs') SIGFRAME_SIZE s' = (True, s')"
    using push_frame_mapped [OF p framed_apart, of "0x60000000"] u(1) framed_mapped framed_range unfolding sp by blast
  have f: "0 \<le> sig_frames (table framed 1)" unfolding framed_frames by simp
  show ?thesis
    using sigreturn_roundtrip [OF p framed_apart f u(2,3) cur refl refl m refl,
        of "regs'\<lparr>r_useresp := 0x600007A4\<rparr>"] sp cs r(6) framed_frames p
    by (simp add: Let_def example_regs_def)
qed

end
