(* ===== verification/Spec2Isabelle.thy ===== *)
theory Spec2Isabelle
  imports Prelude Queues CLib Kernel_State Audit_Log Limits Pmm Vmm Kheap Umem Sched Accounting Signals Switch Signal_Queue Process Deliver
begin

text \<open>
  A verification development for the UzOS kernel.
\<close>

end
